theory Spec2Isabelle
  imports Main "HOL-Library.Multiset" "HOL-Library.Product_Lexorder"
begin

section \<open>JSINQ: the enumerator protocol\<close>

text \<open>
  The library (\<^verbatim>\<open>jsinq-enumerable.js\<close>) is written in JavaScript. Every sequence is an
  object with a method \<^verbatim>\<open>getEnumerator()\<close>; every call creates a fresh cursor, an
  object whose private variables are the cursor's state and whose three methods
  \<^verbatim>\<open>moveNext\<close>, \<^verbatim>\<open>current\<close> and \<^verbatim>\<open>reset\<close> read and write them.

  The embedding makes the private variables an explicit state value:
  \<^item> a sequence is a record of the fresh state (\<open>getEnumerator\<close>) and of the three
    methods as functions on states;
  \<^item> \<^verbatim>\<open>throw\<close> is the left injection of a sum; the exceptions are the two classes
    the library declares, the value \<^verbatim>\<open>false\<close> that \<^verbatim>\<open>Hash.get\<close> throws, the
    \<^verbatim>\<open>TypeError\<close> of the runtime, and \<open>Raised\<close> for whatever a callback of the
    caller throws;
  \<^item> \<^verbatim>\<open>moveNext\<close> of several operators loops over the cursor of a parent sequence,
    and the parent is an arbitrary object: such loops are partial functions into
    \<open>option\<close>, where \<open>None\<close> says that the call does not return;
  \<^item> \<^verbatim>\<open>current\<close> and \<^verbatim>\<open>reset\<close> contain no loop; \<^verbatim>\<open>current\<close> changes no variable.
  A cursor whose \<^verbatim>\<open>moveNext\<close> has thrown is not used again, so no state is kept
  for that outcome.
\<close>

datatype exn =
    InvalidOperationException
  | ArgumentOutOfRangeException
  | ThrownFalse
  | TypeError
  | Raised string

record ('s, 'a) Enumerable =
  getEnumerator :: "'s"
  moveNext :: "'s \<Rightarrow> (exn + bool \<times> 's) option"
  current :: "'s \<Rightarrow> exn + 'a"
  reset :: "'s \<Rightarrow> 's"

subsection \<open>The source adapter: \<^verbatim>\<open>new Enumerable(value)\<close> over an array\<close>

text \<open>
  The cursor's only variable is \<^verbatim>\<open>index\<close>, which starts at \<open>-1\<close> and is incremented
  by every call of \<^verbatim>\<open>moveNext\<close>, also past the end. The array is a list of defined
  elements: for such an array the constructor keeps \<^verbatim>\<open>value\<close> as it is (it wraps
  \<^verbatim>\<open>value\<close> into a one-element array only when \<^verbatim>\<open>value\<close> has no length or when
  \<^verbatim>\<open>value[0]\<close> is \<^verbatim>\<open>undefined\<close>).
\<close>

definition Enumerable_moveNext :: "'a list \<Rightarrow> int \<Rightarrow> (exn + bool \<times> int) option" where
  "Enumerable_moveNext array index =
     (let index = index + 1 in Some (Inr (index < int (length array), index)))"

definition Enumerable_current :: "'a list \<Rightarrow> int \<Rightarrow> exn + 'a" where
  "Enumerable_current array index =
     (if index < 0 \<or> index \<ge> int (length array) then Inl InvalidOperationException
      else Inr (array ! nat index))"

definition Enumerable_reset :: "int \<Rightarrow> int" where
  "Enumerable_reset index = -1"

definition Enumerable_of :: "'a list \<Rightarrow> (int, 'a) Enumerable" where
  "Enumerable_of array =
     \<lparr> getEnumerator = -1,
       moveNext = Enumerable_moveNext array,
       current = Enumerable_current array,
       reset = Enumerable_reset \<rparr>"

definition Enumerable_empty :: "(int, 'a) Enumerable" where
  "Enumerable_empty = Enumerable_of []"

subsection \<open>\<^verbatim>\<open>Enumerable.range\<close> and \<^verbatim>\<open>Enumerable.repeat\<close>\<close>

text \<open>
  Both cursors have the variables \<^verbatim>\<open>index\<close> and \<^verbatim>\<open>hasNext\<close> (\<open>Counter index hasNext\<close>). The two functions are
  copies of each other but for \<^verbatim>\<open>current\<close> and for \<^verbatim>\<open>reset\<close>: \<^verbatim>\<open>repeat\<close> clears
  \<^verbatim>\<open>hasNext\<close> in \<^verbatim>\<open>reset\<close>, \<^verbatim>\<open>range\<close> assigns \<^verbatim>\<open>index\<close> only. A negative count
  throws when the sequence is built.
\<close>

datatype counter = Counter (cnt_index: int) (cnt_hasNext: bool)

definition counter_moveNext :: "int \<Rightarrow> counter \<Rightarrow> (exn + bool \<times> counter) option" where
  "counter_moveNext cnt c =
     (let hasNext = False in
      if cnt_index c < cnt - 1
      then Some (Inr (True, Counter (cnt_index c + 1) True))
      else Some (Inr (False, Counter (cnt_index c) hasNext)))"

definition range_current :: "int \<Rightarrow> counter \<Rightarrow> exn + int" where
  "range_current start c =
     (if cnt_hasNext c then Inr (start + cnt_index c) else Inl InvalidOperationException)"

definition range_reset :: "counter \<Rightarrow> counter" where
  "range_reset c = Counter (-1) (cnt_hasNext c)"

definition Enumerable_range :: "int \<Rightarrow> int \<Rightarrow> exn + (counter, int) Enumerable" where
  "Enumerable_range start cnt =
     (if cnt < 0 then Inl ArgumentOutOfRangeException
      else Inr \<lparr> getEnumerator = Counter (-1) False,
                 moveNext = counter_moveNext cnt,
                 current = range_current start,
                 reset = range_reset \<rparr>)"

definition repeat_current :: "'a \<Rightarrow> counter \<Rightarrow> exn + 'a" where
  "repeat_current element c =
     (if cnt_hasNext c then Inr element else Inl InvalidOperationException)"

definition repeat_reset :: "counter \<Rightarrow> counter" where
  "repeat_reset c = Counter (-1) False"

definition Enumerable_repeat :: "'a \<Rightarrow> int \<Rightarrow> exn + (counter, 'a) Enumerable" where
  "Enumerable_repeat element cnt =
     (if cnt < 0 then Inl ArgumentOutOfRangeException
      else Inr \<lparr> getEnumerator = Counter (-1) False,
                 moveNext = counter_moveNext cnt,
                 current = repeat_current element,
                 reset = repeat_reset \<rparr>)"

subsection \<open>A consumer of the protocol\<close>

text \<open>
  A consumer calls the three methods in some order. \<open>drive\<close> runs a list of calls
  against a cursor and collects what every call returns; it is the observer against
  which two cursors are compared. The run ends at a \<^verbatim>\<open>moveNext\<close> that throws, and
  it is \<open>None\<close> when a \<^verbatim>\<open>moveNext\<close> does not return.
\<close>

datatype call = MoveNext | Current | Reset

datatype 'a reply = Moved bool | Got 'a | Threw exn | Rewound

fun drive :: "('s, 'a) Enumerable \<Rightarrow> 's \<Rightarrow> call list \<Rightarrow> 'a reply list option" where
  "drive E s [] = Some []"
| "drive E s (MoveNext # cs) =
     (case moveNext E s of
        None \<Rightarrow> None
      | Some (Inl e) \<Rightarrow> Some [Threw e]
      | Some (Inr (b, s')) \<Rightarrow> map_option ((#) (Moved b)) (drive E s' cs))"
| "drive E s (Current # cs) =
     map_option ((#) (case current E s of Inl e \<Rightarrow> Threw e | Inr x \<Rightarrow> Got x)) (drive E s cs)"
| "drive E s (Reset # cs) = map_option ((#) Rewound) (drive E (reset E s) cs)"

text \<open>
  The state a cursor is in after a run of calls (when every call returned).
\<close>

fun after :: "('s, 'a) Enumerable \<Rightarrow> 's \<Rightarrow> call list \<Rightarrow> 's option" where
  "after E s [] = Some s"
| "after E s (MoveNext # cs) =
     (case moveNext E s of
        Some (Inr (b, s')) \<Rightarrow> after E s' cs
      | _ \<Rightarrow> None)"
| "after E s (Current # cs) = after E s cs"
| "after E s (Reset # cs) = after E (reset E s) cs"

subsection \<open>\<^verbatim>\<open>toArray\<close>\<close>

partial_function (option) toArray_loop ::
  "('s, 'a) Enumerable \<Rightarrow> 's \<Rightarrow> 'a list \<Rightarrow> (exn + 'a list) option" where
  "toArray_loop E s array =
     (case moveNext E s of
        None \<Rightarrow> None
      | Some (Inl e) \<Rightarrow> Some (Inl e)
      | Some (Inr (b, s')) \<Rightarrow>
          if b then
            (case current E s' of
               Inl e \<Rightarrow> Some (Inl e)
             | Inr x \<Rightarrow> toArray_loop E s' (array @ [x]))
          else Some (Inr array))"

definition toArray :: "('s, 'a) Enumerable \<Rightarrow> (exn + 'a list) option" where
  "toArray E = toArray_loop E (getEnumerator E) []"

section \<open>Operators without a buffer\<close>

text \<open>
  An operator builds a new sequence from a parent sequence \<open>P\<close> (\<^verbatim>\<open>_this\<close> in the
  source). The cursor of the new sequence owns a cursor of the parent, created when the
  new cursor is created, and its own variables. The variables of such a cursor are a
  datatype with one field for each variable (the parent's cursor first), since the
  cursors nest as the operators do.

  A callback that the cursor calls in \<^verbatim>\<open>current\<close> may throw: the selector of
  \<^verbatim>\<open>select\<close> is a function into \<open>exn + 'b\<close>. Predicates and selectors called in the
  loops of \<^verbatim>\<open>moveNext\<close>, inside \<^verbatim>\<open>Array.prototype.sort\<close> and for the keys of the
  \<^verbatim>\<open>Hash\<close> are functions that return.
\<close>

subsection \<open>\<^verbatim>\<open>takeWhile\<close>\<close>

datatype 's takeWhile_vars =
  TakeWhile_vars (tw_enumerator: 's) (isOperational: bool) (tw_index: int)

definition takeWhile_moveNext ::
  "('s, 'a) Enumerable \<Rightarrow> ('a \<Rightarrow> int \<Rightarrow> bool) \<Rightarrow> 's takeWhile_vars
     \<Rightarrow> (exn + bool \<times> 's takeWhile_vars) option" where
  "takeWhile_moveNext P predicate v =
     (if isOperational v then
        (case moveNext P (tw_enumerator v) of
           None \<Rightarrow> None
         | Some (Inl e) \<Rightarrow> Some (Inl e)
         | Some (Inr (b, s')) \<Rightarrow>
             if b then
               (case current P s' of
                  Inl e \<Rightarrow> Some (Inl e)
                | Inr x \<Rightarrow>
                    (let ok = predicate x (tw_index v) in
                     Some (Inr (ok, TakeWhile_vars s' ok (tw_index v + 1)))))
             else Some (Inr (False, TakeWhile_vars s' False (tw_index v))))
      else Some (Inr (False, v)))"

definition takeWhile_current :: "('s, 'a) Enumerable \<Rightarrow> 's takeWhile_vars \<Rightarrow> exn + 'a" where
  "takeWhile_current P v =
     (if \<not> isOperational v then Inl InvalidOperationException
      else current P (tw_enumerator v))"

definition takeWhile_reset :: "('s, 'a) Enumerable \<Rightarrow> 's takeWhile_vars \<Rightarrow> 's takeWhile_vars" where
  "takeWhile_reset P v = TakeWhile_vars (reset P (tw_enumerator v)) True 0"

definition takeWhile_seq ::
  "('a \<Rightarrow> int \<Rightarrow> bool) \<Rightarrow> ('s, 'a) Enumerable \<Rightarrow> ('s takeWhile_vars, 'a) Enumerable" where
  "takeWhile_seq predicate P =
     \<lparr> getEnumerator = TakeWhile_vars (getEnumerator P) True 0,
       moveNext = takeWhile_moveNext P predicate,
       current = takeWhile_current P,
       reset = takeWhile_reset P \<rparr>"

subsection \<open>\<^verbatim>\<open>select\<close>\<close>

text \<open>
  The selector receives the element and the cursor's \<^verbatim>\<open>index\<close>. A function of one
  parameter ignores the second argument (\<open>unary\<close>); \<open>compose1 f g\<close> is
  \<^verbatim>\<open>x => g(f(x))\<close>, which throws what \<open>f\<close> throws and otherwise what \<open>g\<close> throws.
\<close>

datatype 's select_vars =
  Select_vars (sel_itemEnumerator: 's) (sel_index: int)

definition select_moveNext ::
  "('s, 'a) Enumerable \<Rightarrow> 's select_vars \<Rightarrow> (exn + bool \<times> 's select_vars) option" where
  "select_moveNext P v =
     (let index = sel_index v + 1 in
      case moveNext P (sel_itemEnumerator v) of
        None \<Rightarrow> None
      | Some (Inl e) \<Rightarrow> Some (Inl e)
      | Some (Inr (b, s')) \<Rightarrow> Some (Inr (b, Select_vars s' index)))"

definition select_current ::
  "('s, 'a) Enumerable \<Rightarrow> ('a \<Rightarrow> int \<Rightarrow> exn + 'b) \<Rightarrow> 's select_vars \<Rightarrow> exn + 'b" where
  "select_current P selector v =
     (case current P (sel_itemEnumerator v) of
        Inl e \<Rightarrow> Inl e
      | Inr x \<Rightarrow> selector x (sel_index v))"

definition select_reset :: "('s, 'a) Enumerable \<Rightarrow> 's select_vars \<Rightarrow> 's select_vars" where
  "select_reset P v = Select_vars (reset P (sel_itemEnumerator v)) (-1)"

definition select ::
  "('a \<Rightarrow> int \<Rightarrow> exn + 'b) \<Rightarrow> ('s, 'a) Enumerable \<Rightarrow> ('s select_vars, 'b) Enumerable" where
  "select selector P =
     \<lparr> getEnumerator = Select_vars (getEnumerator P) (-1),
       moveNext = select_moveNext P,
       current = select_current P selector,
       reset = select_reset P \<rparr>"

definition unary :: "('a \<Rightarrow> exn + 'b) \<Rightarrow> 'a \<Rightarrow> int \<Rightarrow> exn + 'b" where
  "unary f x i = f x"

definition compose1 :: "('a \<Rightarrow> exn + 'b) \<Rightarrow> ('b \<Rightarrow> exn + 'c) \<Rightarrow> 'a \<Rightarrow> exn + 'c" where
  "compose1 f g x = (case f x of Inl e \<Rightarrow> Inl e | Inr y \<Rightarrow> g y)"

subsection \<open>Comparing two cursors\<close>

text \<open>
  Two cursors are compared through a relation between their states that the three
  methods preserve: related states return the same value from \<^verbatim>\<open>current\<close>, the same
  outcome from \<^verbatim>\<open>moveNext\<close>, and lead to related states again.
\<close>

definition simulates ::
  "('s \<Rightarrow> 't \<Rightarrow> bool) \<Rightarrow> ('s, 'a) Enumerable \<Rightarrow> ('t, 'a) Enumerable \<Rightarrow> bool" where
  "simulates R E1 E2 \<longleftrightarrow>
     (\<forall>v w. R v w \<longrightarrow>
        current E1 v = current E2 w \<and>
        R (reset E1 v) (reset E2 w) \<and>
        (case moveNext E1 v of
           None \<Rightarrow> moveNext E2 w = None
         | Some (Inl e) \<Rightarrow> moveNext E2 w = Some (Inl e)
         | Some (Inr (b, v')) \<Rightarrow> (\<exists>w'. moveNext E2 w = Some (Inr (b, w')) \<and> R v' w')))"

text \<open>
  The cursor of \<^verbatim>\<open>select(f).select(g)\<close> and the cursor of one \<^verbatim>\<open>select\<close> are related
  when they hold the same cursor of the parent; the two counters play no role for
  functions of one parameter.
\<close>

definition select_select_rel :: "'s select_vars select_vars \<Rightarrow> 's select_vars \<Rightarrow> bool" where
  "select_select_rel v w \<longleftrightarrow> sel_itemEnumerator (sel_itemEnumerator v) = sel_itemEnumerator w"


section \<open>Draining a sequence\<close>

subsection \<open>What a cursor yields\<close>

text \<open>
  \<open>yields E s xs s'\<close>: started in state \<open>s\<close>, the cursor returns true from
  \<^verbatim>\<open>moveNext\<close> once for every element of \<open>xs\<close>, with that element as
  \<^verbatim>\<open>current\<close>, then returns false and is in state \<open>s'\<close>. A sequence is finite and
  follows the protocol when its fresh cursor yields some list.
\<close>

inductive yields :: "('s, 'a) Enumerable \<Rightarrow> 's \<Rightarrow> 'a list \<Rightarrow> 's \<Rightarrow> bool" where
  yields_Nil: "moveNext E s = Some (Inr (False, s')) \<Longrightarrow> yields E s [] s'"
| yields_Cons: "moveNext E s = Some (Inr (True, s1)) \<Longrightarrow> current E s1 = Inr x \<Longrightarrow>
     yields E s1 xs s' \<Longrightarrow> yields E s (x # xs) s'"

subsection \<open>\<^verbatim>\<open>sequenceEqual\<close>\<close>

text \<open>
  \<^verbatim>\<open>this == second\<close> compares the two sequence objects by identity, which a record of
  functions does not have: the outcome of that test is the argument \<open>same\<close>. The
  loop condition \<^verbatim>\<open>firstEnumerator.moveNext() && secondEnumerator.moveNext()\<close> does not
  advance the second cursor when the first is exhausted.
\<close>

partial_function (option) sequenceEqual_loop ::
  "('s, 'a) Enumerable \<Rightarrow> ('t, 'b) Enumerable \<Rightarrow> ('a \<Rightarrow> 'b \<Rightarrow> bool) \<Rightarrow> 's \<Rightarrow> 't
     \<Rightarrow> (exn + bool) option" where
  "sequenceEqual_loop E1 E2 equals s1 s2 =
     (case moveNext E1 s1 of
        None \<Rightarrow> None
      | Some (Inl e) \<Rightarrow> Some (Inl e)
      | Some (Inr (b1, s1')) \<Rightarrow>
          if \<not> b1 then Some (Inr True)
          else
            (case moveNext E2 s2 of
               None \<Rightarrow> None
             | Some (Inl e) \<Rightarrow> Some (Inl e)
             | Some (Inr (b2, s2')) \<Rightarrow>
                 if \<not> b2 then Some (Inr True)
                 else
                   (case current E1 s1' of
                      Inl e \<Rightarrow> Some (Inl e)
                    | Inr x \<Rightarrow>
                        (case current E2 s2' of
                           Inl e \<Rightarrow> Some (Inl e)
                         | Inr y \<Rightarrow>
                             if \<not> equals x y then Some (Inr False)
                             else sequenceEqual_loop E1 E2 equals s1' s2'))))"

definition sequenceEqual ::
  "bool \<Rightarrow> ('s, 'a) Enumerable \<Rightarrow> ('t, 'b) Enumerable \<Rightarrow> ('a \<Rightarrow> 'b \<Rightarrow> bool)
     \<Rightarrow> (exn + bool) option" where
  "sequenceEqual same E1 E2 equals =
     (if same then Some (Inr True)
      else sequenceEqual_loop E1 E2 equals (getEnumerator E1) (getEnumerator E2))"

subsection \<open>\<^verbatim>\<open>any\<close> and the operators built on it\<close>

text \<open>
  The callers of \<^verbatim>\<open>any(predicate)\<close> pass closures that assign variables of the calling
  function. The closure is a function from the variables and the element to the result
  and the new variables, or to the exception it throws; \<^verbatim>\<open>any\<close> returns its result
  and the variables. A variable declared without a value is \<^verbatim>\<open>undefined\<close>, which is
  \<open>None\<close>; a function that returns such a variable returns an \<open>option\<close>.
\<close>

partial_function (option) any_loop ::
  "('s, 'a) Enumerable \<Rightarrow> ('c \<Rightarrow> 'a \<Rightarrow> exn + bool \<times> 'c) \<Rightarrow> 'c \<Rightarrow> 's
     \<Rightarrow> (exn + bool \<times> 'c) option" where
  "any_loop E predicate c s =
     (case moveNext E s of
        None \<Rightarrow> None
      | Some (Inl e) \<Rightarrow> Some (Inl e)
      | Some (Inr (b, s')) \<Rightarrow>
          if b then
            (case current E s' of
               Inl e \<Rightarrow> Some (Inl e)
             | Inr x \<Rightarrow>
                 (case predicate c x of
                    Inl e \<Rightarrow> Some (Inl e)
                  | Inr (r, c') \<Rightarrow>
                      if r then Some (Inr (True, c')) else any_loop E predicate c' s'))
          else Some (Inr (False, c)))"

definition any_seq ::
  "('s, 'a) Enumerable \<Rightarrow> ('c \<Rightarrow> 'a \<Rightarrow> exn + bool \<times> 'c) \<Rightarrow> 'c \<Rightarrow> (exn + bool \<times> 'c) option" where
  "any_seq E predicate c = any_loop E predicate c (getEnumerator E)"

text \<open>
  \<^verbatim>\<open>elementAt(index)\<close>: the closure assigns \<^verbatim>\<open>element\<close> and returns
  \<^verbatim>\<open>index-- == 0\<close>.
\<close>

definition elementAt :: "('s, 'a) Enumerable \<Rightarrow> int \<Rightarrow> (exn + 'a option) option" where
  "elementAt E index =
     (case any_seq E (\<lambda>(element, index) item. Inr (index = 0, (Some item, index - 1)))
             (None, index) of
        None \<Rightarrow> None
      | Some (Inl e) \<Rightarrow> Some (Inl e)
      | Some (Inr (found, (element, _))) \<Rightarrow>
          if \<not> found then Some (Inl ArgumentOutOfRangeException)
          else Some (Inr element))"

text \<open>
  \<^verbatim>\<open>try { ... } catch (e) { return defaultValue; }\<close> catches whatever the block throws.
\<close>

definition elementAtOrDefault ::
  "('s, 'a) Enumerable \<Rightarrow> int \<Rightarrow> 'a option \<Rightarrow> (exn + 'a option) option" where
  "elementAtOrDefault E index defaultValue =
     (case elementAt E index of
        None \<Rightarrow> None
      | Some (Inl e) \<Rightarrow> Some (Inr defaultValue)
      | Some (Inr x) \<Rightarrow> Some (Inr x))"

text \<open>
  \<^verbatim>\<open>first()\<close> and \<^verbatim>\<open>first(predicate)\<close>: the argument is \<open>None\<close> for the call without
  arguments. Without a predicate, whatever \<^verbatim>\<open>elementAt(0)\<close> throws is replaced by an
  \<^verbatim>\<open>InvalidOperationException\<close>.
\<close>

definition first ::
  "('s, 'a) Enumerable \<Rightarrow> ('a \<Rightarrow> exn + bool) option \<Rightarrow> (exn + 'a option) option" where
  "first E predicate =
     (case predicate of
        None \<Rightarrow>
          (case elementAt E 0 of
             None \<Rightarrow> None
           | Some (Inl e) \<Rightarrow> Some (Inl InvalidOperationException)
           | Some (Inr x) \<Rightarrow> Some (Inr x))
      | Some p \<Rightarrow>
          (case any_seq E (\<lambda>element item.
                   case p item of
                     Inl e \<Rightarrow> Inl e
                   | Inr ok \<Rightarrow> if ok then Inr (True, Some item) else Inr (False, element))
                  None of
             None \<Rightarrow> None
           | Some (Inl e) \<Rightarrow> Some (Inl e)
           | Some (Inr (found, element)) \<Rightarrow>
               if \<not> found then Some (Inl InvalidOperationException)
               else Some (Inr element)))"

text \<open>
  \<^verbatim>\<open>firstOrDefault\<close>, \<^verbatim>\<open>lastOrDefault\<close> and \<^verbatim>\<open>singleOrDefault\<close> read their
  arguments from \<^verbatim>\<open>arguments\<close>: one argument is the default value, two are the predicate
  and the default value.
\<close>

definition firstOrDefault ::
  "('s, 'a) Enumerable \<Rightarrow> ('a \<Rightarrow> exn + bool) option \<Rightarrow> 'a option \<Rightarrow> (exn + 'a option) option" where
  "firstOrDefault E predicate defaultValue =
     (case first E predicate of
        None \<Rightarrow> None
      | Some (Inl e) \<Rightarrow> Some (Inr defaultValue)
      | Some (Inr x) \<Rightarrow> Some (Inr x))"

text \<open>
  \<^verbatim>\<open>last(predicate)\<close>: the closure always returns false, so \<^verbatim>\<open>any\<close> visits every
  element; its variables are \<^verbatim>\<open>last\<close> (\<open>last_item\<close>) and \<^verbatim>\<open>isEmpty\<close>.
\<close>

definition last_seq ::
  "('s, 'a) Enumerable \<Rightarrow> ('a \<Rightarrow> exn + bool) option \<Rightarrow> (exn + 'a option) option" where
  "last_seq E predicate =
     (case any_seq E (\<lambda>(last_item, isEmpty) item.
              case (case predicate of None \<Rightarrow> Inr True | Some p \<Rightarrow> p item) of
                Inl e \<Rightarrow> Inl e
              | Inr ok \<Rightarrow>
                  if ok then Inr (False, (Some item, False)) else Inr (False, (last_item, isEmpty)))
             (None, True) of
        None \<Rightarrow> None
      | Some (Inl e) \<Rightarrow> Some (Inl e)
      | Some (Inr (_, (last_item, isEmpty))) \<Rightarrow>
          if isEmpty then Some (Inl InvalidOperationException) else Some (Inr last_item))"

definition lastOrDefault ::
  "('s, 'a) Enumerable \<Rightarrow> ('a \<Rightarrow> exn + bool) option \<Rightarrow> 'a option \<Rightarrow> (exn + 'a option) option" where
  "lastOrDefault E predicate defaultValue =
     (case last_seq E predicate of
        None \<Rightarrow> None
      | Some (Inl e) \<Rightarrow> Some (Inr defaultValue)
      | Some (Inr x) \<Rightarrow> Some (Inr x))"

text \<open>
  \<^verbatim>\<open>single(predicate)\<close> has no loop: it moves the cursor twice. The predicate is called
  only when the second \<^verbatim>\<open>moveNext()\<close> returned false.
\<close>

definition single ::
  "('s, 'a) Enumerable \<Rightarrow> ('a \<Rightarrow> exn + bool) option \<Rightarrow> (exn + 'a option) option" where
  "single E predicate =
     (case moveNext E (getEnumerator E) of
        None \<Rightarrow> None
      | Some (Inl e) \<Rightarrow> Some (Inl e)
      | Some (Inr (b, s)) \<Rightarrow>
          if \<not> b then Some (Inl InvalidOperationException)
          else
            (case current E s of
               Inl e \<Rightarrow> Some (Inl e)
             | Inr x \<Rightarrow>
                 (case moveNext E s of
                    None \<Rightarrow> None
                  | Some (Inl e) \<Rightarrow> Some (Inl e)
                  | Some (Inr (b2, s')) \<Rightarrow>
                      if b2 then Some (Inl InvalidOperationException)
                      else
                        (case predicate of
                           None \<Rightarrow> Some (Inr (Some x))
                         | Some p \<Rightarrow>
                             (case p x of
                                Inl e \<Rightarrow> Some (Inl e)
                              | Inr ok \<Rightarrow>
                                  if \<not> ok then Some (Inl InvalidOperationException)
                                  else Some (Inr (Some x)))))))"

definition singleOrDefault ::
  "('s, 'a) Enumerable \<Rightarrow> ('a \<Rightarrow> exn + bool) option \<Rightarrow> 'a option \<Rightarrow> (exn + 'a option) option" where
  "singleOrDefault E predicate defaultValue =
     (case single E predicate of
        None \<Rightarrow> None
      | Some (Inl e) \<Rightarrow> Some (Inr defaultValue)
      | Some (Inr x) \<Rightarrow> Some (Inr x))"

text \<open>
  What the four operators return on a sequence that yields \<open>xs\<close>, as functions on
  the list: the first element the predicate accepts, the last one, the only one, the one
  at an index; the default value when there is none and when the predicate throws on
  the way.
\<close>

fun first_or :: "('a \<Rightarrow> exn + bool) \<Rightarrow> 'a list \<Rightarrow> 'a option \<Rightarrow> 'a option" where
  "first_or p [] d = d"
| "first_or p (x # xs) d =
     (case p x of Inl e \<Rightarrow> d | Inr ok \<Rightarrow> if ok then Some x else first_or p xs d)"

fun last_or :: "('a \<Rightarrow> exn + bool) \<Rightarrow> 'a list \<Rightarrow> 'a option \<Rightarrow> 'a option \<Rightarrow> 'a option" where
  "last_or p [] seen d = (case seen of None \<Rightarrow> d | Some x \<Rightarrow> Some x)"
| "last_or p (x # xs) seen d =
     (case p x of Inl e \<Rightarrow> d | Inr ok \<Rightarrow> last_or p xs (if ok then Some x else seen) d)"

definition single_or :: "('a \<Rightarrow> exn + bool) \<Rightarrow> 'a list \<Rightarrow> 'a option \<Rightarrow> 'a option" where
  "single_or p xs d = (case xs of [x] \<Rightarrow> (if p x = Inr True then Some x else d) | _ \<Rightarrow> d)"

definition elementAt_or :: "'a list \<Rightarrow> int \<Rightarrow> 'a option \<Rightarrow> 'a option" where
  "elementAt_or xs i d = (if 0 \<le> i \<and> i < int (length xs) then Some (xs ! nat i) else d)"

definition accepts :: "'a \<Rightarrow> exn + bool" where
  "accepts = (\<lambda>x. Inr True)"

text \<open>
  The loop of \<^verbatim>\<open>any\<close> on a list: the closure is applied to the elements in order,
  until it returns true or throws.
\<close>

fun any_list :: "('c \<Rightarrow> 'a \<Rightarrow> exn + bool \<times> 'c) \<Rightarrow> 'c \<Rightarrow> 'a list \<Rightarrow> exn + bool \<times> 'c" where
  "any_list predicate c [] = Inr (False, c)"
| "any_list predicate c (x # xs) =
     (case predicate c x of
        Inl e \<Rightarrow> Inl e
      | Inr (r, c') \<Rightarrow> if r then Inr (True, c') else any_list predicate c' xs)"

section \<open>JavaScript values, and the default comparers\<close>

text \<open>
  The \<^verbatim>\<open>Hash\<close> inspects its keys with \<^verbatim>\<open>typeof\<close>, files primitive keys under their
  property name, and compares with \<^verbatim>\<open>==\<close>; the default comparers apply \<^verbatim>\<open>==\<close>,
  \<^verbatim>\<open><\<close> and \<^verbatim>\<open>>\<close> to whatever they are given. Keys and stored values are
  therefore values of JavaScript: \<^verbatim>\<open>undefined\<close>, \<^verbatim>\<open>null\<close>, a boolean, a number, a
  string, or an object. Numbers are the integers. An object is known by a value of the
  type \<open>'x\<close>, and two objects are the same object when these values are equal; an
  object that is compared is a plain object, with the \<^verbatim>\<open>valueOf\<close> and \<^verbatim>\<open>toString\<close> of
  \<^verbatim>\<open>Object.prototype\<close> (the arrays that the containers store are never compared).
  \<open>Builtin name\<close> is the function object that every object inherits from
  \<^verbatim>\<open>Object.prototype\<close> under that name; it occurs as an element read from a
  container, never as a key.
\<close>

datatype 'x js =
  Undefined | Null | Boolean bool | Number int | String string | Object 'x | Builtin string

fun typeof :: "'x js \<Rightarrow> string" where
  "typeof Undefined = ''undefined''"
| "typeof Null = ''object''"
| "typeof (Boolean b) = ''boolean''"
| "typeof (Number n) = ''number''"
| "typeof (String s) = ''string''"
| "typeof (Object x) = ''object''"
| "typeof (Builtin name) = ''function''"

text \<open>
  Modelled from the spec: the conversions of the language (ECMAScript, \<^verbatim>\<open>ToNumber\<close> and
  \<^verbatim>\<open>ToPrimitive\<close>), which \<^verbatim>\<open>==\<close> and \<^verbatim>\<open><\<close> apply to operands of different types.

  The number of a string: white space at both ends is dropped; the empty string is
  \<open>0\<close>; a decimal numeral with an optional sign is its value; any other string is
  \<^verbatim>\<open>NaN\<close> (\<open>None\<close>). As the numbers are the integers, the strings that denote a number
  in another notation (with a fraction or an exponent, hexadecimal, \<^verbatim>\<open>Infinity\<close>) are
  not among the data.
\<close>

definition is_space :: "char \<Rightarrow> bool" where
  "is_space c \<longleftrightarrow> (of_char c :: nat) \<in> set [9, 10, 11, 12, 13, 32, 160]"

definition digit :: "char \<Rightarrow> nat option" where
  "digit c =
     (if 48 \<le> (of_char c :: nat) \<and> (of_char c :: nat) \<le> 57 then Some (of_char c - 48)
      else None)"

fun decimal :: "nat \<Rightarrow> string \<Rightarrow> nat option" where
  "decimal n [] = Some n"
| "decimal n (c # cs) =
     (case digit c of
        None \<Rightarrow> None
      | Some d \<Rightarrow> decimal (10 * n + d) cs)"

definition StringToNumber :: "string \<Rightarrow> int option" where
  "StringToNumber s =
     (case rev (dropWhile is_space (rev (dropWhile is_space s))) of
        [] \<Rightarrow> Some 0
      | c # cs \<Rightarrow>
          if c = CHR ''-'' then (if cs = [] then None
                                else map_option (\<lambda>n. - int n) (decimal 0 cs))
          else if c = CHR ''+'' then (if cs = [] then None
                                     else map_option int (decimal 0 cs))
          else map_option int (decimal 0 (c # cs)))"

fun ToNumber :: "'x js \<Rightarrow> int option" where
  "ToNumber Undefined = None"
| "ToNumber Null = Some 0"
| "ToNumber (Boolean b) = Some (if b then 1 else 0)"
| "ToNumber (Number n) = Some n"
| "ToNumber (String s) = StringToNumber s"
| "ToNumber (Object x) = None"
| "ToNumber (Builtin name) = None"

text \<open>
  The primitive value of a plain object is the string that
  \<^verbatim>\<open>Object.prototype.toString\<close> returns (\<^verbatim>\<open>valueOf\<close> returns the object itself). The
  text of a built-in function depends on the implementation: a built-in function
  stays as it is here, and compares as \<^verbatim>\<open>NaN\<close>.
\<close>

fun ToPrimitive :: "'x js \<Rightarrow> 'x js" where
  "ToPrimitive (Object x) = String ''[object Object]''"
| "ToPrimitive v = v"

text \<open>
  \<^verbatim>\<open>a == b\<close>. Two values of one type are compared as such, and \<^verbatim>\<open>null\<close> and
  \<^verbatim>\<open>undefined\<close> equal each other and nothing else. Otherwise a boolean is replaced by
  its number, an object facing a string or a number by its primitive value, and a
  string facing a number by its number. An object never equals a number or a boolean,
  its primitive value being no numeral.
\<close>

fun loose_equals :: "'x js \<Rightarrow> 'x js \<Rightarrow> bool" where
  "loose_equals Undefined Undefined = True"
| "loose_equals Undefined Null = True"
| "loose_equals Null Undefined = True"
| "loose_equals Null Null = True"
| "loose_equals (Boolean a) (Boolean b) = (a = b)"
| "loose_equals (Number a) (Number b) = (a = b)"
| "loose_equals (String a) (String b) = (a = b)"
| "loose_equals (Object a) (Object b) = (a = b)"
| "loose_equals (Builtin a) (Builtin b) = (a = b)"
| "loose_equals (Number a) (String b) = (StringToNumber b = Some a)"
| "loose_equals (String a) (Number b) = (StringToNumber a = Some b)"
| "loose_equals (Boolean a) (Number b) = ((if a then 1 else 0) = b)"
| "loose_equals (Number a) (Boolean b) = (a = (if b then 1 else 0))"
| "loose_equals (Boolean a) (String b) = (StringToNumber b = Some (if a then 1 else 0))"
| "loose_equals (String a) (Boolean b) = (StringToNumber a = Some (if b then 1 else 0))"
| "loose_equals (Object a) (String b) = (ToPrimitive (Object a) = String b)"
| "loose_equals (String a) (Object b) = (String a = ToPrimitive (Object b))"
| "loose_equals _ _ = False"

text \<open>
  \<^verbatim>\<open>a < b\<close>: both operands are made primitive; two strings are compared character
  by character, any other two values as numbers, and a comparison with \<^verbatim>\<open>NaN\<close> is
  false.
\<close>

fun string_less :: "string \<Rightarrow> string \<Rightarrow> bool" where
  "string_less [] [] = False"
| "string_less [] (y # ys) = True"
| "string_less (x # xs) [] = False"
| "string_less (x # xs) (y # ys) =
     ((of_char x :: nat) < of_char y \<or> (x = y \<and> string_less xs ys))"

definition js_less :: "'x js \<Rightarrow> 'x js \<Rightarrow> bool" where
  "js_less a b =
     (case (ToPrimitive a, ToPrimitive b) of
        (String s, String t) \<Rightarrow> string_less s t
      | (p, q) \<Rightarrow>
          (case (ToNumber p, ToNumber q) of
             (Some m, Some n) \<Rightarrow> m < n
           | _ \<Rightarrow> False))"

text \<open>
  The property name of a primitive key, \<^verbatim>\<open>String(key)\<close>: a number in decimal
  notation. It is only asked for strings, numbers and booleans.
\<close>

fun digits :: "nat \<Rightarrow> string" where
  "digits n =
     (if n < 10 then [char_of (48 + n)]
      else digits (n div 10) @ [char_of (48 + n mod 10)])"

fun propertyName :: "'x js \<Rightarrow> string" where
  "propertyName (String s) = s"
| "propertyName (Number n) = (if n < 0 then CHR ''-'' # digits (nat (- n)) else digits (nat n))"
| "propertyName (Boolean b) = (if b then ''true'' else ''false'')"
| "propertyName _ = []"

text \<open>
  The default comparers: \<^verbatim>\<open>EqualityComparer.prototype.equals\<close> and
  \<^verbatim>\<open>Comparer.prototype.compare\<close>.
\<close>

definition EqualityComparer_equals :: "'x js \<Rightarrow> 'x js \<Rightarrow> bool" where
  "EqualityComparer_equals a b = loose_equals a b"

definition Comparer_compare :: "'x js \<Rightarrow> 'x js \<Rightarrow> int" where
  "Comparer_compare a b = (if js_less a b then -1 else (if js_less b a then 1 else 0))"

section \<open>The ordering subsystem\<close>

subsection \<open>\<^verbatim>\<open>Array.prototype.sort\<close>\<close>

text \<open>
  Modelled from the spec: \<^verbatim>\<open>Array.prototype.sort\<close> is a function of the JavaScript
  runtime, not of the library. The specification calls it one stable sort ("if all
  links tie, relative order is whatever the underlying stable sort preserves"), and a
  stable sort is what ECMAScript requires since 2019. The model is the insertion sort:
  every element, from the last to the first, is inserted before the first element of the
  sorted rest that the comparison function does not put before it. On the result for a
  comparison function that is no total preorder, which the language leaves open, nothing
  is proved.
\<close>

fun insert_by :: "('a \<Rightarrow> 'a \<Rightarrow> int) \<Rightarrow> 'a \<Rightarrow> 'a list \<Rightarrow> 'a list" where
  "insert_by compareFn x [] = [x]"
| "insert_by compareFn x (y # ys) =
     (if compareFn x y \<le> 0 then x # y # ys else y # insert_by compareFn x ys)"

definition Array_sort :: "('a \<Rightarrow> 'a \<Rightarrow> int) \<Rightarrow> 'a list \<Rightarrow> 'a list" where
  "Array_sort compareFn array = foldr (insert_by compareFn) array []"

subsection \<open>\<^verbatim>\<open>orderBy\<close>, \<^verbatim>\<open>orderByDescending\<close>, \<^verbatim>\<open>thenBy\<close>, \<^verbatim>\<open>thenByDescending\<close>\<close>

text \<open>
  One entry of \<^verbatim>\<open>selectors\<close> is the array \<^verbatim>\<open>[keySelector, direction, comparer]\<close>. The
  function \<^verbatim>\<open>orderBy(direction)\<close> puts its own entry before \<^verbatim>\<open>parentSelectors\<close>, and
  the comparison function passed to \<^verbatim>\<open>sort\<close> goes through \<^verbatim>\<open>selectors\<close> from the last
  index to index 0: \<open>compare_links\<close> is that loop on the reversed list.
\<close>

type_synonym ('a, 'k) link = "('a \<Rightarrow> 'k) \<times> int \<times> ('k \<Rightarrow> 'k \<Rightarrow> int)"

definition ASCENDING :: int where
  "ASCENDING = 1"

definition DESCENDING :: int where
  "DESCENDING = -1"

fun compare_links :: "('a, 'k) link list \<Rightarrow> 'a \<Rightarrow> 'a \<Rightarrow> int" where
  "compare_links [] a b = 0"
| "compare_links ((selector, direction, comparer) # rest) a b =
     (let keyA = selector a; keyB = selector b; compareResult = comparer keyA keyB in
      if compareResult \<noteq> 0 then compareResult * direction
      else compare_links rest a b)"

definition compare_selectors :: "('a, 'k) link list \<Rightarrow> 'a \<Rightarrow> 'a \<Rightarrow> int" where
  "compare_selectors selectors a b = compare_links (rev selectors) a b"

text \<open>
  An ordered sequence keeps the sequence it was built from (\<^verbatim>\<open>_this\<close>, never the
  ordered sequence before it) and \<^verbatim>\<open>selectors\<close>; \<^verbatim>\<open>thenBy\<close> calls
  \<^verbatim>\<open>orderBy(ASCENDING)\<close> on \<^verbatim>\<open>_this\<close> with its \<^verbatim>\<open>selectors\<close> as \<^verbatim>\<open>parentSelectors\<close>.
\<close>

datatype ('s, 'a, 'k) OrderedEnumerable =
  OrderedEnumerable (ord_this: "('s, 'a) Enumerable") (ord_selectors: "('a, 'k) link list")

definition orderBy ::
  "int \<Rightarrow> ('s, 'a) Enumerable \<Rightarrow> ('a \<Rightarrow> 'k) \<Rightarrow> ('k \<Rightarrow> 'k \<Rightarrow> int) \<Rightarrow> ('a, 'k) link list
     \<Rightarrow> ('s, 'a, 'k) OrderedEnumerable" where
  "orderBy direction P keySelector comparer parentSelectors =
     OrderedEnumerable P ([(keySelector, direction, comparer)] @ parentSelectors)"

definition thenBy ::
  "('s, 'a, 'k) OrderedEnumerable \<Rightarrow> ('a \<Rightarrow> 'k) \<Rightarrow> ('k \<Rightarrow> 'k \<Rightarrow> int)
     \<Rightarrow> ('s, 'a, 'k) OrderedEnumerable" where
  "thenBy ordered keySelector comparer =
     orderBy ASCENDING (ord_this ordered) keySelector comparer (ord_selectors ordered)"

definition thenByDescending ::
  "('s, 'a, 'k) OrderedEnumerable \<Rightarrow> ('a \<Rightarrow> 'k) \<Rightarrow> ('k \<Rightarrow> 'k \<Rightarrow> int)
     \<Rightarrow> ('s, 'a, 'k) OrderedEnumerable" where
  "thenByDescending ordered keySelector comparer =
     orderBy DESCENDING (ord_this ordered) keySelector comparer (ord_selectors ordered)"

text \<open>
  The cursor's variable \<^verbatim>\<open>itemEnumerator\<close> is \<^verbatim>\<open>null\<close> until the first
  \<^verbatim>\<open>moveNext\<close>, and then the cursor of the source adapter over the sorted array: the
  array and the adapter's \<^verbatim>\<open>index\<close>.
\<close>

type_synonym 'a buffered = "('a list \<times> int) option"

definition buffered_moveNext :: "'a list \<Rightarrow> int \<Rightarrow> (exn + bool \<times> 'a buffered) option" where
  "buffered_moveNext array i =
     (case Enumerable_moveNext array i of
        None \<Rightarrow> None
      | Some (Inl e) \<Rightarrow> Some (Inl e)
      | Some (Inr (b, i')) \<Rightarrow> Some (Inr (b, Some (array, i'))))"

definition buffered_current :: "'a buffered \<Rightarrow> exn + 'a" where
  "buffered_current itemEnumerator =
     (case itemEnumerator of
        None \<Rightarrow> Inl InvalidOperationException
      | Some (array, i) \<Rightarrow> Enumerable_current array i)"

definition buffered_reset :: "'a buffered \<Rightarrow> 'a buffered" where
  "buffered_reset itemEnumerator =
     (case itemEnumerator of
        None \<Rightarrow> None
      | Some (array, i) \<Rightarrow> Some (array, Enumerable_reset i))"

definition orderBy_lazyInitialize ::
  "('s, 'a, 'k) OrderedEnumerable \<Rightarrow> (exn + 'a list) option" where
  "orderBy_lazyInitialize ordered =
     (case toArray (ord_this ordered) of
        None \<Rightarrow> None
      | Some (Inl e) \<Rightarrow> Some (Inl e)
      | Some (Inr array) \<Rightarrow>
          Some (Inr (Array_sort (compare_selectors (ord_selectors ordered)) array)))"

definition orderBy_moveNext ::
  "('s, 'a, 'k) OrderedEnumerable \<Rightarrow> 'a buffered \<Rightarrow> (exn + bool \<times> 'a buffered) option" where
  "orderBy_moveNext ordered itemEnumerator =
     (case itemEnumerator of
        None \<Rightarrow>
          (case orderBy_lazyInitialize ordered of
             None \<Rightarrow> None
           | Some (Inl e) \<Rightarrow> Some (Inl e)
           | Some (Inr array) \<Rightarrow> buffered_moveNext array (-1))
      | Some (array, i) \<Rightarrow> buffered_moveNext array i)"

definition ordered_seq :: "('s, 'a, 'k) OrderedEnumerable \<Rightarrow> ('a buffered, 'a) Enumerable" where
  "ordered_seq ordered =
     \<lparr> getEnumerator = None,
       moveNext = orderBy_moveNext ordered,
       current = buffered_current,
       reset = buffered_reset \<rparr>"



text \<open>
  The order a comparer gives to keys is described by a rank into a linear order:
  \<open>three_way\<close> is the result a comparer must return for two ranks. For numbers as
  keys and the default comparer the rank is the number.
\<close>

definition three_way :: "'o::linorder \<Rightarrow> 'o \<Rightarrow> int" where
  "three_way a b = (if a < b then -1 else if b < a then 1 else 0)"


section \<open>The associative container \<^verbatim>\<open>Hash\<close>\<close>

text \<open>
  A \<^verbatim>\<open>Hash\<close> has the fields \<^verbatim>\<open>comparer\<close>, \<^verbatim>\<open>primitiveItems\<close> (an object used as a
  dictionary from property names to elements) and \<^verbatim>\<open>complexItems\<close> (an array of
  \<^verbatim>\<open>{key, element}\<close> objects).

  The constructor first assigns \<^verbatim>\<open>null\<close> to \<^verbatim>\<open>comparer\<close> when it has no argument or
  the default comparer as argument, and then, unconditionally, \<^verbatim>\<open>arguments[0]\<close>: the
  field ends as the argument, and \<^verbatim>\<open>this.comparer == null\<close> holds exactly for
  \<^verbatim>\<open>new Hash()\<close>. The argument of \<open>Hash_new\<close> is \<open>None\<close> for \<^verbatim>\<open>new Hash()\<close>
  and the \<^verbatim>\<open>equals\<close> method of the comparer otherwise.
\<close>

datatype ('x, 'y) Hash =
  Hash (hash_comparer: "('x js \<Rightarrow> 'x js \<Rightarrow> bool) option")
       (primitiveItems: "(string \<times> 'y js) list")
       (complexItems: "('x js \<times> 'y js) list")

definition Hash_new :: "('x js \<Rightarrow> 'x js \<Rightarrow> bool) option \<Rightarrow> ('x, 'y) Hash" where
  "Hash_new comparer = Hash comparer [] []"

text \<open>
  Reading \<^verbatim>\<open>this.primitiveItems[key]\<close>: the object's own property of that name, else
  the property inherited from \<^verbatim>\<open>Object.prototype\<close> (the names of ECMAScript 3), else
  \<^verbatim>\<open>undefined\<close>. Writing \<^verbatim>\<open>this.primitiveItems[key] = v\<close> sets the own property.
\<close>

definition Object_prototype :: "string list" where
  "Object_prototype =
     [''constructor'', ''toString'', ''toLocaleString'', ''valueOf'', ''hasOwnProperty'',
      ''isPrototypeOf'', ''propertyIsEnumerable'']"

definition getProperty :: "(string \<times> 'y js) list \<Rightarrow> string \<Rightarrow> 'y js" where
  "getProperty object name =
     (case map_of object name of
        Some v \<Rightarrow> v
      | None \<Rightarrow> if name \<in> set Object_prototype then Builtin name else Undefined)"

fun setProperty :: "(string \<times> 'y js) list \<Rightarrow> string \<Rightarrow> 'y js \<Rightarrow> (string \<times> 'y js) list" where
  "setProperty [] name v = [(name, v)]"
| "setProperty ((n, w) # object) name v =
     (if n = name then (n, v) # object else (n, w) # setProperty object name v)"

text \<open>
  \<^verbatim>\<open>lookUp(key, func)\<close>. The callback \<^verbatim>\<open>func\<close> is called with the element found
  (\<open>Some\<close>) or with no argument (\<open>None\<close>), and returns an array of one or two
  values: the value \<^verbatim>\<open>lookUp\<close> returns and, when present, the element to store. The
  function returns that value and the container after the call.

  The first branch is taken for \<^verbatim>\<open>new Hash()\<close> and a key that is a string, a number
  or a boolean (\<^verbatim>\<open>typeof key == 'null'\<close> holds for no value). The second branch scans
  \<^verbatim>\<open>complexItems\<close> for the first item whose key the comparer, or \<^verbatim>\<open>==\<close> without a
  comparer, takes for the key.
\<close>

fun lookUp_complex ::
  "('x js \<Rightarrow> 'x js \<Rightarrow> bool) \<Rightarrow> 'x js \<Rightarrow> ('y js option \<Rightarrow> exn + 'r \<times> 'y js option)
     \<Rightarrow> ('x js \<times> 'y js) list \<Rightarrow> exn + 'r \<times> ('x js \<times> 'y js) list" where
  "lookUp_complex matches key func [] =
     (case func None of
        Inl e \<Rightarrow> Inl e
      | Inr (result, new) \<Rightarrow>
          Inr (result, case new of None \<Rightarrow> [] | Some element \<Rightarrow> [(key, element)]))"
| "lookUp_complex matches key func (item # items) =
     (if matches (fst item) key then
        (case func (Some (snd item)) of
           Inl e \<Rightarrow> Inl e
         | Inr (result, new) \<Rightarrow>
             Inr (result,
                  (case new of None \<Rightarrow> item | Some element \<Rightarrow> (fst item, element)) # items))
      else
        (case lookUp_complex matches key func items of
           Inl e \<Rightarrow> Inl e
         | Inr (result, items') \<Rightarrow> Inr (result, item # items')))"

definition primitive_key :: "'x js \<Rightarrow> bool" where
  "primitive_key key \<longleftrightarrow>
     typeof key = ''string'' \<or> typeof key = ''number'' \<or> typeof key = ''boolean'' \<or>
     typeof key = ''null''"

definition lookUp ::
  "('x, 'y) Hash \<Rightarrow> 'x js \<Rightarrow> ('y js option \<Rightarrow> exn + 'r \<times> 'y js option)
     \<Rightarrow> exn + 'r \<times> ('x, 'y) Hash" where
  "lookUp h key func =
     (if hash_comparer h = None \<and> primitive_key key
      then
        (let v = getProperty (primitiveItems h) (propertyName key) in
         case (if typeof v \<noteq> ''undefined'' then func (Some v) else func None) of
           Inl e \<Rightarrow> Inl e
         | Inr (result, new) \<Rightarrow>
             Inr (result,
                  case new of
                    None \<Rightarrow> h
                  | Some element \<Rightarrow>
                      Hash (hash_comparer h)
                        (setProperty (primitiveItems h) (propertyName key) element)
                        (complexItems h)))
      else
        (case lookUp_complex
                (case hash_comparer h of Some equals \<Rightarrow> equals | None \<Rightarrow> loose_equals)
                key func (complexItems h) of
           Inl e \<Rightarrow> Inl e
         | Inr (result, items) \<Rightarrow>
             Inr (result, Hash (hash_comparer h) (primitiveItems h) items)))"

definition keyExists :: "('x, 'y) Hash \<Rightarrow> 'x js \<Rightarrow> exn + bool \<times> ('x, 'y) Hash" where
  "keyExists h key =
     lookUp h key (\<lambda>v. Inr (case v of None \<Rightarrow> False | Some _ \<Rightarrow> True, None))"

definition get :: "('x, 'y) Hash \<Rightarrow> 'x js \<Rightarrow> exn + 'y js \<times> ('x, 'y) Hash" where
  "get h key =
     lookUp h key (\<lambda>v. case v of None \<Rightarrow> Inl ThrownFalse | Some element \<Rightarrow> Inr (element, None))"

definition put :: "('x, 'y) Hash \<Rightarrow> 'x js \<Rightarrow> 'y js \<Rightarrow> bool \<Rightarrow> exn + bool \<times> ('x, 'y) Hash" where
  "put h key newValue overwrite =
     lookUp h key (\<lambda>v. if (case v of None \<Rightarrow> True | Some _ \<Rightarrow> False) \<or> overwrite
                        then Inr (True, Some newValue) else Inr (False, None))"

definition Hash_toArray :: "('x, 'y) Hash \<Rightarrow> ('x js \<times> 'y js) list" where
  "Hash_toArray h = map (\<lambda>(name, element). (String name, element)) (primitiveItems h) @ complexItems h"

definition Hash_empty :: "('x, 'y) Hash \<Rightarrow> ('x, 'y) Hash" where
  "Hash_empty h = Hash (hash_comparer h) [] []"

section \<open>\<^verbatim>\<open>join\<close> and \<^verbatim>\<open>groupJoin\<close>\<close>

text \<open>
  Both operators are \<^verbatim>\<open>join(group)\<close>: \<^verbatim>\<open>groupJoin\<close> is \<^verbatim>\<open>join(true)\<close> and \<^verbatim>\<open>join\<close> is
  \<^verbatim>\<open>join(false)\<close> (the parameter is \<open>grouped\<close> here). \<open>P\<close> is the outer sequence (\<^verbatim>\<open>_this\<close>), \<open>Q\<close> the inner sequence
  (\<^verbatim>\<open>second\<close>). The keys are JavaScript values; the elements stored in the container are
  arrays of inner elements, which are objects.

  The second argument of \<^verbatim>\<open>resultSelector\<close> is the variable \<^verbatim>\<open>secondElement\<close>: an inner
  element for \<^verbatim>\<open>join\<close>, and for \<^verbatim>\<open>groupJoin\<close> a sequence, either
  \<^verbatim>\<open>new Enumerable(array)\<close> over a stored array or \<^verbatim>\<open>Enumerable.empty()\<close>, which is given
  by its array (\<open>Group array\<close> stands for \<open>Enumerable_of array\<close>).
\<close>

datatype 'b second = Element 'b | Group "'b list"

datatype ('s, 'a, 'b, 'x) join_vars =
  Join_vars (jn_hash: "('x, 'b list) Hash option")
            (jn_enumerator: 's)
            (jn_hasNext: bool)
            (jn_firstElement: "'a option")
            (jn_secondElement: "'b second option")
            (jn_secondList: "'b list option")
            (jn_index: int)

text \<open>
  One step of the loop in \<^verbatim>\<open>lazyInitialize\<close>:
  \<^verbatim>\<open>if (!hash.put(key, [current])) { var array = hash.get(key); array.push(current); }\<close>.
  The array that \<^verbatim>\<open>get\<close> returns is the object stored in the container, so
  \<^verbatim>\<open>push\<close> changes the stored element: the model stores the longer array under the
  key, through the \<^verbatim>\<open>lookUp\<close> that found it. A stored element that is no array has no
  \<^verbatim>\<open>push\<close> method.
\<close>

definition add_to_bucket ::
  "('x, 'b list) Hash \<Rightarrow> 'x js \<Rightarrow> 'b \<Rightarrow> exn + ('x, 'b list) Hash" where
  "add_to_bucket hash key current_item =
     (case put hash key (Object [current_item]) False of
        Inl e \<Rightarrow> Inl e
      | Inr (written, hash1) \<Rightarrow>
          if \<not> written then
            (case get hash1 key of
               Inl e \<Rightarrow> Inl e
             | Inr (array, hash2) \<Rightarrow>
                 (case array of
                    Object xs \<Rightarrow>
                      (case lookUp hash2 key (\<lambda>v. Inr (True, Some (Object (xs @ [current_item])))) of
                         Inl e \<Rightarrow> Inl e
                       | Inr (_, hash3) \<Rightarrow> Inr hash3)
                  | _ \<Rightarrow> Inl TypeError))
          else Inr hash1)"

partial_function (option) join_fill ::
  "('t, 'b) Enumerable \<Rightarrow> ('b \<Rightarrow> 'x js) \<Rightarrow> 't \<Rightarrow> ('x, 'b list) Hash
     \<Rightarrow> (exn + ('x, 'b list) Hash) option" where
  "join_fill Q innerKeySelector secondEnumerator hash =
     (case moveNext Q secondEnumerator of
        None \<Rightarrow> None
      | Some (Inl e) \<Rightarrow> Some (Inl e)
      | Some (Inr (b, secondEnumerator')) \<Rightarrow>
          if b then
            (case current Q secondEnumerator' of
               Inl e \<Rightarrow> Some (Inl e)
             | Inr current_item \<Rightarrow>
                 (case add_to_bucket hash (innerKeySelector current_item) current_item of
                    Inl e \<Rightarrow> Some (Inl e)
                  | Inr hash' \<Rightarrow> join_fill Q innerKeySelector secondEnumerator' hash'))
          else Some (Inr hash))"

definition join_lazyInitialize ::
  "('t, 'b) Enumerable \<Rightarrow> ('b \<Rightarrow> 'x js) \<Rightarrow> ('x js \<Rightarrow> 'x js \<Rightarrow> bool)
     \<Rightarrow> (exn + ('x, 'b list) Hash) option" where
  "join_lazyInitialize Q innerKeySelector comparer =
     join_fill Q innerKeySelector (getEnumerator Q) (Hash_new (Some comparer))"

text \<open>
  The loop of the branch for \<^verbatim>\<open>join\<close>: it moves the outer cursor to the next element
  whose key exists in the container and returns that element with the array stored
  for it, or nothing when the outer cursor is exhausted.
\<close>

partial_function (option) join_scan ::
  "('s, 'a) Enumerable \<Rightarrow> ('a \<Rightarrow> 'x js) \<Rightarrow> ('x, 'b list) Hash \<Rightarrow> 's
     \<Rightarrow> (exn + ('a \<times> 'b list) option \<times> 's) option" where
  "join_scan P outerKeySelector hash enumerator =
     (case moveNext P enumerator of
        None \<Rightarrow> None
      | Some (Inl e) \<Rightarrow> Some (Inl e)
      | Some (Inr (b, enumerator')) \<Rightarrow>
          if b then
            (case current P enumerator' of
               Inl e \<Rightarrow> Some (Inl e)
             | Inr current_item \<Rightarrow>
                 (case keyExists hash (outerKeySelector current_item) of
                    Inl e \<Rightarrow> Some (Inl e)
                  | Inr (exists, _) \<Rightarrow>
                      if exists then
                        (case get hash (outerKeySelector current_item) of
                           Inl e \<Rightarrow> Some (Inl e)
                         | Inr (Object secondList, _) \<Rightarrow>
                             Some (Inr (Some (current_item, secondList), enumerator'))
                         | Inr (_, _) \<Rightarrow> Some (Inl TypeError))
                      else join_scan P outerKeySelector hash enumerator'))
          else Some (Inr (None, enumerator')))"

text \<open>
  The \<^verbatim>\<open>else\<close> branch of \<^verbatim>\<open>moveNext\<close> for \<^verbatim>\<open>join\<close>, entered with the value that
  \<^verbatim>\<open>index\<close> has by then.
\<close>

definition join_advance ::
  "('s, 'a) Enumerable \<Rightarrow> ('a \<Rightarrow> 'x js) \<Rightarrow> ('x, 'b list) Hash \<Rightarrow> ('s, 'a, 'b, 'x) join_vars
     \<Rightarrow> int \<Rightarrow> (exn + bool \<times> ('s, 'a, 'b, 'x) join_vars) option" where
  "join_advance P outerKeySelector hash v index =
     (case join_scan P outerKeySelector hash (jn_enumerator v) of
        None \<Rightarrow> None
      | Some (Inl e) \<Rightarrow> Some (Inl e)
      | Some (Inr (None, enumerator')) \<Rightarrow>
          Some (Inr (False, Join_vars (Some hash) enumerator' False
             (jn_firstElement v) (jn_secondElement v) (jn_secondList v) index))
      | Some (Inr (Some (current_item, secondList), enumerator')) \<Rightarrow>
          Some (Inr (True, Join_vars (Some hash) enumerator' True (Some current_item)
             (case secondList of [] \<Rightarrow> None | x # _ \<Rightarrow> Some (Element x))
             (Some secondList) 0)))"

definition join_moveNext ::
  "bool \<Rightarrow> ('s, 'a) Enumerable \<Rightarrow> ('t, 'b) Enumerable \<Rightarrow> ('a \<Rightarrow> 'x js) \<Rightarrow> ('b \<Rightarrow> 'x js)
     \<Rightarrow> ('x js \<Rightarrow> 'x js \<Rightarrow> bool) \<Rightarrow> ('s, 'a, 'b, 'x) join_vars
     \<Rightarrow> (exn + bool \<times> ('s, 'a, 'b, 'x) join_vars) option" where
  "join_moveNext grouped P Q outerKeySelector innerKeySelector comparer v =
     (case (case jn_hash v of
              None \<Rightarrow> join_lazyInitialize Q innerKeySelector comparer
            | Some hash \<Rightarrow> Some (Inr hash)) of
        None \<Rightarrow> None
      | Some (Inl e) \<Rightarrow> Some (Inl e)
      | Some (Inr hash) \<Rightarrow>
          if grouped then
            (case moveNext P (jn_enumerator v) of
               None \<Rightarrow> None
             | Some (Inl e) \<Rightarrow> Some (Inl e)
             | Some (Inr (hasNext, enumerator')) \<Rightarrow>
                 if hasNext then
                   (case current P enumerator' of
                      Inl e \<Rightarrow> Some (Inl e)
                    | Inr current_item \<Rightarrow>
                        (case keyExists hash (outerKeySelector current_item) of
                           Inl e \<Rightarrow> Some (Inl e)
                         | Inr (exists, _) \<Rightarrow>
                             if exists then
                               (case get hash (outerKeySelector current_item) of
                                  Inl e \<Rightarrow> Some (Inl e)
                                | Inr (Object array, _) \<Rightarrow>
                                    Some (Inr (True, Join_vars (Some hash) enumerator' True
                                       (Some current_item) (Some (Group array))
                                       (jn_secondList v) (jn_index v)))
                                | Inr (_, _) \<Rightarrow> Some (Inl TypeError))
                             else
                               Some (Inr (True, Join_vars (Some hash) enumerator' True
                                  (Some current_item) (Some (Group []))
                                  (jn_secondList v) (jn_index v)))))
                 else
                   Some (Inr (False, Join_vars (Some hash) enumerator' False
                      (jn_firstElement v) (jn_secondElement v) (jn_secondList v) (jn_index v))))
          else
            (case jn_secondList v of
               None \<Rightarrow> join_advance P outerKeySelector hash v (jn_index v)
             | Some secondList \<Rightarrow>
                 (let index = jn_index v + 1 in
                  if index < int (length secondList) then
                    Some (Inr (True, Join_vars (Some hash) (jn_enumerator v) True
                       (jn_firstElement v) (Some (Element (secondList ! nat index)))
                       (Some secondList) index))
                  else join_advance P outerKeySelector hash v index)))"

text \<open>
  \<^verbatim>\<open>current\<close> calls \<^verbatim>\<open>resultSelector(firstElement, secondElement)\<close>. The two
  variables have a value whenever \<^verbatim>\<open>hasNext\<close> is true; the branch for a missing value
  is never taken.
\<close>

definition join_current ::
  "('a \<Rightarrow> 'b second \<Rightarrow> 'r) \<Rightarrow> ('s, 'a, 'b, 'x) join_vars \<Rightarrow> exn + 'r" where
  "join_current resultSelector v =
     (if \<not> jn_hasNext v then Inl InvalidOperationException
      else
        (case (jn_firstElement v, jn_secondElement v) of
           (Some firstElement, Some secondElement) \<Rightarrow>
             Inr (resultSelector firstElement secondElement)
         | _ \<Rightarrow> Inl TypeError))"

definition join_reset ::
  "('s, 'a) Enumerable \<Rightarrow> ('s, 'a, 'b, 'x) join_vars \<Rightarrow> ('s, 'a, 'b, 'x) join_vars" where
  "join_reset P v =
     Join_vars (jn_hash v) (reset P (jn_enumerator v)) (jn_hasNext v) (jn_firstElement v)
       (jn_secondElement v) (jn_secondList v) (jn_index v)"

definition join_seq ::
  "bool \<Rightarrow> ('s, 'a) Enumerable \<Rightarrow> ('t, 'b) Enumerable \<Rightarrow> ('a \<Rightarrow> 'x js) \<Rightarrow> ('b \<Rightarrow> 'x js)
     \<Rightarrow> ('a \<Rightarrow> 'b second \<Rightarrow> 'r) \<Rightarrow> ('x js \<Rightarrow> 'x js \<Rightarrow> bool)
     \<Rightarrow> (('s, 'a, 'b, 'x) join_vars, 'r) Enumerable" where
  "join_seq grouped P Q outerKeySelector innerKeySelector resultSelector comparer =
     \<lparr> getEnumerator = Join_vars None (getEnumerator P) False None None None (-1),
       moveNext = join_moveNext grouped P Q outerKeySelector innerKeySelector comparer,
       current = join_current resultSelector,
       reset = join_reset P \<rparr>"

text \<open>
  The two methods of \<^verbatim>\<open>Enumerable.prototype\<close>, with the comparer and, for the call with
  four arguments, with \<^verbatim>\<open>EqualityComparer.getDefault()\<close>.
\<close>

definition join ::
  "('s, 'a) Enumerable \<Rightarrow> ('t, 'b) Enumerable \<Rightarrow> ('a \<Rightarrow> 'x js) \<Rightarrow> ('b \<Rightarrow> 'x js)
     \<Rightarrow> ('a \<Rightarrow> 'b second \<Rightarrow> 'r) \<Rightarrow> ('x js \<Rightarrow> 'x js \<Rightarrow> bool) option
     \<Rightarrow> (('s, 'a, 'b, 'x) join_vars, 'r) Enumerable" where
  "join P Q outerKeySelector innerKeySelector resultSelector comparer =
     join_seq False P Q outerKeySelector innerKeySelector resultSelector
       (case comparer of None \<Rightarrow> EqualityComparer_equals | Some equals \<Rightarrow> equals)"

definition groupJoin ::
  "('s, 'a) Enumerable \<Rightarrow> ('t, 'b) Enumerable \<Rightarrow> ('a \<Rightarrow> 'x js) \<Rightarrow> ('b \<Rightarrow> 'x js)
     \<Rightarrow> ('a \<Rightarrow> 'b second \<Rightarrow> 'r) \<Rightarrow> ('x js \<Rightarrow> 'x js \<Rightarrow> bool) option
     \<Rightarrow> (('s, 'a, 'b, 'x) join_vars, 'r) Enumerable" where
  "groupJoin P Q outerKeySelector innerKeySelector resultSelector comparer =
     join_seq True P Q outerKeySelector innerKeySelector resultSelector
       (case comparer of None \<Rightarrow> EqualityComparer_equals | Some equals \<Rightarrow> equals)"

text \<open>
  What the claims say the two operators produce, on the lists the two sequences yield:
  an inner element matches an outer element when the comparer takes their keys for
  equal (the key stored in the container is the first argument of \<^verbatim>\<open>equals\<close>).
\<close>

definition matching ::
  "('x js \<Rightarrow> 'x js \<Rightarrow> bool) \<Rightarrow> ('a \<Rightarrow> 'x js) \<Rightarrow> ('b \<Rightarrow> 'x js) \<Rightarrow> 'b list \<Rightarrow> 'a \<Rightarrow> 'b list" where
  "matching equals outerKeySelector innerKeySelector inner x =
     filter (\<lambda>y. equals (innerKeySelector y) (outerKeySelector x)) inner"

text \<open>
  The comparer is symmetric and transitive on a list of keys.
\<close>

definition equivalence_on :: "('k \<Rightarrow> 'k \<Rightarrow> bool) \<Rightarrow> 'k list \<Rightarrow> bool" where
  "equivalence_on equals keys \<longleftrightarrow>
     list_all (\<lambda>a. list_all (\<lambda>b.
        (equals a b \<longrightarrow> equals b a) \<and>
        list_all (\<lambda>c. equals a b \<and> equals b c \<longrightarrow> equals a c) keys) keys) keys"

text \<open>
  The container that \<^verbatim>\<open>lazyInitialize\<close> builds, described by its list of
  buckets (a key and the array stored for it): \<open>bucket_insert\<close> is one step of
  the loop, \<open>lookup_bucket\<close> the array found for a key (none found: the empty list;
  a stored array is never empty).
\<close>

fun bucket_insert ::
  "('k \<Rightarrow> 'k \<Rightarrow> bool) \<Rightarrow> 'k \<Rightarrow> 'b \<Rightarrow> ('k \<times> 'b list) list \<Rightarrow> ('k \<times> 'b list) list" where
  "bucket_insert equals key y [] = [(key, [y])]"
| "bucket_insert equals key y ((k, ys) # buckets) =
     (if equals k key then (k, ys @ [y]) # buckets
      else (k, ys) # bucket_insert equals key y buckets)"

fun lookup_bucket :: "('k \<Rightarrow> 'k \<Rightarrow> bool) \<Rightarrow> 'k \<Rightarrow> ('k \<times> 'b list) list \<Rightarrow> 'b list" where
  "lookup_bucket equals key [] = []"
| "lookup_bucket equals key ((k, ys) # buckets) =
     (if equals k key then ys else lookup_bucket equals key buckets)"

definition buckets_of ::
  "('k \<Rightarrow> 'k \<Rightarrow> bool) \<Rightarrow> ('b \<Rightarrow> 'k) \<Rightarrow> ('k \<times> 'b list) list \<Rightarrow> 'b list \<Rightarrow> ('k \<times> 'b list) list" where
  "buckets_of equals innerKeySelector buckets inner =
     foldl (\<lambda>bs y. bucket_insert equals (innerKeySelector y) y bs) buckets inner"

definition items_of :: "('x js \<times> 'b list) list \<Rightarrow> ('x js \<times> 'b list js) list" where
  "items_of buckets = map (\<lambda>(k, ys). (k, Object ys)) buckets"

text \<open>
  The cursor of \<^verbatim>\<open>join\<close> is between two stored arrays when \<^verbatim>\<open>secondList\<close> is \<^verbatim>\<open>null\<close> or
  \<^verbatim>\<open>index\<close> is at its last element or beyond.
\<close>

definition idle :: "('s, 'a, 'b, 'x) join_vars \<Rightarrow> bool" where
  "idle v \<longleftrightarrow> (case jn_secondList v of None \<Rightarrow> True | Some l \<Rightarrow> int (length l) \<le> jn_index v + 1)"


section \<open>More operators\<close>

subsection \<open>\<^verbatim>\<open>where\<close>\<close>

text \<open>
  The cursor's variables are \<^verbatim>\<open>itemEnumerator\<close>, \<^verbatim>\<open>current\<close> (without a value at
  first) and \<^verbatim>\<open>hasCurrent\<close>. The loop assigns every element it visits to
  \<^verbatim>\<open>current\<close>. \<^verbatim>\<open>current()\<close> returns the variable when \<^verbatim>\<open>hasCurrent\<close> is true, and
  then it has a value; the branch for a missing value is never taken.
\<close>

datatype ('s, 'a) where_vars =
  Where_vars (wh_itemEnumerator: 's) (wh_current: "'a option") (wh_hasCurrent: bool)

partial_function (option) where_loop ::
  "('s, 'a) Enumerable \<Rightarrow> ('a \<Rightarrow> bool) \<Rightarrow> 's \<Rightarrow> 'a option
     \<Rightarrow> (exn + bool \<times> ('s, 'a) where_vars) option" where
  "where_loop P predicate itemEnumerator current_item =
     (case moveNext P itemEnumerator of
        None \<Rightarrow> None
      | Some (Inl e) \<Rightarrow> Some (Inl e)
      | Some (Inr (b, itemEnumerator')) \<Rightarrow>
          if b then
            (case current P itemEnumerator' of
               Inl e \<Rightarrow> Some (Inl e)
             | Inr x \<Rightarrow>
                 if predicate x then Some (Inr (True, Where_vars itemEnumerator' (Some x) True))
                 else where_loop P predicate itemEnumerator' (Some x))
          else Some (Inr (False, Where_vars itemEnumerator' current_item False)))"

definition where_moveNext ::
  "('s, 'a) Enumerable \<Rightarrow> ('a \<Rightarrow> bool) \<Rightarrow> ('s, 'a) where_vars
     \<Rightarrow> (exn + bool \<times> ('s, 'a) where_vars) option" where
  "where_moveNext P predicate v = where_loop P predicate (wh_itemEnumerator v) (wh_current v)"

definition where_current :: "('s, 'a) where_vars \<Rightarrow> exn + 'a" where
  "where_current v =
     (if \<not> wh_hasCurrent v then Inl InvalidOperationException
      else (case wh_current v of Some x \<Rightarrow> Inr x | None \<Rightarrow> Inl TypeError))"

definition where_reset :: "('s, 'a) Enumerable \<Rightarrow> ('s, 'a) where_vars \<Rightarrow> ('s, 'a) where_vars" where
  "where_reset P v = Where_vars (reset P (wh_itemEnumerator v)) (wh_current v) False"

definition where_seq ::
  "('a \<Rightarrow> bool) \<Rightarrow> ('s, 'a) Enumerable \<Rightarrow> (('s, 'a) where_vars, 'a) Enumerable" where
  "where_seq predicate P =
     \<lparr> getEnumerator = Where_vars (getEnumerator P) None False,
       moveNext = where_moveNext P predicate,
       current = where_current,
       reset = where_reset P \<rparr>"

subsection \<open>\<^verbatim>\<open>skipWhile\<close>\<close>

datatype 's skipWhile_vars =
  SkipWhile_vars (sk_enumerator: 's) (isInitialized: bool) (sk_index: int)

text \<open>
  The loop \<^verbatim>\<open>while ((canMoveNext = enumerator.moveNext()) && predicate(enumerator.current(), index++)) { }\<close>.
\<close>

partial_function (option) skipWhile_loop ::
  "('s, 'a) Enumerable \<Rightarrow> ('a \<Rightarrow> int \<Rightarrow> bool) \<Rightarrow> 's \<Rightarrow> int
     \<Rightarrow> (exn + bool \<times> 's \<times> int) option" where
  "skipWhile_loop P predicate enumerator index =
     (case moveNext P enumerator of
        None \<Rightarrow> None
      | Some (Inl e) \<Rightarrow> Some (Inl e)
      | Some (Inr (canMoveNext, enumerator')) \<Rightarrow>
          if canMoveNext then
            (case current P enumerator' of
               Inl e \<Rightarrow> Some (Inl e)
             | Inr x \<Rightarrow>
                 if predicate x index then skipWhile_loop P predicate enumerator' (index + 1)
                 else Some (Inr (True, enumerator', index + 1)))
          else Some (Inr (False, enumerator', index)))"

definition skipWhile_moveNext ::
  "('s, 'a) Enumerable \<Rightarrow> ('a \<Rightarrow> int \<Rightarrow> bool) \<Rightarrow> 's skipWhile_vars
     \<Rightarrow> (exn + bool \<times> 's skipWhile_vars) option" where
  "skipWhile_moveNext P predicate v =
     (if \<not> isInitialized v then
        (case skipWhile_loop P predicate (sk_enumerator v) (sk_index v) of
           None \<Rightarrow> None
         | Some (Inl e) \<Rightarrow> Some (Inl e)
         | Some (Inr (canMoveNext, enumerator', index)) \<Rightarrow>
             Some (Inr (canMoveNext, SkipWhile_vars enumerator' True index)))
      else
        (case moveNext P (sk_enumerator v) of
           None \<Rightarrow> None
         | Some (Inl e) \<Rightarrow> Some (Inl e)
         | Some (Inr (b, enumerator')) \<Rightarrow>
             Some (Inr (b, SkipWhile_vars enumerator' True (sk_index v)))))"

definition skipWhile_current :: "('s, 'a) Enumerable \<Rightarrow> 's skipWhile_vars \<Rightarrow> exn + 'a" where
  "skipWhile_current P v = current P (sk_enumerator v)"

definition skipWhile_reset :: "('s, 'a) Enumerable \<Rightarrow> 's skipWhile_vars \<Rightarrow> 's skipWhile_vars" where
  "skipWhile_reset P v = SkipWhile_vars (reset P (sk_enumerator v)) False 0"

definition skipWhile_seq ::
  "('a \<Rightarrow> int \<Rightarrow> bool) \<Rightarrow> ('s, 'a) Enumerable \<Rightarrow> ('s skipWhile_vars, 'a) Enumerable" where
  "skipWhile_seq predicate P =
     \<lparr> getEnumerator = SkipWhile_vars (getEnumerator P) False 0,
       moveNext = skipWhile_moveNext P predicate,
       current = skipWhile_current P,
       reset = skipWhile_reset P \<rparr>"

subsection \<open>\<^verbatim>\<open>distinct\<close>\<close>

text \<open>
  The elements are the keys of the container, so they are JavaScript values; the
  stored element is \<^verbatim>\<open>true\<close>. The container is built with the cursor:
  \<^verbatim>\<open>new Hash(comparer)\<close> when \<^verbatim>\<open>distinct\<close> was called with an argument, \<^verbatim>\<open>new Hash()\<close>
  otherwise. \<^verbatim>\<open>reset\<close> empties it.
\<close>

datatype ('s, 'x) distinct_vars =
  Distinct_vars (ds_enumerator: 's) (ds_hash: "('x, unit) Hash")

partial_function (option) distinct_loop ::
  "('s, 'x js) Enumerable \<Rightarrow> 's \<Rightarrow> ('x, unit) Hash
     \<Rightarrow> (exn + bool \<times> ('s, 'x) distinct_vars) option" where
  "distinct_loop P enumerator hash =
     (case moveNext P enumerator of
        None \<Rightarrow> None
      | Some (Inl e) \<Rightarrow> Some (Inl e)
      | Some (Inr (b, enumerator')) \<Rightarrow>
          if b then
            (case current P enumerator' of
               Inl e \<Rightarrow> Some (Inl e)
             | Inr x \<Rightarrow>
                 (case put hash x (Boolean True) False of
                    Inl e \<Rightarrow> Some (Inl e)
                  | Inr (written, hash') \<Rightarrow>
                      if written then Some (Inr (True, Distinct_vars enumerator' hash'))
                      else distinct_loop P enumerator' hash'))
          else Some (Inr (False, Distinct_vars enumerator' hash)))"

definition distinct_moveNext ::
  "('s, 'x js) Enumerable \<Rightarrow> ('s, 'x) distinct_vars
     \<Rightarrow> (exn + bool \<times> ('s, 'x) distinct_vars) option" where
  "distinct_moveNext P v = distinct_loop P (ds_enumerator v) (ds_hash v)"

definition distinct_current :: "('s, 'x js) Enumerable \<Rightarrow> ('s, 'x) distinct_vars \<Rightarrow> exn + 'x js" where
  "distinct_current P v = current P (ds_enumerator v)"

definition distinct_reset ::
  "('s, 'x js) Enumerable \<Rightarrow> ('s, 'x) distinct_vars \<Rightarrow> ('s, 'x) distinct_vars" where
  "distinct_reset P v = Distinct_vars (reset P (ds_enumerator v)) (Hash_empty (ds_hash v))"

definition distinct_seq ::
  "('x js \<Rightarrow> 'x js \<Rightarrow> bool) option \<Rightarrow> ('s, 'x js) Enumerable
     \<Rightarrow> (('s, 'x) distinct_vars, 'x js) Enumerable" where
  "distinct_seq comparer P =
     \<lparr> getEnumerator = Distinct_vars (getEnumerator P) (Hash_new comparer),
       moveNext = distinct_moveNext P,
       current = distinct_current P,
       reset = distinct_reset P \<rparr>"

subsection \<open>\<^verbatim>\<open>reverse\<close>\<close>

text \<open>
  As for \<^verbatim>\<open>orderBy\<close>, the cursor's variable \<^verbatim>\<open>enumerator\<close> is \<^verbatim>\<open>null\<close> until the first
  \<^verbatim>\<open>moveNext\<close> and then a cursor of the source adapter, over the reversed array.
\<close>

definition reverse_moveNext ::
  "('s, 'a) Enumerable \<Rightarrow> 'a buffered \<Rightarrow> (exn + bool \<times> 'a buffered) option" where
  "reverse_moveNext P enumerator =
     (case enumerator of
        None \<Rightarrow>
          (case toArray P of
             None \<Rightarrow> None
           | Some (Inl e) \<Rightarrow> Some (Inl e)
           | Some (Inr array) \<Rightarrow> buffered_moveNext (rev array) (-1))
      | Some (array, i) \<Rightarrow> buffered_moveNext array i)"

definition reverse :: "('s, 'a) Enumerable \<Rightarrow> ('a buffered, 'a) Enumerable" where
  "reverse P =
     \<lparr> getEnumerator = None,
       moveNext = reverse_moveNext P,
       current = buffered_current,
       reset = buffered_reset \<rparr>"

subsection \<open>\<^verbatim>\<open>groupBy\<close>\<close>

text \<open>
  The call with four arguments,
  \<^verbatim>\<open>groupBy(keySelector, elementSelector, resultSelector, comparer)\<close>; the calls with
  fewer arguments choose among them by inspecting the callbacks and fill in the
  identity and the default comparer. The cursor's variables are \<^verbatim>\<open>resultSet\<close>
  (\<^verbatim>\<open>null\<close> at first) and \<^verbatim>\<open>index\<close>. \<^verbatim>\<open>lazyInitialize\<close> runs a fresh cursor of the
  source; one step of its loop is
  \<^verbatim>\<open>if (hash.keyExists(key)) { hash.get(key).push(e) } else { hash.put(key, [e]) }\<close>.
\<close>

definition groupBy_step ::
  "('x, 'e list) Hash \<Rightarrow> 'x js \<Rightarrow> 'e \<Rightarrow> exn + ('x, 'e list) Hash" where
  "groupBy_step hash key element =
     (case keyExists hash key of
        Inl e \<Rightarrow> Inl e
      | Inr (exists, hash1) \<Rightarrow>
          if exists then
            (case get hash1 key of
               Inl e \<Rightarrow> Inl e
             | Inr (array, hash2) \<Rightarrow>
                 (case array of
                    Object xs \<Rightarrow>
                      (case lookUp hash2 key (\<lambda>v. Inr (True, Some (Object (xs @ [element])))) of
                         Inl e \<Rightarrow> Inl e
                       | Inr (_, hash3) \<Rightarrow> Inr hash3)
                  | _ \<Rightarrow> Inl TypeError))
          else
            (case put hash1 key (Object [element]) False of
               Inl e \<Rightarrow> Inl e
             | Inr (_, hash2) \<Rightarrow> Inr hash2))"

partial_function (option) groupBy_fill ::
  "('s, 'a) Enumerable \<Rightarrow> ('a \<Rightarrow> 'x js) \<Rightarrow> ('a \<Rightarrow> 'e) \<Rightarrow> 's \<Rightarrow> ('x, 'e list) Hash
     \<Rightarrow> (exn + ('x, 'e list) Hash) option" where
  "groupBy_fill P keySelector elementSelector itemEnumerator hash =
     (case moveNext P itemEnumerator of
        None \<Rightarrow> None
      | Some (Inl e) \<Rightarrow> Some (Inl e)
      | Some (Inr (b, itemEnumerator')) \<Rightarrow>
          if b then
            (case current P itemEnumerator' of
               Inl e \<Rightarrow> Some (Inl e)
             | Inr current_item \<Rightarrow>
                 (case groupBy_step hash (keySelector current_item)
                         (elementSelector current_item) of
                    Inl e \<Rightarrow> Some (Inl e)
                  | Inr hash' \<Rightarrow>
                      groupBy_fill P keySelector elementSelector itemEnumerator' hash'))
          else Some (Inr hash))"

definition groupBy_lazyInitialize ::
  "('s, 'a) Enumerable \<Rightarrow> ('a \<Rightarrow> 'x js) \<Rightarrow> ('a \<Rightarrow> 'e) \<Rightarrow> ('x js \<Rightarrow> 'x js \<Rightarrow> bool)
     \<Rightarrow> (exn + ('x js \<times> 'e list js) list) option" where
  "groupBy_lazyInitialize P keySelector elementSelector comparer =
     (case groupBy_fill P keySelector elementSelector (getEnumerator P)
             (Hash_new (Some comparer)) of
        None \<Rightarrow> None
      | Some (Inl e) \<Rightarrow> Some (Inl e)
      | Some (Inr hash) \<Rightarrow> Some (Inr (Hash_toArray hash)))"

datatype ('x, 'e) groupBy_vars =
  GroupBy_vars (resultSet: "('x js \<times> 'e list js) list option") (gb_index: int)

definition groupBy_moveNext ::
  "('s, 'a) Enumerable \<Rightarrow> ('a \<Rightarrow> 'x js) \<Rightarrow> ('a \<Rightarrow> 'e) \<Rightarrow> ('x js \<Rightarrow> 'x js \<Rightarrow> bool)
     \<Rightarrow> ('x, 'e) groupBy_vars \<Rightarrow> (exn + bool \<times> ('x, 'e) groupBy_vars) option" where
  "groupBy_moveNext P keySelector elementSelector comparer v =
     (case (case resultSet v of
              None \<Rightarrow> groupBy_lazyInitialize P keySelector elementSelector comparer
            | Some rs \<Rightarrow> Some (Inr rs)) of
        None \<Rightarrow> None
      | Some (Inl e) \<Rightarrow> Some (Inl e)
      | Some (Inr rs) \<Rightarrow>
          (let index = gb_index v + 1 in
           Some (Inr (index < int (length rs), GroupBy_vars (Some rs) index))))"

text \<open>
  \<^verbatim>\<open>current\<close> tests \<^verbatim>\<open>index < 0\<close> before it reads \<^verbatim>\<open>resultSet.length\<close>; with
  \<^verbatim>\<open>resultSet\<close> still \<^verbatim>\<open>null\<close> the \<^verbatim>\<open>index\<close> is \<open>-1\<close>. An entry's element is an
  array, and \<^verbatim>\<open>new Enumerable\<close> over it is \<open>Group\<close> of the array.
\<close>

definition groupBy_current ::
  "('x js \<Rightarrow> 'e second \<Rightarrow> 'r) \<Rightarrow> ('x, 'e) groupBy_vars \<Rightarrow> exn + 'r" where
  "groupBy_current resultSelector v =
     (if gb_index v < 0 then Inl InvalidOperationException
      else
        (case resultSet v of
           None \<Rightarrow> Inl TypeError
         | Some rs \<Rightarrow>
             if gb_index v \<ge> int (length rs) then Inl InvalidOperationException
             else
               (case rs ! nat (gb_index v) of
                  (key, Object elements) \<Rightarrow> Inr (resultSelector key (Group elements))
                | _ \<Rightarrow> Inl TypeError)))"

definition groupBy_reset :: "('x, 'e) groupBy_vars \<Rightarrow> ('x, 'e) groupBy_vars" where
  "groupBy_reset v = GroupBy_vars (resultSet v) (-1)"

definition groupBy ::
  "('s, 'a) Enumerable \<Rightarrow> ('a \<Rightarrow> 'x js) \<Rightarrow> ('a \<Rightarrow> 'e) \<Rightarrow> ('x js \<Rightarrow> 'e second \<Rightarrow> 'r)
     \<Rightarrow> ('x js \<Rightarrow> 'x js \<Rightarrow> bool) \<Rightarrow> (('x, 'e) groupBy_vars, 'r) Enumerable" where
  "groupBy P keySelector elementSelector resultSelector comparer =
     \<lparr> getEnumerator = GroupBy_vars None (-1),
       moveNext = groupBy_moveNext P keySelector elementSelector comparer,
       current = groupBy_current resultSelector,
       reset = groupBy_reset \<rparr>"

subsection \<open>\<^verbatim>\<open>concat\<close>\<close>

text \<open>
  The cursor holds a cursor of each sequence (\<^verbatim>\<open>firstEnumerator\<close>,
  \<^verbatim>\<open>secondEnumerator\<close>), the variable \<^verbatim>\<open>enumerator\<close>, which is one of the two
  (\<open>onSecond\<close> says which), and \<^verbatim>\<open>canSwap\<close>, which no method ever sets to \<^verbatim>\<open>false\<close>.
  \<^verbatim>\<open>moveNext\<close> moves \<^verbatim>\<open>enumerator\<close>; when that returns \<^verbatim>\<open>false\<close> it assigns
  \<^verbatim>\<open>secondEnumerator\<close> to \<^verbatim>\<open>enumerator\<close> and returns what a \<^verbatim>\<open>moveNext\<close> of it
  returns, so an exhausted second cursor is moved twice in one call.
\<close>

datatype ('s, 't) concat_vars =
  Concat_vars (firstEnumerator: 's) (secondEnumerator: 't) (onSecond: bool) (canSwap: bool)

definition concat_swap ::
  "('t, 'a) Enumerable \<Rightarrow> 's \<Rightarrow> 't \<Rightarrow> bool \<Rightarrow> bool
     \<Rightarrow> (exn + bool \<times> ('s, 't) concat_vars) option" where
  "concat_swap Q first_cursor second_cursor was_second swap =
     (if swap then
        (case moveNext Q second_cursor of
           None \<Rightarrow> None
         | Some (Inl e) \<Rightarrow> Some (Inl e)
         | Some (Inr (b, second')) \<Rightarrow>
             Some (Inr (b, Concat_vars first_cursor second' True swap)))
      else Some (Inr (False, Concat_vars first_cursor second_cursor was_second swap)))"

definition concat_moveNext ::
  "('s, 'a) Enumerable \<Rightarrow> ('t, 'a) Enumerable \<Rightarrow> ('s, 't) concat_vars
     \<Rightarrow> (exn + bool \<times> ('s, 't) concat_vars) option" where
  "concat_moveNext P Q v =
     (if onSecond v then
        (case moveNext Q (secondEnumerator v) of
           None \<Rightarrow> None
         | Some (Inl e) \<Rightarrow> Some (Inl e)
         | Some (Inr (b, second')) \<Rightarrow>
             if b then Some (Inr (True, Concat_vars (firstEnumerator v) second' True (canSwap v)))
             else concat_swap Q (firstEnumerator v) second' True (canSwap v))
      else
        (case moveNext P (firstEnumerator v) of
           None \<Rightarrow> None
         | Some (Inl e) \<Rightarrow> Some (Inl e)
         | Some (Inr (b, first')) \<Rightarrow>
             if b then Some (Inr (True, Concat_vars first' (secondEnumerator v) False (canSwap v)))
             else concat_swap Q first' (secondEnumerator v) False (canSwap v)))"

definition concat_current ::
  "('s, 'a) Enumerable \<Rightarrow> ('t, 'a) Enumerable \<Rightarrow> ('s, 't) concat_vars \<Rightarrow> exn + 'a" where
  "concat_current P Q v =
     (if onSecond v then current Q (secondEnumerator v) else current P (firstEnumerator v))"

definition concat_reset ::
  "('s, 'a) Enumerable \<Rightarrow> ('t, 'a) Enumerable \<Rightarrow> ('s, 't) concat_vars \<Rightarrow> ('s, 't) concat_vars" where
  "concat_reset P Q v =
     Concat_vars (reset P (firstEnumerator v)) (reset Q (secondEnumerator v)) False True"

definition concat_seq ::
  "('s, 'a) Enumerable \<Rightarrow> ('t, 'a) Enumerable \<Rightarrow> (('s, 't) concat_vars, 'a) Enumerable" where
  "concat_seq P Q =
     \<lparr> getEnumerator = Concat_vars (getEnumerator P) (getEnumerator Q) False True,
       moveNext = concat_moveNext P Q,
       current = concat_current P Q,
       reset = concat_reset P Q \<rparr>"

subsection \<open>\<^verbatim>\<open>selectMany\<close>\<close>

text \<open>
  The cursor's variables are \<^verbatim>\<open>itemEnumerator\<close>, \<^verbatim>\<open>item\<close>, \<^verbatim>\<open>subItemEnumerator\<close> (both
  \<^verbatim>\<open>null\<close> at first), \<^verbatim>\<open>hasCurrent\<close> and \<^verbatim>\<open>index\<close>. \<^verbatim>\<open>subItemEnumerator\<close> is a cursor of
  the sequence that \<^verbatim>\<open>collectionSelector\<close> returned: the sequence and the state of the
  cursor. One turn of the loop \<^verbatim>\<open>while (true)\<close> has three parts:
  \<^item> the test \<^verbatim>\<open>subItemEnumerator == null || !subItemEnumerator.moveNext()\<close>;
  \<^item> when it holds, the block that moves \<^verbatim>\<open>itemEnumerator\<close> (\<^verbatim>\<open>break\<close> when that returns
    \<^verbatim>\<open>false\<close>), assigns \<^verbatim>\<open>item\<close>, \<^verbatim>\<open>subItemEnumerator\<close> and \<^verbatim>\<open>index\<close> and clears
    \<^verbatim>\<open>noMoveNext\<close>;
  \<^item> the test \<^verbatim>\<open>noMoveNext || subItemEnumerator.moveNext()\<close>, which ends the loop with
    \<^verbatim>\<open>hasCurrent = true\<close> or starts the next turn.
\<close>

datatype ('s, 'a, 't, 'b) selectMany_vars =
  SelectMany_vars (sm_itemEnumerator: 's) (sm_item: "'a option")
                  (subItemEnumerator: "(('t, 'b) Enumerable \<times> 't) option")
                  (sm_hasCurrent: bool) (sm_index: int)

partial_function (option) selectMany_loop ::
  "('s, 'a) Enumerable \<Rightarrow> ('a \<Rightarrow> int \<Rightarrow> ('t, 'b) Enumerable) \<Rightarrow> 's \<Rightarrow> 'a option
     \<Rightarrow> (('t, 'b) Enumerable \<times> 't) option \<Rightarrow> int \<Rightarrow> bool
     \<Rightarrow> (exn + bool \<times> ('s, 'a, 't, 'b) selectMany_vars) option" where
  "selectMany_loop P collectionSelector itemEnumerator item sub index noMoveNext =
     (case (case sub of
              None \<Rightarrow> Some (Inr (False, None))
            | Some (S, t) \<Rightarrow>
                (case moveNext S t of
                   None \<Rightarrow> None
                 | Some (Inl e) \<Rightarrow> Some (Inl e)
                 | Some (Inr (b, t')) \<Rightarrow> Some (Inr (b, Some (S, t'))))) of
        None \<Rightarrow> None
      | Some (Inl e) \<Rightarrow> Some (Inl e)
      | Some (Inr (moved, sub1)) \<Rightarrow>
          (case (if moved
                 then Some (Inr (True, itemEnumerator, item, sub1, index, noMoveNext))
                 else
                   (case moveNext P itemEnumerator of
                      None \<Rightarrow> None
                    | Some (Inl e) \<Rightarrow> Some (Inl e)
                    | Some (Inr (b, itemEnumerator')) \<Rightarrow>
                        if b then
                          (case current P itemEnumerator' of
                             Inl e \<Rightarrow> Some (Inl e)
                           | Inr x \<Rightarrow>
                               Some (Inr (True, itemEnumerator', Some x,
                                  Some (collectionSelector x index,
                                        getEnumerator (collectionSelector x index)),
                                  index + 1, False)))
                        else Some (Inr (False, itemEnumerator', item, sub1, index, noMoveNext)))) of
             None \<Rightarrow> None
           | Some (Inl e) \<Rightarrow> Some (Inl e)
           | Some (Inr (continue, itemEnumerator2, item2, sub2, index2, noMoveNext2)) \<Rightarrow>
               if \<not> continue
               then Some (Inr (False, SelectMany_vars itemEnumerator2 item2 sub2 False index2))
               else if noMoveNext2
               then Some (Inr (True, SelectMany_vars itemEnumerator2 item2 sub2 True index2))
               else
                 (case sub2 of
                    None \<Rightarrow> Some (Inl TypeError)
                  | Some (S, t) \<Rightarrow>
                      (case moveNext S t of
                         None \<Rightarrow> None
                       | Some (Inl e) \<Rightarrow> Some (Inl e)
                       | Some (Inr (b, t')) \<Rightarrow>
                           if b
                           then Some (Inr (True,
                                  SelectMany_vars itemEnumerator2 item2 (Some (S, t')) True index2))
                           else selectMany_loop P collectionSelector itemEnumerator2 item2
                                  (Some (S, t')) index2 noMoveNext2))))"

definition selectMany_moveNext ::
  "('s, 'a) Enumerable \<Rightarrow> ('a \<Rightarrow> int \<Rightarrow> ('t, 'b) Enumerable) \<Rightarrow> ('s, 'a, 't, 'b) selectMany_vars
     \<Rightarrow> (exn + bool \<times> ('s, 'a, 't, 'b) selectMany_vars) option" where
  "selectMany_moveNext P collectionSelector v =
     selectMany_loop P collectionSelector (sm_itemEnumerator v) (sm_item v)
       (subItemEnumerator v) (sm_index v) True"

text \<open>
  \<^verbatim>\<open>current\<close> of \<^verbatim>\<open>selectMany(collectionSelector, resultSelector)\<close>, and of
  \<^verbatim>\<open>selectMany(collectionSelector)\<close>, which returns the element of the inner cursor.
\<close>

definition selectMany_current ::
  "('a \<Rightarrow> 'b \<Rightarrow> 'r) \<Rightarrow> ('s, 'a, 't, 'b) selectMany_vars \<Rightarrow> exn + 'r" where
  "selectMany_current resultSelector v =
     (if \<not> sm_hasCurrent v then Inl InvalidOperationException
      else
        (case subItemEnumerator v of
           None \<Rightarrow> Inl TypeError
         | Some (S, t) \<Rightarrow>
             (case current S t of
                Inl e \<Rightarrow> Inl e
              | Inr y \<Rightarrow>
                  (case sm_item v of
                     None \<Rightarrow> Inl TypeError
                   | Some x \<Rightarrow> Inr (resultSelector x y)))))"

definition selectMany_current_plain :: "('s, 'a, 't, 'b) selectMany_vars \<Rightarrow> exn + 'b" where
  "selectMany_current_plain v =
     (if \<not> sm_hasCurrent v then Inl InvalidOperationException
      else
        (case subItemEnumerator v of
           None \<Rightarrow> Inl TypeError
         | Some (S, t) \<Rightarrow> current S t))"

definition selectMany_reset ::
  "('s, 'a) Enumerable \<Rightarrow> ('s, 'a, 't, 'b) selectMany_vars \<Rightarrow> ('s, 'a, 't, 'b) selectMany_vars" where
  "selectMany_reset P v = SelectMany_vars (reset P (sm_itemEnumerator v)) None None False 0"

definition selectMany ::
  "('s, 'a) Enumerable \<Rightarrow> ('a \<Rightarrow> int \<Rightarrow> ('t, 'b) Enumerable) \<Rightarrow> ('a \<Rightarrow> 'b \<Rightarrow> 'r)
     \<Rightarrow> (('s, 'a, 't, 'b) selectMany_vars, 'r) Enumerable" where
  "selectMany P collectionSelector resultSelector =
     \<lparr> getEnumerator = SelectMany_vars (getEnumerator P) None None False 0,
       moveNext = selectMany_moveNext P collectionSelector,
       current = selectMany_current resultSelector,
       reset = selectMany_reset P \<rparr>"

definition selectMany_plain ::
  "('s, 'a) Enumerable \<Rightarrow> ('a \<Rightarrow> int \<Rightarrow> ('t, 'b) Enumerable)
     \<Rightarrow> (('s, 'a, 't, 'b) selectMany_vars, 'b) Enumerable" where
  "selectMany_plain P collectionSelector =
     \<lparr> getEnumerator = SelectMany_vars (getEnumerator P) None None False 0,
       moveNext = selectMany_moveNext P collectionSelector,
       current = selectMany_current_plain,
       reset = selectMany_reset P \<rparr>"

section \<open>Rewinding a cursor\<close>

text \<open>
  The states a cursor can be in: the fresh state, and every state that a
  \<^verbatim>\<open>moveNext\<close> which returned, or a \<^verbatim>\<open>reset\<close>, leads to from such a state
  (\<^verbatim>\<open>current\<close> changes no variable): the states \<open>after\<close> a run of calls.
\<close>

inductive reachable :: "('s, 'a) Enumerable \<Rightarrow> 's \<Rightarrow> bool" for E where
  reachable_fresh: "reachable E (getEnumerator E)"
| reachable_moveNext: "reachable E s \<Longrightarrow> moveNext E s = Some (Inr (b, s')) \<Longrightarrow> reachable E s'"
| reachable_reset: "reachable E s \<Longrightarrow> reachable E (reset E s)"

text \<open>
  A sequence replays the list \<open>xs\<close>: a fresh cursor yields \<open>xs\<close>, and so does a cursor
  in any state it can be in, once \<^verbatim>\<open>reset\<close> is called.
\<close>

definition replays :: "('s, 'a) Enumerable \<Rightarrow> 'a list \<Rightarrow> bool" where
  "replays E xs \<longleftrightarrow>
     (\<exists>s'. yields E (getEnumerator E) xs s') \<and>
     (\<forall>s. reachable E s \<longrightarrow> (\<exists>s'. yields E (reset E s) xs s'))"

text \<open>
  What the operators yield, on the list the parent yields. The callbacks of
  \<^verbatim>\<open>select\<close>, \<^verbatim>\<open>takeWhile\<close> and \<^verbatim>\<open>skipWhile\<close> receive the position of the element,
  counted from 0; \<open>returning f\<close> is a selector that returns \<open>f x i\<close> and never throws.
\<close>

fun map_index :: "('a \<Rightarrow> int \<Rightarrow> 'b) \<Rightarrow> int \<Rightarrow> 'a list \<Rightarrow> 'b list" where
  "map_index f i [] = []"
| "map_index f i (x # xs) = f x i # map_index f (i + 1) xs"

definition returning :: "('a \<Rightarrow> int \<Rightarrow> 'b) \<Rightarrow> 'a \<Rightarrow> int \<Rightarrow> exn + 'b" where
  "returning f x i = Inr (f x i)"

fun takeWhile_index :: "('a \<Rightarrow> int \<Rightarrow> bool) \<Rightarrow> int \<Rightarrow> 'a list \<Rightarrow> 'a list" where
  "takeWhile_index p i [] = []"
| "takeWhile_index p i (x # xs) = (if p x i then x # takeWhile_index p (i + 1) xs else [])"

fun dropWhile_index :: "('a \<Rightarrow> int \<Rightarrow> bool) \<Rightarrow> int \<Rightarrow> 'a list \<Rightarrow> 'a list" where
  "dropWhile_index p i [] = []"
| "dropWhile_index p i (x # xs) = (if p x i then dropWhile_index p (i + 1) xs else x # xs)"

text \<open>
  \<^verbatim>\<open>distinct\<close> keeps the elements for which \<^verbatim>\<open>put\<close> reports that it has written.
\<close>

fun distinct_list :: "('x, unit) Hash \<Rightarrow> 'x js list \<Rightarrow> 'x js list" where
  "distinct_list hash [] = []"
| "distinct_list hash (x # xs) =
     (case put hash x (Boolean True) False of
        Inl e \<Rightarrow> []
      | Inr (written, hash') \<Rightarrow>
          if written then x # distinct_list hash' xs else distinct_list hash' xs)"

text \<open>
  The entries of the container that \<^verbatim>\<open>groupBy\<close> builds.
\<close>

definition group_buckets ::
  "('k \<Rightarrow> 'k \<Rightarrow> bool) \<Rightarrow> ('a \<Rightarrow> 'k) \<Rightarrow> ('a \<Rightarrow> 'e) \<Rightarrow> ('k \<times> 'e list) list \<Rightarrow> 'a list
     \<Rightarrow> ('k \<times> 'e list) list" where
  "group_buckets equals keySelector elementSelector buckets xs =
     foldl (\<lambda>bs x. bucket_insert equals (keySelector x) (elementSelector x) bs) buckets xs"

text \<open>
  The comparer that \<^verbatim>\<open>join\<close> and \<^verbatim>\<open>groupJoin\<close> hand to the container, and what the two
  operators and \<^verbatim>\<open>groupBy\<close> yield, on the buckets of the container.
\<close>

definition equals_of :: "('x js \<Rightarrow> 'x js \<Rightarrow> bool) option \<Rightarrow> 'x js \<Rightarrow> 'x js \<Rightarrow> bool" where
  "equals_of comparer = (case comparer of None \<Rightarrow> EqualityComparer_equals | Some equals \<Rightarrow> equals)"

definition joined_pairs ::
  "('a \<Rightarrow> 'b second \<Rightarrow> 'r) \<Rightarrow> ('k \<Rightarrow> 'k \<Rightarrow> bool) \<Rightarrow> ('a \<Rightarrow> 'k) \<Rightarrow> ('k \<times> 'b list) list
     \<Rightarrow> 'a list \<Rightarrow> 'r list" where
  "joined_pairs resultSelector equals outerKeySelector buckets xs =
     concat (map (\<lambda>x. map (\<lambda>y. resultSelector x (Element y))
                          (lookup_bucket equals (outerKeySelector x) buckets)) xs)"

definition joined_groups ::
  "('a \<Rightarrow> 'b second \<Rightarrow> 'r) \<Rightarrow> ('k \<Rightarrow> 'k \<Rightarrow> bool) \<Rightarrow> ('a \<Rightarrow> 'k) \<Rightarrow> ('k \<times> 'b list) list
     \<Rightarrow> 'a list \<Rightarrow> 'r list" where
  "joined_groups resultSelector equals outerKeySelector buckets xs =
     map (\<lambda>x. resultSelector x (Group (lookup_bucket equals (outerKeySelector x) buckets))) xs"

definition grouped_results :: "('k \<Rightarrow> 'e second \<Rightarrow> 'r) \<Rightarrow> ('k \<times> 'e list) list \<Rightarrow> 'r list" where
  "grouped_results resultSelector buckets =
     map (\<lambda>(key, elements). resultSelector key (Group elements)) buckets"

text \<open>
  A sequence keeps what it has stored: a cursor of \<open>E\<close> in a state that satisfies
  \<open>started\<close>, once \<^verbatim>\<open>reset\<close> is called, yields \<open>xs\<close> also when it is run by the methods
  of \<open>E'\<close>. With \<open>E'\<close> the same operator over other sequences, the traversal after
  \<^verbatim>\<open>reset\<close> reads what the cursor has stored and not the sequences it was computed
  from.
\<close>

definition rewound ::
  "('s, 'a) Enumerable \<Rightarrow> ('s \<Rightarrow> bool) \<Rightarrow> ('s, 'a) Enumerable \<Rightarrow> 'a list \<Rightarrow> bool" where
  "rewound E started E' xs \<longleftrightarrow>
     (\<forall>s. reachable E s \<and> started s \<longrightarrow> (\<exists>s'. yields E' (reset E s) xs s'))"

text \<open>
  An exhausted cursor stays exhausted: after a \<^verbatim>\<open>moveNext\<close> that returned \<^verbatim>\<open>false\<close>,
  the next \<^verbatim>\<open>moveNext\<close> returns \<^verbatim>\<open>false\<close>.
\<close>

definition stays_exhausted :: "('s, 'a) Enumerable \<Rightarrow> bool" where
  "stays_exhausted E \<longleftrightarrow>
     (\<forall>s s'. reachable E s \<and> moveNext E s = Some (Inr (False, s')) \<longrightarrow>
        (\<exists>s''. moveNext E s' = Some (Inr (False, s''))))"

text \<open>
  What \<^verbatim>\<open>selectMany\<close> yields when \<open>sub x i\<close> is the list that the sequence
  \<^verbatim>\<open>collectionSelector(x, i)\<close> yields.
\<close>

fun flat_index :: "('a \<Rightarrow> int \<Rightarrow> 'b list) \<Rightarrow> ('a \<Rightarrow> 'b \<Rightarrow> 'r) \<Rightarrow> int \<Rightarrow> 'a list \<Rightarrow> 'r list" where
  "flat_index sub resultSelector i [] = []"
| "flat_index sub resultSelector i (x # xs) =
     map (resultSelector x) (sub x i) @ flat_index sub resultSelector (i + 1) xs"

text \<open>
  The inner cursor of \<^verbatim>\<open>selectMany\<close> is spent: there is none, or its next \<^verbatim>\<open>moveNext\<close>
  returns \<^verbatim>\<open>false\<close>.
\<close>

definition spent :: "(('t, 'b) Enumerable \<times> 't) option \<Rightarrow> bool" where
  "spent sub \<longleftrightarrow>
     (case sub of
        None \<Rightarrow> True
      | Some (S, t) \<Rightarrow> (case moveNext S t of Some (Inr (b, t')) \<Rightarrow> \<not> b | _ \<Rightarrow> False))"

section \<open>Properties of the protocol\<close>

subsection \<open>The methods of each sequence\<close>

lemma Enumerable_of_sel [simp]:
  "getEnumerator (Enumerable_of array) = -1"
  "moveNext (Enumerable_of array) = Enumerable_moveNext array"
  "current (Enumerable_of array) = Enumerable_current array"
  "reset (Enumerable_of array) = Enumerable_reset"
  by (simp_all add: Enumerable_of_def)

lemma takeWhile_sel [simp]:
  "getEnumerator (takeWhile_seq p P) =
     TakeWhile_vars (getEnumerator P) True 0"
  "moveNext (takeWhile_seq p P) = takeWhile_moveNext P p"
  "current (takeWhile_seq p P) = takeWhile_current P"
  "reset (takeWhile_seq p P) = takeWhile_reset P"
  by (simp_all add: takeWhile_seq_def)

lemma select_sel [simp]:
  "getEnumerator (select f P) = Select_vars (getEnumerator P) (-1)"
  "moveNext (select f P) = select_moveNext P"
  "current (select f P) = select_current P f"
  "reset (select f P) = select_reset P"
  by (simp_all add: select_def)

lemma select_moveNext_cases:
  "moveNext P (sel_itemEnumerator v) = None \<Longrightarrow> select_moveNext P v = None"
  "moveNext P (sel_itemEnumerator v) = Some (Inl e) \<Longrightarrow> select_moveNext P v = Some (Inl e)"
  "moveNext P (sel_itemEnumerator v) = Some (Inr (b, s')) \<Longrightarrow>
     select_moveNext P v =
       Some (Inr (b, Select_vars s' (sel_index v + 1)))"
  by (simp_all add: select_moveNext_def Let_def)


subsection \<open>Related cursors are indistinguishable\<close>

lemma simulates_conv: "simulates R E1 E2 \<Longrightarrow> simulates (\<lambda>w v. R v w) E2 E1"
  unfolding simulates_def
  apply (intro allI impI)
  subgoal for v w
    apply (erule allE[of _ w], erule allE[of _ v])
    apply (auto split: option.splits sum.splits prod.splits)
    done
  done

lemma simulates_toArray_le:
  assumes sim: "simulates R E1 E2"
  shows "toArray_loop E1 v acc = Some r \<Longrightarrow> R v w \<Longrightarrow> toArray_loop E2 w acc = Some r"
proof -
  have "toArray_loop E v acc = Some r \<Longrightarrow> E = E1 \<longrightarrow> (\<forall>w. R v w \<longrightarrow> toArray_loop E2 w acc = Some r)" for E
  proof (induction E v acc r rule: toArray_loop.raw_induct[rotated 1, consumes 1])
    case (1 loop E s array y)
    show ?case
    proof (intro impI allI)
      fix w assume E: "E = E1" and R: "R s w"
      from sim R have cur: "\<And>v w. R v w \<Longrightarrow> current E1 v = current E2 w"
        and mv: "(case moveNext E1 s of
           None \<Rightarrow> moveNext E2 w = None
         | Some (Inl e) \<Rightarrow> moveNext E2 w = Some (Inl e)
         | Some (Inr (b, v')) \<Rightarrow> (\<exists>w'. moveNext E2 w = Some (Inr (b, w')) \<and> R v' w'))"
        unfolding simulates_def by blast+
      show "toArray_loop E2 w array = Some y"
      proof (cases "moveNext E1 s")
        case None
        then show ?thesis using 1(2) E by simp
      next
        case (Some o1)
        show ?thesis
        proof (cases o1)
          case (Inl e)
          then show ?thesis using 1(2) E Some mv
            by (subst toArray_loop.simps) simp
        next
          case (Inr bs)
          obtain b s' where bs: "bs = (b, s')" by (cases bs)
          from mv Some Inr bs obtain w' where w': "moveNext E2 w = Some (Inr (b, w'))" "R s' w'"
            by auto
          show ?thesis
          proof (cases b)
            case False
            then show ?thesis using 1(2) E Some Inr bs w'
              by (subst toArray_loop.simps) simp
          next
            case True
            show ?thesis
            proof (cases "current E1 s'")
              case (Inl e)
              then have "current E2 w' = Inl e" using cur[OF w'(2)] by simp
              then show ?thesis using 1(2) E Some \<open>o1 = Inr bs\<close> bs w'(1) True Inl
                by (subst toArray_loop.simps) simp
            next
              case (Inr x)
              note x = this
              from 1(2) E Some \<open>o1 = Inr bs\<close> bs True x
              have "loop E1 s' (array @ [x]) = Some y" by simp
              from 1(1)[OF this] w'(2) have "toArray_loop E2 w' (array @ [x]) = Some y"
                by simp
              moreover have "current E2 w' = Inr x" using cur[OF w'(2)] x by simp
              ultimately show ?thesis using w'(1) True
                by (subst toArray_loop.simps) simp
            qed
          qed
        qed
      qed
    qed
  qed
  then show "toArray_loop E1 v acc = Some r \<Longrightarrow> R v w \<Longrightarrow> toArray_loop E2 w acc = Some r"
    by blast
qed

lemma simulates_toArray_loop:
  assumes sim: "simulates R E1 E2" and R: "R v w"
  shows "toArray_loop E1 v acc = toArray_loop E2 w acc"
proof (cases "toArray_loop E1 v acc")
  case (Some r)
  then show ?thesis using simulates_toArray_le[OF sim Some R] by simp
next
  case None
  show ?thesis
  proof (cases "toArray_loop E2 w acc")
    case None
    then show ?thesis using \<open>toArray_loop E1 v acc = None\<close> by simp
  next
    case (Some r)
    from simulates_toArray_le[OF simulates_conv[OF sim] Some] R
    have "toArray_loop E1 v acc = Some r" by simp
    then show ?thesis using None by simp
  qed
qed

lemma simulates_drive:
  assumes sim: "simulates R E1 E2"
  shows "R v w \<Longrightarrow> drive E1 v cs = drive E2 w cs"
proof (induction cs arbitrary: v w)
  case Nil
  then show ?case by simp
next
  case (Cons c cs)
  from sim Cons.prems have cur: "current E1 v = current E2 w"
    and rs: "R (reset E1 v) (reset E2 w)"
    and mv: "(case moveNext E1 v of
           None \<Rightarrow> moveNext E2 w = None
         | Some (Inl e) \<Rightarrow> moveNext E2 w = Some (Inl e)
         | Some (Inr (b, v')) \<Rightarrow> (\<exists>w'. moveNext E2 w = Some (Inr (b, w')) \<and> R v' w'))"
    unfolding simulates_def by blast+
  show ?case
  proof (cases c)
    case MoveNext
    then show ?thesis using mv Cons.IH
      by (auto split: option.splits sum.splits)
  next
    case Current
    then show ?thesis using cur Cons.IH[OF Cons.prems] by simp
  next
    case Reset
    then show ?thesis using Cons.IH[OF rs] by simp
  qed
qed

subsection \<open>\<^verbatim>\<open>current\<close> outside the protocol\<close>

text \<open>
  The source adapter and \<^verbatim>\<open>repeat\<close> throw when \<^verbatim>\<open>current\<close> is called after
  \<^verbatim>\<open>reset\<close>: the adapter tests \<^verbatim>\<open>index\<close>, and \<^verbatim>\<open>repeat\<close> clears \<^verbatim>\<open>hasNext\<close>.
\<close>

lemma Enumerable_current_after_reset:
  "drive (Enumerable_of array) s [Reset, Current] = Some [Rewound, Threw InvalidOperationException]"
  by (simp add: Enumerable_reset_def Enumerable_current_def)

lemma Enumerable_current_before_moveNext:
  "current (Enumerable_of array) (getEnumerator (Enumerable_of array)) =
     Inl InvalidOperationException"
  by (simp add: Enumerable_current_def)

lemma Enumerable_current_exhausted:
  "moveNext (Enumerable_of array) s = Some (Inr (False, s')) \<Longrightarrow> - 1 \<le> s \<Longrightarrow>
   current (Enumerable_of array) s' = Inl InvalidOperationException"
  by (auto simp: Enumerable_moveNext_def Enumerable_current_def Let_def)

lemma repeat_current_after_reset:
  "Enumerable_repeat element cnt = Inr E \<Longrightarrow>
   drive E s [Reset, Current] = Some [Rewound, Threw InvalidOperationException]"
  by (auto simp: Enumerable_repeat_def repeat_reset_def repeat_current_def split: if_splits)

text \<open>
  Claim C4. The claim: for every cursor, also those of \<^verbatim>\<open>Enumerable.range\<close> and
  \<^verbatim>\<open>Enumerable.repeat\<close>, \<^verbatim>\<open>current()\<close> throws \<^verbatim>\<open>InvalidOperationException\<close> before the
  first successful \<^verbatim>\<open>moveNext()\<close>, after \<^verbatim>\<open>moveNext()\<close> has returned false, and after
  \<^verbatim>\<open>reset()\<close> with no successful \<^verbatim>\<open>moveNext()\<close> since. The cursor of
  \<^verbatim>\<open>Enumerable.range(5, 3)\<close> does not: \<^verbatim>\<open>reset\<close> leaves \<^verbatim>\<open>hasNext\<close> as it is, so after
  one \<^verbatim>\<open>moveNext()\<close> and a \<^verbatim>\<open>reset()\<close> the call \<^verbatim>\<open>current()\<close> returns
  \<^verbatim>\<open>start + index\<close>, which is \<open>5 + (-1) = 4\<close>, a number that is not even an element of
  the range.
\<close>

theorem range_current_after_reset_returns:
  "(case Enumerable_range 5 3 of
      Inl e \<Rightarrow> None
    | Inr E \<Rightarrow> drive E (getEnumerator E) [MoveNext, Reset, Current]) =
   Some [Moved True, Rewound, Got 4]"
  by (simp add: Enumerable_range_def counter_moveNext_def range_reset_def range_current_def)

subsection \<open>\<^verbatim>\<open>takeWhile\<close> stays closed\<close>

lemma takeWhile_false_closed:
  "moveNext (takeWhile_seq p P) v = Some (Inr (False, v')) \<Longrightarrow> \<not> isOperational v'"
  by (auto simp: takeWhile_moveNext_def Let_def
           split: if_splits option.splits sum.splits prod.splits)

lemma takeWhile_closed_drive:
  "\<not> isOperational v \<Longrightarrow> Reset \<notin> set cs \<Longrightarrow>
   drive (takeWhile_seq p P) v cs =
     Some (map (\<lambda>c. if c = MoveNext then Moved False else Threw InvalidOperationException) cs)"
proof (induction cs)
  case Nil
  then show ?case by simp
next
  case (Cons c cs)
  then show ?case
    by (cases c) (simp_all add: takeWhile_moveNext_def takeWhile_current_def)
qed

text \<open>
  Claim C8. Once \<^verbatim>\<open>moveNext()\<close> of a \<^verbatim>\<open>takeWhile\<close> cursor has returned false, whether
  the parent was exhausted or the predicate rejected an element, every later
  \<^verbatim>\<open>moveNext()\<close> returns false as long as \<^verbatim>\<open>reset()\<close> is not called, whatever the
  parent and the predicate would do with later elements: in every run of calls without
  \<^verbatim>\<open>reset\<close>, each \<^verbatim>\<open>moveNext\<close> returns false (and each \<^verbatim>\<open>current\<close> throws).
\<close>

theorem takeWhile_closed_is_sticky:
  assumes "moveNext (takeWhile_seq p P) v = Some (Inr (False, v'))"
    and "Reset \<notin> set cs"
  shows "drive (takeWhile_seq p P) v' cs =
     Some (map (\<lambda>c. if c = MoveNext then Moved False else Threw InvalidOperationException) cs)"
  using takeWhile_closed_drive[OF takeWhile_false_closed[OF assms(1)] assms(2)] .

theorem takeWhile_closed_is_sticky_witness:
  "drive (takeWhile_seq (\<lambda>x i. x < (3::nat)) (Enumerable_of [1, 5, 2]))
     (TakeWhile_vars 1 False 2) [MoveNext, Current, MoveNext] =
   Some [Moved False, Threw InvalidOperationException, Moved False]"
proof -
  have "moveNext (takeWhile_seq (\<lambda>x i. x < (3::nat)) (Enumerable_of [1, 5, 2]))
          (TakeWhile_vars 0 True 1) = Some (Inr (False, TakeWhile_vars 1 False 2))"
    by (simp add: takeWhile_moveNext_def Enumerable_moveNext_def Enumerable_current_def)
  from takeWhile_closed_is_sticky[OF this, of "[MoveNext, Current, MoveNext]"]
  show ?thesis by simp
qed

subsection \<open>\<^verbatim>\<open>select\<close> after \<^verbatim>\<open>select\<close>\<close>

lemma select_select_simulates:
  "simulates select_select_rel
     (select (unary g) (select (unary f) P)) (select (unary (compose1 f g)) P)"
  unfolding simulates_def
proof (intro allI impI conjI)
  fix v :: "'a select_vars select_vars" and w :: "'a select_vars"
  assume R: "select_select_rel v w"
  then have eq: "sel_itemEnumerator (sel_itemEnumerator v) = sel_itemEnumerator w"
    by (simp add: select_select_rel_def)
  show "current (select (unary g) (select (unary f) P)) v =
        current (select (unary (compose1 f g)) P) w"
    using eq by (simp add: select_current_def unary_def compose1_def split: sum.splits)
  show "select_select_rel (reset (select (unary g) (select (unary f) P)) v)
          (reset (select (unary (compose1 f g)) P) w)"
    using eq by (simp add: select_reset_def select_select_rel_def)
  show "case moveNext (select (unary g) (select (unary f) P)) v of
          None \<Rightarrow> moveNext (select (unary (compose1 f g)) P) w = None
        | Some (Inl e) \<Rightarrow> moveNext (select (unary (compose1 f g)) P) w = Some (Inl e)
        | Some (Inr (b, v')) \<Rightarrow>
            \<exists>w'. moveNext (select (unary (compose1 f g)) P) w = Some (Inr (b, w')) \<and>
                 select_select_rel v' w'"
  proof (cases "moveNext P (sel_itemEnumerator w)")
    case None
    then show ?thesis using eq by (simp add: select_moveNext_cases)
  next
    case (Some r)
    show ?thesis
    proof (cases r)
      case (Inl e)
      then show ?thesis using Some eq by (simp add: select_moveNext_cases)
    next
      case (Inr bs)
      obtain b s' where "bs = (b, s')" by (cases bs)
      then show ?thesis using Some Inr eq
        by (simp add: select_moveNext_cases select_select_rel_def)
    qed
  qed
qed

text \<open>
  Claim C9. For every parent sequence and every two functions \<open>f\<close> and \<open>g\<close> of one
  parameter, \<^verbatim>\<open>select(f).select(g)\<close> and \<^verbatim>\<open>select(x => g(f(x)))\<close> cannot be told
  apart: fresh cursors of the two answer every run of \<^verbatim>\<open>moveNext\<close>, \<^verbatim>\<open>current\<close> and
  \<^verbatim>\<open>reset\<close> calls with the same replies (the same values, the same exceptions), and
  \<^verbatim>\<open>toArray\<close> returns the same array, throws the same exception or fails to return
  for both.
\<close>

theorem select_select_is_select_compose:
  "drive (select (unary g) (select (unary f) P))
     (getEnumerator (select (unary g) (select (unary f) P))) cs =
   drive (select (unary (compose1 f g)) P)
     (getEnumerator (select (unary (compose1 f g)) P)) cs
   \<and> toArray (select (unary g) (select (unary f) P)) =
     toArray (select (unary (compose1 f g)) P)"
proof -
  have R: "select_select_rel (getEnumerator (select (unary g) (select (unary f) P)))
             (getEnumerator (select (unary (compose1 f g)) P))"
    by (simp add: select_select_rel_def)
  show ?thesis
    unfolding toArray_def
    using simulates_drive[OF select_select_simulates R]
      simulates_toArray_loop[OF select_select_simulates R]
    by blast
qed


section \<open>Properties of the draining operators\<close>

subsection \<open>Sequences that yield a list\<close>

lemma toArray_loop_yields:
  "yields E s xs s' \<Longrightarrow> toArray_loop E s acc = Some (Inr (acc @ xs))"
proof (induction arbitrary: acc rule: yields.induct)
  case (yields_Nil E s s')
  then show ?case by (subst toArray_loop.simps) simp
next
  case (yields_Cons E s s1 x xs s')
  then show ?case by (subst toArray_loop.simps) simp
qed

lemma Enumerable_of_yields_from:
  "k \<le> length xs \<Longrightarrow>
   yields (Enumerable_of xs) (int k - 1) (drop k xs) (int (length xs))"
proof (induction "length xs - k" arbitrary: k)
  case 0
  then have "k = length xs" by simp
  then show ?case
    by (auto intro!: yields_Nil simp: Enumerable_moveNext_def)
next
  case (Suc n)
  then have k: "k < length xs" by simp
  then have d: "drop k xs = xs ! k # drop (Suc k) xs"
    by (simp add: Cons_nth_drop_Suc)
  have "yields (Enumerable_of xs) (int (Suc k) - 1) (drop (Suc k) xs) (int (length xs))"
    using Suc by (intro Suc.hyps(1)) auto
  then show ?case
    unfolding d using k
    by (intro yields_Cons[where ?s1.0 = "int k"])
       (auto simp: Enumerable_moveNext_def Enumerable_current_def)
qed

lemma Enumerable_of_yields:
  "yields (Enumerable_of xs) (getEnumerator (Enumerable_of xs)) xs (int (length xs))"
  using Enumerable_of_yields_from[of 0 xs] by simp

lemma sequenceEqual_loop_yields:
  "yields E1 s1 xs s1' \<Longrightarrow> yields E2 s2 ys s2' \<Longrightarrow>
   sequenceEqual_loop E1 E2 equals s1 s2 =
     Some (Inr (list_all (\<lambda>(x, y). equals x y) (zip xs ys)))"
proof (induction arbitrary: s2 ys rule: yields.induct)
  case (yields_Nil E s s')
  then show ?case by (subst sequenceEqual_loop.simps) simp
next
  case (yields_Cons E s s1 x xs s')
  from yields_Cons.prems show ?case
  proof (cases rule: yields.cases)
    case (yields_Nil)
    then show ?thesis using yields_Cons.hyps
      by (subst sequenceEqual_loop.simps) simp
  next
    case (yields_Cons t1 y ys')
    then show ?thesis using yields_Cons.hyps yields_Cons.IH[OF yields_Cons(4)]
      by (subst sequenceEqual_loop.simps) simp
  qed
qed

lemma toArray_yields:
  "yields E (getEnumerator E) xs s' \<Longrightarrow> toArray E = Some (Inr xs)"
  by (simp add: toArray_def toArray_loop_yields)


lemma zip_append_same:
  "zip us (us @ vs) = zip us us" "zip (us @ vs) us = zip us us"
  by (induction us) auto

text \<open>
  Claim C10. \<^verbatim>\<open>sequenceEqual\<close> stops at the first cursor that is exhausted and never
  compares the lengths: on two sequences that yield \<open>xs\<close> and \<open>ys\<close> it returns
  whether the comparer accepts every pair of elements at the same position, up to the
  shorter length. So it returns true when one sequence is a prefix of the other (and the
  comparer accepts equal elements), as for \<^verbatim>\<open>[1]\<close> and \<^verbatim>\<open>[1, 2]\<close> with the default
  comparer.
\<close>

theorem sequenceEqual_stops_at_shorter:
  assumes "yields E1 (getEnumerator E1) xs s1" and "yields E2 (getEnumerator E2) ys s2"
  shows "sequenceEqual same E1 E2 equals =
           Some (Inr (same \<or> list_all (\<lambda>(x, y). equals x y) (zip xs ys)))
       \<and> ((ys = xs @ zs \<or> xs = ys @ zs) \<and> list_all (\<lambda>x. equals x x) (xs @ ys)
            \<longrightarrow> sequenceEqual same E1 E2 equals = Some (Inr True))"
proof -
  have eq: "sequenceEqual same E1 E2 equals =
           Some (Inr (same \<or> list_all (\<lambda>(x, y). equals x y) (zip xs ys)))"
    by (simp add: sequenceEqual_def sequenceEqual_loop_yields[OF assms])
  have refl: "list_all (\<lambda>(x, y). equals x y) (zip us us)" if "list_all (\<lambda>x. equals x x) us"
    for us using that by (induction us) auto
  have "list_all (\<lambda>(x, y). equals x y) (zip xs ys)"
    if "ys = xs @ zs \<or> xs = ys @ zs" and "list_all (\<lambda>x. equals x x) (xs @ ys)"
  proof -
    from that(1) show ?thesis
    proof
      assume "ys = xs @ zs"
      then have "zip xs ys = zip xs xs" by (simp add: zip_append_same)
      then show ?thesis using refl[of xs] that(2) by simp
    next
      assume "xs = ys @ zs"
      then have "zip xs ys = zip ys ys" by (simp add: zip_append_same)
      then show ?thesis using refl[of ys] that(2) by simp
    qed
  qed
  then show ?thesis using eq by simp
qed

theorem sequenceEqual_stops_at_shorter_witness:
  "sequenceEqual False (Enumerable_of [Number 1 :: unit js])
     (Enumerable_of [Number 1, Number 2]) EqualityComparer_equals = Some (Inr True)"
  using sequenceEqual_stops_at_shorter[OF Enumerable_of_yields Enumerable_of_yields,
      of False "[Number 1 :: unit js]" "[Number 1, Number 2]" EqualityComparer_equals "[Number 2]"]
  by (simp add: EqualityComparer_equals_def)

subsection \<open>The operators with a default value\<close>

lemma any_loop_yields:
  "yields E s xs s' \<Longrightarrow> any_loop E p c s = Some (any_list p c xs)"
proof (induction arbitrary: c rule: yields.induct)
  case (yields_Nil E s s')
  then show ?case by (subst any_loop.simps) simp
next
  case (yields_Cons E s s1 x xs s')
  then show ?case
    by (subst any_loop.simps) (simp split: sum.splits prod.splits)
qed

lemma any_list_elementAt:
  "any_list (\<lambda>(element, index) item. Inr (index = 0, (Some item, index - 1))) (el, i) xs =
     (if 0 \<le> i \<and> i < int (length xs) then Inr (True, (Some (xs ! nat i), -1))
      else Inr (False, (if xs = [] then el else Some (last xs), i - int (length xs))))"
proof (induction xs arbitrary: el i)
  case Nil
  then show ?case by simp
next
  case (Cons x xs)
  show ?case
  proof (cases "i = 0")
    case True
    then show ?thesis by simp
  next
    case False
    then have "nat i = Suc (nat (i - 1))" if "0 \<le> i" using that by simp
    then show ?thesis using False Cons.IH[of "Some x" "i - 1"]
      by (auto simp: nth_Cons')
  qed
qed

lemma elementAt_yields:
  assumes "yields E (getEnumerator E) xs s'"
  shows "elementAt E i =
     Some (if 0 \<le> i \<and> i < int (length xs) then Inr (Some (xs ! nat i))
           else Inl ArgumentOutOfRangeException)"
  unfolding elementAt_def any_seq_def any_loop_yields[OF assms] any_list_elementAt
  by simp

lemma elementAtOrDefault_yields:
  assumes "yields E (getEnumerator E) xs s'"
  shows "elementAtOrDefault E i d = Some (Inr (elementAt_or xs i d))"
  unfolding elementAtOrDefault_def elementAt_yields[OF assms] elementAt_or_def
  by simp

lemma any_list_first:
  "any_list (\<lambda>element item.
       case p item of
         Inl e \<Rightarrow> Inl e
       | Inr ok \<Rightarrow> if ok then Inr (True, Some item) else Inr (False, element)) el xs =
   Inr (found, element) \<Longrightarrow>
   first_or p xs d = (if found then element else d)"
proof (induction xs arbitrary: el)
  case Nil
  then show ?case by auto
next
  case (Cons x xs)
  then show ?case by (auto split: sum.splits if_splits)
qed

lemma any_list_first_fail:
  "any_list (\<lambda>element item.
       case p item of
         Inl e \<Rightarrow> Inl e
       | Inr ok \<Rightarrow> if ok then Inr (True, Some item) else Inr (False, element)) el xs =
   Inl e \<Longrightarrow>
   first_or p xs d = d"
proof (induction xs arbitrary: el)
  case Nil
  then show ?case by auto
next
  case (Cons x xs)
  then show ?case by (auto split: sum.splits if_splits)
qed

lemma firstOrDefault_Some_yields:
  assumes "yields E (getEnumerator E) xs s'"
  shows "firstOrDefault E (Some p) d = Some (Inr (first_or p xs d))"
proof -
  let ?cl = "\<lambda>element item.
       case p item of
         Inl e \<Rightarrow> Inl e
       | Inr ok \<Rightarrow> if ok then Inr (True, Some item) else Inr (False, element)"
  show ?thesis
  proof (cases "any_list ?cl None xs")
    case (Inl e)
    then show ?thesis
      unfolding firstOrDefault_def first_def any_seq_def any_loop_yields[OF assms]
      using any_list_first_fail[OF Inl, of d] by simp
  next
    case (Inr r)
    obtain found element where r: "r = (found, element)" by (cases r)
    show ?thesis
      unfolding firstOrDefault_def first_def any_seq_def any_loop_yields[OF assms]
      using any_list_first[OF Inr[unfolded r], of d] Inr r by simp
  qed
qed

lemma firstOrDefault_None_yields:
  assumes "yields E (getEnumerator E) xs s'"
  shows "firstOrDefault E None d = Some (Inr (first_or accepts xs d))"
  unfolding firstOrDefault_def first_def elementAt_yields[OF assms]
  by (cases xs) (simp_all add: accepts_def)

lemma any_list_last:
  "any_list (\<lambda>(last_item, isEmpty) item.
              case (case predicate of None \<Rightarrow> Inr True | Some p \<Rightarrow> p item) of
                Inl e \<Rightarrow> Inl e
              | Inr ok \<Rightarrow>
                  if ok then Inr (False, (Some item, False)) else Inr (False, (last_item, isEmpty)))
      (seen, seen = None) xs = r \<Longrightarrow>
   last_or (case predicate of None \<Rightarrow> accepts | Some p \<Rightarrow> p) xs seen d =
     (case r of Inl e \<Rightarrow> d
      | Inr (_, (last_item, isEmpty)) \<Rightarrow> if isEmpty then d else last_item)"
proof (induction xs arbitrary: seen r)
  case Nil
  then show ?case by (auto split: option.splits)
next
  case (Cons x xs)
  show ?case
  proof (cases "(case predicate of None \<Rightarrow> accepts | Some p \<Rightarrow> p) x")
    case (Inl e)
    then show ?thesis using Cons.prems
      by (auto simp: accepts_def split: option.splits)
  next
    case (Inr ok)
    show ?thesis
    proof (cases ok)
      case True
      then show ?thesis using Inr Cons.prems Cons.IH[of "Some x" r]
        by (auto simp: accepts_def split: option.splits)
    next
      case False
      then show ?thesis using Inr Cons.prems Cons.IH[of seen r]
        by (auto simp: accepts_def split: option.splits)
    qed
  qed
qed

lemma lastOrDefault_yields:
  assumes "yields E (getEnumerator E) xs s'"
  shows "lastOrDefault E predicate d =
     Some (Inr (last_or (case predicate of None \<Rightarrow> accepts | Some p \<Rightarrow> p) xs None d))"
  unfolding lastOrDefault_def last_seq_def any_seq_def any_loop_yields[OF assms]
  using any_list_last[of predicate None xs _ d, OF refl]
  by (auto split: sum.splits prod.splits)

lemma singleOrDefault_yields:
  assumes "yields E (getEnumerator E) xs s'"
  shows "singleOrDefault E predicate d =
     Some (Inr (single_or (case predicate of None \<Rightarrow> accepts | Some p \<Rightarrow> p) xs d))"
  using assms
proof (cases rule: yields.cases)
  case yields_Nil
  then show ?thesis by (simp add: singleOrDefault_def single_def single_or_def)
next
  case (yields_Cons s1 x xs')
  from yields_Cons(4) show ?thesis
  proof (cases rule: yields.cases)
    case yields_Nil
    then show ?thesis using yields_Cons(1-3)
      by (auto simp: singleOrDefault_def single_def single_or_def accepts_def
               split: option.splits sum.splits)
  next
    case (yields_Cons s2 y ys)
    then show ?thesis using \<open>xs = x # xs'\<close> \<open>moveNext E (getEnumerator E) = Some (Inr (True, s1))\<close>
        \<open>current E s1 = Inr x\<close>
      by (auto simp: singleOrDefault_def single_def single_or_def accepts_def
               split: option.splits sum.splits)
  qed
qed

lemma OrDefault_never_throws:
  "firstOrDefault E p d \<noteq> Some (Inl e)"
  "lastOrDefault E p d \<noteq> Some (Inl e)"
  "singleOrDefault E p d \<noteq> Some (Inl e)"
  "elementAtOrDefault E i d \<noteq> Some (Inl e)"
  by (auto simp: firstOrDefault_def lastOrDefault_def singleOrDefault_def
        elementAtOrDefault_def split: option.splits sum.splits)

text \<open>
  Claim C3, as stated: the operators with a default value return the default only for
  the failure they are made for, and a failure raised by a callback reaches the caller.
  It does not: \<^verbatim>\<open>catch (e)\<close> catches everything. With a predicate that throws,
  \<^verbatim>\<open>first(predicate)\<close> throws what the predicate throws, and
  \<^verbatim>\<open>firstOrDefault(predicate, 0)\<close> returns \<open>0\<close>.
\<close>

theorem firstOrDefault_masks_predicate_failure:
  "first (Enumerable_of [1 :: nat]) (Some (\<lambda>x. Inl (Raised ''boom''))) =
     Some (Inl (Raised ''boom''))
   \<and> firstOrDefault (Enumerable_of [1 :: nat]) (Some (\<lambda>x. Inl (Raised ''boom''))) (Some 0) =
     Some (Inr (Some 0))"
proof -
  have "yields (Enumerable_of [1 :: nat]) (- 1) [1] 1"
    using Enumerable_of_yields[of "[1 :: nat]"] by simp
  then have "any_loop (Enumerable_of [1 :: nat]) cl c (- 1) = Some (any_list cl c [1])"
    for cl :: "nat option \<Rightarrow> nat \<Rightarrow> exn + bool \<times> nat option" and c
    by (rule any_loop_yields)
  then show ?thesis
    by (simp add: firstOrDefault_def first_def any_seq_def)
qed

text \<open>
  Claim C3, amended. On a sequence that yields \<open>xs\<close>, each operator with a default
  value returns the element its plain variant returns, and the default value in every
  other case: when there is no such element (empty, no match, more than one element,
  index out of range) and also when the predicate throws before the element is found.
  No exception leaves these operators (\<open>OrDefault_never_throws\<close>, for every source).
\<close>

theorem OrDefault_returns_element_or_default:
  assumes "yields E (getEnumerator E) xs s'"
  shows "firstOrDefault E None d = Some (Inr (first_or accepts xs d))
       \<and> firstOrDefault E (Some p) d = Some (Inr (first_or p xs d))
       \<and> lastOrDefault E None d = Some (Inr (last_or accepts xs None d))
       \<and> lastOrDefault E (Some p) d = Some (Inr (last_or p xs None d))
       \<and> singleOrDefault E None d = Some (Inr (single_or accepts xs d))
       \<and> singleOrDefault E (Some p) d = Some (Inr (single_or p xs d))
       \<and> elementAtOrDefault E i d = Some (Inr (elementAt_or xs i d))"
  using firstOrDefault_None_yields[OF assms, of d] firstOrDefault_Some_yields[OF assms, of p d]
    lastOrDefault_yields[OF assms, of None d] lastOrDefault_yields[OF assms, of "Some p" d]
    singleOrDefault_yields[OF assms, of None d] singleOrDefault_yields[OF assms, of "Some p" d]
    elementAtOrDefault_yields[OF assms, of i d]
  by simp

theorem OrDefault_returns_element_or_default_witness:
  "firstOrDefault (Enumerable_of [1, 2, 3 :: nat]) None (Some 0) = Some (Inr (Some 1))
   \<and> firstOrDefault (Enumerable_of [1, 2, 3 :: nat])
       (Some (\<lambda>x. if x = 2 then Inl (Raised ''boom'') else Inr (2 < x))) (Some 0) =
     Some (Inr (Some 0))
   \<and> lastOrDefault (Enumerable_of [1, 2, 3 :: nat]) None (Some 0) = Some (Inr (Some 3))
   \<and> singleOrDefault (Enumerable_of [1, 2, 3 :: nat]) None (Some 0) = Some (Inr (Some 0))
   \<and> elementAtOrDefault (Enumerable_of [1, 2, 3 :: nat]) 5 (Some 0) = Some (Inr (Some 0))"
  using OrDefault_returns_element_or_default[OF Enumerable_of_yields,
      of "[1, 2, 3 :: nat]" "Some 0" "\<lambda>x. if x = 2 then Inl (Raised ''boom'') else Inr (2 < x)" 5]
  by (simp add: accepts_def single_or_def elementAt_or_def)


section \<open>Properties of the ordering subsystem\<close>

lemma js_less_Number [simp]: "js_less (Number a) (Number b) \<longleftrightarrow> a < b"
  by (simp add: js_less_def)



lemma three_way_simps [simp]:
  "three_way a b = 0 \<longleftrightarrow> a = b"
  "three_way a b \<le> 0 \<longleftrightarrow> a \<le> b"
  "three_way a b * ASCENDING \<le> 0 \<longleftrightarrow> a \<le> b"
  "three_way a b * DESCENDING \<le> 0 \<longleftrightarrow> b \<le> a"
  by (auto simp: three_way_def ASCENDING_def DESCENDING_def)



lemma yields_same_moveNext:
  "yields E t xs s' \<Longrightarrow> moveNext E s = moveNext E t \<Longrightarrow> yields E s xs s'"
  by (cases rule: yields.cases) (auto intro: yields.intros)

lemma ordered_seq_sel [simp]:
  "getEnumerator (ordered_seq ordered) = None"
  "moveNext (ordered_seq ordered) = orderBy_moveNext ordered"
  "current (ordered_seq ordered) = buffered_current"
  "reset (ordered_seq ordered) = buffered_reset"
  by (simp_all add: ordered_seq_def)








section \<open>Properties of the \<^verbatim>\<open>Hash\<close>\<close>

lemma typeof_undefined [simp]: "typeof v = ''undefined'' \<longleftrightarrow> v = Undefined"
  by (cases v) simp_all

lemma loose_equals_refl [simp]: "loose_equals k k"
  by (cases k) simp_all

lemma map_of_setProperty [simp]:
  "map_of (setProperty object name v) name = Some v"
  by (induction object name v rule: setProperty.induct) auto

lemma getProperty_setProperty [simp]:
  "getProperty (setProperty object name v) name = v"
  by (simp add: getProperty_def)


lemma primitive_key_iff:
  "primitive_key key \<longleftrightarrow> (\<exists>s. key = String s) \<or> (\<exists>n. key = Number n) \<or> (\<exists>b. key = Boolean b)"
  by (cases key) (simp_all add: primitive_key_def)




text \<open>
  The falsy values other than \<^verbatim>\<open>undefined\<close> are found again under a primitive key,
  and \<^verbatim>\<open>undefined\<close> is found again where the key goes to \<^verbatim>\<open>complexItems\<close>: that
  branch calls \<^verbatim>\<open>func(item.element)\<close> for every item it finds.
\<close>

lemma Hash_keeps_other_falsy_values:
  "list_all (\<lambda>v.
      (case put (Hash_new None :: (unit, unit) Hash) (String ''k'') v False of
         Inl e \<Rightarrow> False
       | Inr (written, h) \<Rightarrow> written \<and> map_sum id fst (get h (String ''k'')) = Inr v
            \<and> map_sum id fst (keyExists h (String ''k'')) = Inr True))
      [Boolean False, Number 0, String [], Null]"
  by (simp add: put_def keyExists_def get_def lookUp_def Hash_new_def getProperty_def
        Object_prototype_def primitive_key_def Let_def)

lemma Hash_complex_keeps_undefined:
  "put (Hash_new (Some loose_equals) :: (unit, unit) Hash) (String ''k'') Undefined False =
     Inr (True, Hash (Some loose_equals) [] [(String ''k'', Undefined)])
   \<and> map_sum id fst (keyExists (Hash (Some loose_equals) [] [(String ''k'', Undefined)]
         :: (unit, unit) Hash) (String ''k'')) = Inr True
   \<and> map_sum id fst (get (Hash (Some loose_equals) [] [(String ''k'', Undefined)]
         :: (unit, unit) Hash) (String ''k'')) = Inr Undefined"
  by (simp add: put_def keyExists_def get_def lookUp_def Hash_new_def)


text \<open>
  \<^verbatim>\<open>get\<close> throws the not-found signal exactly when \<^verbatim>\<open>keyExists\<close> returns false.
\<close>

lemma lookUp_complex_get_iff_keyExists:
  "lookUp_complex m key
     (\<lambda>v. case v of None \<Rightarrow> Inl ThrownFalse | Some element \<Rightarrow> Inr (element, None)) items =
     Inl ThrownFalse \<longleftrightarrow>
   lookUp_complex m key (\<lambda>v. Inr (case v of None \<Rightarrow> False | Some _ \<Rightarrow> True, None)) items =
     Inr (False, items)"
  by (induction items) (auto split: sum.splits prod.splits)

lemma get_throws_iff_key_absent:
  "get h key = Inl ThrownFalse \<longleftrightarrow> keyExists h key = Inr (False, h)"
proof (cases "hash_comparer h = None \<and> primitive_key key")
  case True
  then show ?thesis
    by (cases h) (auto simp: get_def keyExists_def lookUp_def Let_def split: option.splits)
next
  case False
  then show ?thesis
    using lookUp_complex_get_iff_keyExists[of
        "case hash_comparer h of Some equals \<Rightarrow> equals | None \<Rightarrow> loose_equals" key "complexItems h"]
    by (cases h) (auto simp: get_def keyExists_def lookUp_def split: sum.splits prod.splits)
qed



section \<open>Properties of \<^verbatim>\<open>join\<close> and \<^verbatim>\<open>groupJoin\<close>\<close>

lemma lookUp_complex_items_put:
  "lookUp_complex equals key
     (\<lambda>v. if (case v of None \<Rightarrow> True | Some _ \<Rightarrow> False) \<or> False
           then Inr (True, Some (Object [y])) else Inr (False, None)) (items_of bs) =
   Inr (if list_ex (\<lambda>(k, ys). equals k key) bs then (False, items_of bs)
        else (True, items_of (bs @ [(key, [y])])))"
  by (induction bs) (auto simp: items_of_def)

lemma lookUp_complex_items_keyExists:
  "lookUp_complex equals key (\<lambda>v. Inr (case v of None \<Rightarrow> False | Some _ \<Rightarrow> True, None))
     (items_of bs) =
   Inr (list_ex (\<lambda>(k, ys). equals k key) bs, items_of bs)"
  by (induction bs) (auto simp: items_of_def)

lemma lookUp_complex_items_get:
  "list_ex (\<lambda>(k, ys). equals k key) bs \<Longrightarrow>
   lookUp_complex equals key
     (\<lambda>v. case v of None \<Rightarrow> Inl ThrownFalse | Some element \<Rightarrow> Inr (element, None))
     (items_of bs) =
   Inr (Object (lookup_bucket equals key bs), items_of bs)"
  by (induction bs) (auto simp: items_of_def)

lemma lookUp_complex_items_store:
  "list_ex (\<lambda>(k, ys). equals k key) bs \<Longrightarrow>
   lookUp_complex equals key (\<lambda>v. Inr (True, Some (Object (lookup_bucket equals key bs @ [y]))))
     (items_of bs) =
   Inr (True, items_of (bucket_insert equals key y bs))"
  by (induction bs) (auto simp: items_of_def)

lemma bucket_insert_no_match:
  "\<not> list_ex (\<lambda>(k, ys). equals k key) bs \<Longrightarrow>
   bucket_insert equals key y bs = bs @ [(key, [y])]"
  by (induction bs) auto

lemma lookUp_with_comparer:
  "lookUp (Hash (Some equals) p items) key func =
     (case lookUp_complex equals key func items of
        Inl e \<Rightarrow> Inl e
      | Inr (result, items') \<Rightarrow> Inr (result, Hash (Some equals) p items'))"
  by (simp add: lookUp_def split: sum.splits prod.splits)

lemma put_items:
  "put (Hash (Some equals) p (items_of bs)) key (Object [y]) False =
   Inr (if list_ex (\<lambda>(k, ys). equals k key) bs then (False, Hash (Some equals) p (items_of bs))
        else (True, Hash (Some equals) p (items_of (bs @ [(key, [y])]))))"
  unfolding put_def lookUp_with_comparer lookUp_complex_items_put by simp

lemma keyExists_items:
  "keyExists (Hash (Some equals) p (items_of bs)) key =
   Inr (list_ex (\<lambda>(k, ys). equals k key) bs, Hash (Some equals) p (items_of bs))"
  unfolding keyExists_def lookUp_with_comparer lookUp_complex_items_keyExists by simp

lemma get_items:
  "list_ex (\<lambda>(k, ys). equals k key) bs \<Longrightarrow>
   get (Hash (Some equals) p (items_of bs)) key =
   Inr (Object (lookup_bucket equals key bs), Hash (Some equals) p (items_of bs))"
  unfolding get_def lookUp_with_comparer by (simp add: lookUp_complex_items_get)

lemma store_items:
  "list_ex (\<lambda>(k, ys). equals k key) bs \<Longrightarrow>
   lookUp (Hash (Some equals) p (items_of bs)) key
     (\<lambda>v. Inr (True, Some (Object (lookup_bucket equals key bs @ [y])))) =
   Inr (True, Hash (Some equals) p (items_of (bucket_insert equals key y bs)))"
  unfolding lookUp_with_comparer by (simp add: lookUp_complex_items_store)

lemma add_to_bucket_items:
  "add_to_bucket (Hash (Some equals) p (items_of bs)) key y =
     Inr (Hash (Some equals) p (items_of (bucket_insert equals key y bs)))"
proof (cases "list_ex (\<lambda>(k, ys). equals k key) bs")
  case True
  then show ?thesis
    unfolding add_to_bucket_def put_items
    by (simp add: get_items store_items)
next
  case False
  then show ?thesis
    unfolding add_to_bucket_def put_items
    by (simp add: bucket_insert_no_match)
qed

lemma join_fill_yields:
  "yields Q s ys s' \<Longrightarrow>
   join_fill Q innerKeySelector s (Hash (Some equals) p (items_of bs)) =
     Some (Inr (Hash (Some equals) p (items_of (buckets_of equals innerKeySelector bs ys))))"
proof (induction arbitrary: bs rule: yields.induct)
  case (yields_Nil E s s')
  then show ?case
    by (subst join_fill.simps) (simp add: buckets_of_def)
next
  case (yields_Cons E s s1 x xs s')
  then show ?case
    by (subst join_fill.simps) (simp add: buckets_of_def add_to_bucket_items)
qed

lemma join_lazyInitialize_yields:
  "yields Q (getEnumerator Q) ys s' \<Longrightarrow>
   join_lazyInitialize Q innerKeySelector equals =
     Some (Inr (Hash (Some equals) [] (items_of (buckets_of equals innerKeySelector [] ys))))"
  using join_fill_yields[of Q "getEnumerator Q" ys s' innerKeySelector equals "[]" "[]"]
  by (simp add: join_lazyInitialize_def Hash_new_def items_of_def)

lemma equivalence_on_sym:
  "equivalence_on equals K \<Longrightarrow> a \<in> set K \<Longrightarrow> b \<in> set K \<Longrightarrow> equals a b \<Longrightarrow> equals b a"
  unfolding equivalence_on_def list_all_iff by blast

lemma equivalence_on_trans:
  "equivalence_on equals K \<Longrightarrow> a \<in> set K \<Longrightarrow> b \<in> set K \<Longrightarrow> c \<in> set K \<Longrightarrow>
   equals a b \<Longrightarrow> equals b c \<Longrightarrow> equals a c"
  unfolding equivalence_on_def list_all_iff by blast

lemma keys_bucket_insert:
  "fst ` set (bucket_insert equals ky y bs) \<subseteq> insert ky (fst ` set bs)"
  by (induction equals ky y bs rule: bucket_insert.induct) auto

lemma list_ex_lookup_bucket:
  "\<forall>b\<in>set bs. snd b \<noteq> [] \<Longrightarrow>
   list_ex (\<lambda>(k, ys). equals k key) bs \<longleftrightarrow> lookup_bucket equals key bs \<noteq> []"
  by (induction equals key bs rule: lookup_bucket.induct) auto

lemma bucket_insert_nonempty:
  "\<forall>b\<in>set bs. snd b \<noteq> [] \<Longrightarrow> \<forall>b\<in>set (bucket_insert equals ky y bs). snd b \<noteq> []"
  by (induction equals ky y bs rule: bucket_insert.induct) auto

lemma lookup_bucket_insert:
  assumes eq: "equivalence_on equals K" and ky: "ky \<in> set K" and ko: "ko \<in> set K"
  shows "fst ` set bs \<subseteq> set K \<Longrightarrow>
     lookup_bucket equals ko (bucket_insert equals ky y bs) =
       (if equals ky ko then lookup_bucket equals ko bs @ [y] else lookup_bucket equals ko bs)"
proof (induction bs)
  case Nil
  then show ?case by simp
next
  case (Cons b bs)
  obtain k l where b: "b = (k, l)" by (cases b)
  from Cons.prems b have k: "k \<in> set K" and sub: "fst ` set bs \<subseteq> set K" by auto
  note sym = equivalence_on_sym[OF eq] and trans = equivalence_on_trans[OF eq]
  show ?case
  proof (cases "equals k ky")
    case True
    show ?thesis
    proof (cases "equals k ko")
      case kko: True
      have "equals ky ko" using trans[OF ky k ko sym[OF k ky True] kko] .
      then show ?thesis using True kko b by simp
    next
      case kko: False
      have "\<not> equals ky ko"
      proof
        assume "equals ky ko"
        from trans[OF k ky ko True this] kko show False by simp
      qed
      then show ?thesis using True kko b by simp
    qed
  next
    case False
    show ?thesis
    proof (cases "equals k ko")
      case kko: True
      have "\<not> equals ky ko"
      proof
        assume "equals ky ko"
        from trans[OF k ko ky kko sym[OF ky ko this]] False show False by simp
      qed
      then show ?thesis using False kko b by simp
    next
      case kko: False
      then show ?thesis using False b Cons.IH[OF sub] by simp
    qed
  qed
qed

lemma lookup_buckets_of:
  assumes eq: "equivalence_on equals K" and ko: "ko \<in> set K"
  shows "innerKeySelector ` set ys \<subseteq> set K \<Longrightarrow> fst ` set bs \<subseteq> set K \<Longrightarrow>
     lookup_bucket equals ko (buckets_of equals innerKeySelector bs ys) =
       lookup_bucket equals ko bs @ filter (\<lambda>y. equals (innerKeySelector y) ko) ys"
proof (induction ys arbitrary: bs)
  case Nil
  then show ?case by (simp add: buckets_of_def)
next
  case (Cons y ys)
  let ?bs' = "bucket_insert equals (innerKeySelector y) y bs"
  from Cons.prems have ky: "innerKeySelector y \<in> set K"
    and ys: "innerKeySelector ` set ys \<subseteq> set K" by auto
  have sub': "fst ` set ?bs' \<subseteq> set K"
  proof -
    have "fst ` set ?bs' \<subseteq> insert (innerKeySelector y) (fst ` set bs)"
      by (rule keys_bucket_insert)
    also have "\<dots> \<subseteq> set K" using ky Cons.prems(2) by simp
    finally show ?thesis .
  qed
  have unfold: "buckets_of equals innerKeySelector bs (y # ys) =
                buckets_of equals innerKeySelector ?bs' ys"
    by (simp add: buckets_of_def)
  have ins: "lookup_bucket equals ko ?bs' =
       (if equals (innerKeySelector y) ko then lookup_bucket equals ko bs @ [y]
        else lookup_bucket equals ko bs)"
    by (rule lookup_bucket_insert[OF eq ky ko Cons.prems(2)])
  show ?case
    unfolding unfold Cons.IH[OF ys sub'] ins by simp
qed

lemma buckets_of_nonempty:
  "\<forall>b\<in>set bs. snd b \<noteq> [] \<Longrightarrow> \<forall>b\<in>set (buckets_of equals innerKeySelector bs ys). snd b \<noteq> []"
proof (induction ys arbitrary: bs)
  case Nil
  then show ?case by (simp add: buckets_of_def)
next
  case (Cons y ys)
  from Cons.IH[OF bucket_insert_nonempty[OF Cons.prems]]
  show ?case by (simp add: buckets_of_def)
qed

lemma join_seq_sel [simp]:
  "getEnumerator (join_seq g P Q ok ik rs eq) =
     Join_vars None (getEnumerator P) False None None None (-1)"
  "moveNext (join_seq g P Q ok ik rs eq) = join_moveNext g P Q ok ik eq"
  "current (join_seq g P Q ok ik rs eq) = join_current rs"
  "reset (join_seq g P Q ok ik rs eq) = join_reset P"
  by (simp_all add: join_seq_def)

lemma join_scan_exhausted:
  "moveNext P s = Some (Inr (False, s')) \<Longrightarrow> join_scan P ok h s = Some (Inr (None, s'))"
  by (subst join_scan.simps) simp

lemma join_scan_skip:
  assumes "moveNext P s = Some (Inr (True, s1))" and "current P s1 = Inr x"
    and "\<forall>b\<in>set bs. snd b \<noteq> []" and "lookup_bucket eq (ok x) bs = []"
  shows "join_scan P ok (Hash (Some eq) p (items_of bs)) s =
         join_scan P ok (Hash (Some eq) p (items_of bs)) s1"
  using assms list_ex_lookup_bucket[OF assms(3), of eq "ok x"]
  by (subst join_scan.simps) (simp add: keyExists_items)

lemma join_scan_found:
  assumes "moveNext P s = Some (Inr (True, s1))" and "current P s1 = Inr x"
    and "\<forall>b\<in>set bs. snd b \<noteq> []" and "lookup_bucket eq (ok x) bs \<noteq> []"
  shows "join_scan P ok (Hash (Some eq) p (items_of bs)) s =
         Some (Inr (Some (x, lookup_bucket eq (ok x) bs), s1))"
  using assms list_ex_lookup_bucket[OF assms(3), of eq "ok x"]
  by (subst join_scan.simps) (simp add: keyExists_items get_items)

lemma join_moveNext_idle:
  "jn_hash v = Some h \<Longrightarrow> idle v \<Longrightarrow>
   join_moveNext False P Q ok ik eq v =
     join_advance P ok h v (case jn_secondList v of None \<Rightarrow> jn_index v | Some _ \<Rightarrow> jn_index v + 1)"
  by (auto simp: join_moveNext_def idle_def Let_def split: option.splits)

lemma join_advance_cong:
  "jn_firstElement v = jn_firstElement w \<Longrightarrow> jn_secondElement v = jn_secondElement w \<Longrightarrow>
   jn_secondList v = jn_secondList w \<Longrightarrow>
   join_scan P ok h (jn_enumerator v) = join_scan P ok h (jn_enumerator w) \<Longrightarrow>
   join_advance P ok h v i = join_advance P ok h w i"
  by (simp add: join_advance_def cong: option.case_cong sum.case_cong prod.case_cong)

lemma join_moveNext_in_bucket:
  "jn_hash v = Some h \<Longrightarrow> jn_secondList v = Some l \<Longrightarrow> jn_index v + 1 < int (length l) \<Longrightarrow>
   join_moveNext False P Q ok ik eq v =
     Some (Inr (True, Join_vars (Some h) (jn_enumerator v) True (jn_firstElement v)
        (Some (Element (l ! nat (jn_index v + 1)))) (Some l) (jn_index v + 1)))"
  by (simp add: join_moveNext_def Let_def)

lemma join_yields_bucket:
  fixes l :: "'b list"
  defines "w \<equiv> \<lambda>h s1 x i. Join_vars (Some h) s1 True (Some x) (Some (Element (l ! i))) (Some l) (int i)"
  assumes "yields (join_seq False P Q ok ik rs eq) (w h s1 x (length l - 1)) rest v'"
  shows "i < length l \<Longrightarrow>
     yields (join_seq False P Q ok ik rs eq) (w h s1 x i)
       (map (\<lambda>y. rs x (Element y)) (drop (Suc i) l) @ rest) v'"
proof (induction "length l - Suc i" arbitrary: i)
  case 0
  then have "i = length l - 1" by simp
  then show ?case using assms(2) by simp
next
  case (Suc n)
  then have i: "Suc i < length l" by simp
  have IH: "yields (join_seq False P Q ok ik rs eq) (w h s1 x (Suc i))
       (map (\<lambda>y. rs x (Element y)) (drop (Suc (Suc i)) l) @ rest) v'"
    using Suc by (intro Suc.hyps(1)) auto
  have d: "drop (Suc i) l = l ! Suc i # drop (Suc (Suc i)) l"
    using i by (simp add: Cons_nth_drop_Suc)
  have mv: "moveNext (join_seq False P Q ok ik rs eq) (w h s1 x i) =
        Some (Inr (True, w h s1 x (Suc i)))"
    using i by (simp add: w_def join_moveNext_in_bucket nat_add_distrib)
  have cur: "current (join_seq False P Q ok ik rs eq) (w h s1 x (Suc i)) =
        Inr (rs x (Element (l ! Suc i)))"
    by (simp add: w_def join_current_def)
  show ?case unfolding d using yields_Cons[OF mv cur IH] by simp
qed

lemma join_yields_from:
  fixes bs :: "('x js \<times> 'b list) list"
  assumes ne: "\<forall>b\<in>set bs. snd b \<noteq> []"
    and h_def: "h = Hash (Some eq) [] (items_of bs)"
  shows "yields P s xs s' \<Longrightarrow> jn_hash v = Some h \<Longrightarrow> jn_enumerator v = s \<Longrightarrow> idle v \<Longrightarrow>
     \<exists>v'. yields (join_seq False P Q ok ik rs eq) v
       (concat (map (\<lambda>x. map (\<lambda>y. rs x (Element y)) (lookup_bucket eq (ok x) bs)) xs)) v'"
proof (induction arbitrary: v rule: yields.induct)
  case (yields_Nil P s s')
  have mv: "moveNext (join_seq False P Q ok ik rs eq) v =
        Some (Inr (False, Join_vars (Some h) s' False (jn_firstElement v) (jn_secondElement v)
           (jn_secondList v)
           (case jn_secondList v of None \<Rightarrow> jn_index v | Some _ \<Rightarrow> jn_index v + 1)))"
    using yields_Nil
    by (simp add: join_moveNext_idle join_advance_def join_scan_exhausted)
  show ?case using yields.yields_Nil[OF mv] by auto
next
  case (yields_Cons P s s1 x xs s')
  let ?J = "join_seq False P Q ok ik rs eq"
  let ?f = "\<lambda>x. map (\<lambda>y. rs x (Element y)) (lookup_bucket eq (ok x) bs)"
  let ?idx = "case jn_secondList v of None \<Rightarrow> jn_index v | Some _ \<Rightarrow> jn_index v + 1"
  show ?case
  proof (cases "lookup_bucket eq (ok x) bs = []")
    case True
    let ?v1 = "Join_vars (Some h) s1 (jn_hasNext v) (jn_firstElement v) (jn_secondElement v)
                 (jn_secondList v) (jn_index v)"
    have idle1: "idle ?v1" using yields_Cons.prems(3) by (simp add: idle_def split: option.splits)
    from yields_Cons.IH[of ?v1, OF _ _ idle1]
    obtain v' where y1: "yields ?J ?v1 (concat (map ?f xs)) v'" by auto
    have "join_advance P ok h v ?idx = join_advance P ok h ?v1 ?idx"
      using yields_Cons.prems(2)
        join_scan_skip[where ok=ok and eq=eq and p="[]", OF yields_Cons.hyps(1,2) ne True]
      by (intro join_advance_cong) (simp_all add: h_def)
    then have "moveNext ?J v = moveNext ?J ?v1"
      using yields_Cons.prems(1,3) idle1
      by (simp add: join_moveNext_idle cong: option.case_cong)
    from yields_same_moveNext[OF y1 this] True show ?thesis by auto
  next
    case False
    define l where "l = lookup_bucket eq (ok x) bs"
    have l: "l \<noteq> []" using False by (simp add: l_def)
    let ?w = "\<lambda>i. Join_vars (Some h) s1 True (Some x) (Some (Element (l ! i))) (Some l) (int i)"
    have idle_last: "idle (?w (length l - 1))" using l by (simp add: idle_def)
    from yields_Cons.IH[of "?w (length l - 1)", OF _ _ idle_last]
    obtain v' where rest: "yields ?J (?w (length l - 1)) (concat (map ?f xs)) v'" by auto
    have bucket: "yields ?J (?w 0) (map (\<lambda>y. rs x (Element y)) (drop (Suc 0) l) @ concat (map ?f xs)) v'"
      using join_yields_bucket[OF rest, of 0] l by simp
    have mv: "moveNext ?J v = Some (Inr (True, ?w 0))"
      using yields_Cons.prems yields_Cons.hyps(1,2) l
        join_scan_found[where ok=ok and eq=eq and p="[]", OF yields_Cons.hyps(1,2) ne False]
      by (cases l) (simp_all add: join_moveNext_idle join_advance_def h_def l_def[symmetric])
    have cur: "current ?J (?w 0) = Inr (rs x (Element (l ! 0)))"
      by (simp add: join_current_def)
    have "l = l ! 0 # drop (Suc 0) l" using l by (cases l) simp_all
    then have "map (\<lambda>y. rs x (Element y)) l =
               rs x (Element (l ! 0)) # map (\<lambda>y. rs x (Element y)) (drop (Suc 0) l)"
      by (metis list.simps(9))
    then show ?thesis using yields.yields_Cons[OF mv cur bucket]
      by (auto simp: l_def)
  qed
qed

lemma groupJoin_yields_from:
  fixes bs :: "('x js \<times> 'b list) list"
  assumes ne: "\<forall>b\<in>set bs. snd b \<noteq> []"
    and h_def: "h = Hash (Some eq) [] (items_of bs)"
  shows "yields P s xs s' \<Longrightarrow> jn_hash v = Some h \<Longrightarrow> jn_enumerator v = s \<Longrightarrow>
     \<exists>v'. yields (join_seq True P Q ok ik rs eq) v
       (map (\<lambda>x. rs x (Group (lookup_bucket eq (ok x) bs))) xs) v'"
proof (induction arbitrary: v rule: yields.induct)
  case (yields_Nil P s s')
  have mv: "moveNext (join_seq True P Q ok ik rs eq) v =
        Some (Inr (False, Join_vars (Some h) s' False (jn_firstElement v) (jn_secondElement v)
           (jn_secondList v) (jn_index v)))"
    using yields_Nil by (simp add: join_moveNext_def)
  show ?case using yields.yields_Nil[OF mv] by auto
next
  case (yields_Cons P s s1 x xs s')
  let ?G = "join_seq True P Q ok ik rs eq"
  let ?l = "lookup_bucket eq (ok x) bs"
  let ?v1 = "Join_vars (Some h) s1 True (Some x) (Some (Group ?l)) (jn_secondList v) (jn_index v)"
  have mv: "moveNext ?G v = Some (Inr (True, ?v1))"
  proof (cases "?l = []")
    case True
    then show ?thesis
      using yields_Cons.prems yields_Cons.hyps(1,2) list_ex_lookup_bucket[OF ne, of eq "ok x"]
      by (simp add: join_moveNext_def h_def keyExists_items)
  next
    case False
    then show ?thesis
      using yields_Cons.prems yields_Cons.hyps(1,2) list_ex_lookup_bucket[OF ne, of eq "ok x"]
      by (simp add: join_moveNext_def h_def keyExists_items get_items)
  qed
  have cur: "current ?G ?v1 = Inr (rs x (Group ?l))"
    by (simp add: join_current_def)
  from yields_Cons.IH[of ?v1]
  obtain v' where "yields ?G ?v1 (map (\<lambda>x. rs x (Group (lookup_bucket eq (ok x) bs))) xs) v'"
    by auto
  from yields.yields_Cons[OF mv cur this] show ?case by auto
qed

lemma join_moveNext_initial:
  assumes "join_lazyInitialize Q ik eq = Some (Inr h)"
  shows "join_moveNext g P Q ok ik eq (Join_vars None s hn fe se sl i) =
         join_moveNext g P Q ok ik eq (Join_vars (Some h) s hn fe se sl i)"
  using assms
  by (simp add: join_moveNext_def join_advance_def
      cong: option.case_cong sum.case_cong prod.case_cong if_cong js.case_cong)

lemma join_seq_yields:
  assumes P: "yields P (getEnumerator P) xs s1" and Q: "yields Q (getEnumerator Q) ys s2"
    and eq: "equivalence_on eq (map ok xs @ map ik ys)"
  shows "\<exists>v'. yields (join_seq False P Q ok ik rs eq)
            (getEnumerator (join_seq False P Q ok ik rs eq))
            (concat (map (\<lambda>x. map (\<lambda>y. rs x (Element y)) (matching eq ok ik ys x)) xs)) v'"
    and "\<exists>v'. yields (join_seq True P Q ok ik rs eq)
            (getEnumerator (join_seq True P Q ok ik rs eq))
            (map (\<lambda>x. rs x (Group (matching eq ok ik ys x))) xs) v'"
proof -
  define bs where "bs = buckets_of eq ik [] ys"
  define h where "h = Hash (Some eq) ([] :: (string \<times> 'd list js) list) (items_of bs)"
  have init: "join_lazyInitialize Q ik eq = Some (Inr h)"
    using join_lazyInitialize_yields[OF Q] by (simp add: h_def bs_def)
  have ne: "\<forall>b\<in>set bs. snd b \<noteq> []"
    unfolding bs_def by (rule buckets_of_nonempty) simp
  have look: "lookup_bucket eq (ok x) bs = matching eq ok ik ys x" if "x \<in> set xs" for x
    unfolding bs_def matching_def
    using lookup_buckets_of[OF eq, of "ok x" ik ys "[]"] that by auto
  have m1: "map (\<lambda>x. map (\<lambda>y. rs x (Element y)) (lookup_bucket eq (ok x) bs)) xs =
            map (\<lambda>x. map (\<lambda>y. rs x (Element y)) (matching eq ok ik ys x)) xs"
    using look by simp
  have m2: "map (\<lambda>x. rs x (Group (lookup_bucket eq (ok x) bs))) xs =
            map (\<lambda>x. rs x (Group (matching eq ok ik ys x))) xs"
    using look by simp
  let ?v0 = "Join_vars (Some h) (getEnumerator P) False None None None (-1)"
  have "idle ?v0" by (simp add: idle_def)
  from join_yields_from[OF ne h_def P, of ?v0 Q ok ik rs] this
  obtain v' where "yields (join_seq False P Q ok ik rs eq) ?v0
       (concat (map (\<lambda>x. map (\<lambda>y. rs x (Element y)) (lookup_bucket eq (ok x) bs)) xs)) v'"
    by auto
  moreover have "moveNext (join_seq False P Q ok ik rs eq)
                   (getEnumerator (join_seq False P Q ok ik rs eq)) =
                 moveNext (join_seq False P Q ok ik rs eq) ?v0"
    by (simp add: join_moveNext_initial[OF init])
  ultimately have "yields (join_seq False P Q ok ik rs eq)
       (getEnumerator (join_seq False P Q ok ik rs eq))
       (concat (map (\<lambda>x. map (\<lambda>y. rs x (Element y)) (lookup_bucket eq (ok x) bs)) xs)) v'"
    by (rule yields_same_moveNext)
  then show "\<exists>v'. yields (join_seq False P Q ok ik rs eq)
            (getEnumerator (join_seq False P Q ok ik rs eq))
            (concat (map (\<lambda>x. map (\<lambda>y. rs x (Element y)) (matching eq ok ik ys x)) xs)) v'"
    unfolding m1 by auto
  from groupJoin_yields_from[OF ne h_def P, of ?v0 Q ok ik rs]
  obtain v' where "yields (join_seq True P Q ok ik rs eq) ?v0
       (map (\<lambda>x. rs x (Group (lookup_bucket eq (ok x) bs))) xs) v'"
    by auto
  moreover have "moveNext (join_seq True P Q ok ik rs eq)
                   (getEnumerator (join_seq True P Q ok ik rs eq)) =
                 moveNext (join_seq True P Q ok ik rs eq) ?v0"
    by (simp add: join_moveNext_initial[OF init])
  ultimately have "yields (join_seq True P Q ok ik rs eq)
       (getEnumerator (join_seq True P Q ok ik rs eq))
       (map (\<lambda>x. rs x (Group (lookup_bucket eq (ok x) bs))) xs) v'"
    by (rule yields_same_moveNext)
  then show "\<exists>v'. yields (join_seq True P Q ok ik rs eq)
            (getEnumerator (join_seq True P Q ok ik rs eq))
            (map (\<lambda>x. rs x (Group (matching eq ok ik ys x))) xs) v'"
    unfolding m2 by auto
qed

lemma join_seq_yields_buckets:
  fixes ik :: "'b \<Rightarrow> 'x js" and eq :: "'x js \<Rightarrow> 'x js \<Rightarrow> bool" and ys :: "'b list"
  assumes P: "yields P (getEnumerator P) xs s1" and Q: "yields Q (getEnumerator Q) ys s2"
  shows "\<exists>v'. yields (join_seq False P Q ok ik rs eq)
            (getEnumerator (join_seq False P Q ok ik rs eq))
            (concat (map (\<lambda>x. map (\<lambda>y. rs x (Element y))
               (lookup_bucket eq (ok x) (buckets_of eq ik [] ys))) xs)) v'"
    and "\<exists>v'. yields (join_seq True P Q ok ik rs eq)
            (getEnumerator (join_seq True P Q ok ik rs eq))
            (map (\<lambda>x. rs x (Group (lookup_bucket eq (ok x) (buckets_of eq ik [] ys)))) xs) v'"
proof -
  define bs where "bs = buckets_of eq ik [] ys"
  define h where "h = Hash (Some eq) ([] :: (string \<times> 'b list js) list) (items_of bs)"
  have init: "join_lazyInitialize Q ik eq = Some (Inr h)"
    using join_lazyInitialize_yields[OF Q] by (simp add: h_def bs_def)
  have ne: "\<forall>b\<in>set bs. snd b \<noteq> []"
    unfolding bs_def by (rule buckets_of_nonempty) simp
  let ?v0 = "Join_vars (Some h) (getEnumerator P) False None None None (-1)"
  have "idle ?v0" by (simp add: idle_def)
  from join_yields_from[OF ne h_def P, of ?v0 Q ok ik rs] this
  obtain v' where "yields (join_seq False P Q ok ik rs eq) ?v0
       (concat (map (\<lambda>x. map (\<lambda>y. rs x (Element y)) (lookup_bucket eq (ok x) bs)) xs)) v'"
    by auto
  moreover have "moveNext (join_seq False P Q ok ik rs eq)
                   (getEnumerator (join_seq False P Q ok ik rs eq)) =
                 moveNext (join_seq False P Q ok ik rs eq) ?v0"
    by (simp add: join_moveNext_initial[OF init])
  ultimately have "yields (join_seq False P Q ok ik rs eq)
       (getEnumerator (join_seq False P Q ok ik rs eq))
       (concat (map (\<lambda>x. map (\<lambda>y. rs x (Element y)) (lookup_bucket eq (ok x) bs)) xs)) v'"
    by (rule yields_same_moveNext)
  then show "\<exists>v'. yields (join_seq False P Q ok ik rs eq)
            (getEnumerator (join_seq False P Q ok ik rs eq))
            (concat (map (\<lambda>x. map (\<lambda>y. rs x (Element y))
               (lookup_bucket eq (ok x) (buckets_of eq ik [] ys))) xs)) v'"
    unfolding bs_def by auto
  from groupJoin_yields_from[OF ne h_def P, of ?v0 Q ok ik rs]
  obtain v' where "yields (join_seq True P Q ok ik rs eq) ?v0
       (map (\<lambda>x. rs x (Group (lookup_bucket eq (ok x) bs))) xs) v'"
    by auto
  moreover have "moveNext (join_seq True P Q ok ik rs eq)
                   (getEnumerator (join_seq True P Q ok ik rs eq)) =
                 moveNext (join_seq True P Q ok ik rs eq) ?v0"
    by (simp add: join_moveNext_initial[OF init])
  ultimately have "yields (join_seq True P Q ok ik rs eq)
       (getEnumerator (join_seq True P Q ok ik rs eq))
       (map (\<lambda>x. rs x (Group (lookup_bucket eq (ok x) bs))) xs) v'"
    by (rule yields_same_moveNext)
  then show "\<exists>v'. yields (join_seq True P Q ok ik rs eq)
            (getEnumerator (join_seq True P Q ok ik rs eq))
            (map (\<lambda>x. rs x (Group (lookup_bucket eq (ok x) (buckets_of eq ik [] ys)))) xs) v'"
    unfolding bs_def by auto
qed

text \<open>
  The default comparer on keys of several types. \<^verbatim>\<open>'0' == 0\<close> and \<^verbatim>\<open>'' == 0\<close> hold
  and \<^verbatim>\<open>'0' == ''\<close> does not: on these three keys the comparer is not transitive.
  \<^verbatim>\<open>lazyInitialize\<close> files the inner key \<^verbatim>\<open>0\<close> under the first stored key it equals,
  \<^verbatim>\<open>'0'\<close>, and \<^verbatim>\<open>''\<close> under a key of its own. On keys of one type the comparer is
  symmetric and transitive.
\<close>

lemma StringToNumber_examples:
  "StringToNumber ''0'' = Some 0" "StringToNumber [] = Some 0"
  "StringToNumber '' 12 '' = Some 12" "StringToNumber ''-7'' = Some (- 7)"
  "StringToNumber ''1a'' = None" "StringToNumber ''[object Object]'' = None"
  by code_simp+

lemma default_comparer_on_mixed_keys:
  "EqualityComparer_equals (String ''0'' :: unit js) (Number 0)"
  "EqualityComparer_equals (String [] :: unit js) (Number 0)"
  "\<not> EqualityComparer_equals (String ''0'' :: unit js) (String [])"
  "\<not> equivalence_on EqualityComparer_equals [String ''0'' :: unit js, String [], Number 0]"
  by (simp_all add: EqualityComparer_equals_def StringToNumber_examples equivalence_on_def)

lemma default_comparer_on_one_type:
  "equivalence_on EqualityComparer_equals (map Number ns)"
  "equivalence_on EqualityComparer_equals (map String ss)"
  "equivalence_on EqualityComparer_equals (map Boolean bs)"
  "equivalence_on EqualityComparer_equals (map Object os)"
  by (auto simp: equivalence_on_def list_all_iff EqualityComparer_equals_def)

lemma mixed_buckets:
  "buckets_of EqualityComparer_equals fst []
     [(String ''0'' :: unit js, ''a''), (String [], ''b''), (Number 0, ''c'')] =
   [(String ''0'', [(String ''0'', ''a''), (Number 0, ''c'')]), (String [], [(String [], ''b'')])]"
  by (simp add: buckets_of_def EqualityComparer_equals_def StringToNumber_examples)

text \<open>
  Claim C2, as stated: for every pair of sequences and every key selectors, \<^verbatim>\<open>join\<close>
  produces one result for every pair of an outer and an inner element with matching
  keys. It does not when the comparer is not transitive on the keys. With the default
  comparer, the outer key \<^verbatim>\<open>0\<close> and the inner keys \<^verbatim>\<open>'0'\<close>, \<^verbatim>\<open>''\<close>, \<^verbatim>\<open>0\<close> (elements
  \<^verbatim>\<open>a\<close>, \<^verbatim>\<open>b\<close>, \<^verbatim>\<open>c\<close>), all three inner keys equal the outer key, and \<^verbatim>\<open>join\<close> yields
  the pairs with \<^verbatim>\<open>a\<close> and \<^verbatim>\<open>c\<close> only: the array found for the key \<^verbatim>\<open>0\<close> is the one
  stored under \<^verbatim>\<open>'0'\<close>.
\<close>

theorem join_misses_a_matching_key:
  "toArray (join (Enumerable_of [0 :: int])
      (Enumerable_of [(String ''0'' :: unit js, ''a''), (String [], ''b''), (Number 0, ''c'')])
      Number fst (\<lambda>o2 s. (o2, case s of Element i \<Rightarrow> snd i | Group g \<Rightarrow> [])) None) =
     Some (Inr [(0, ''a''), (0, ''c'')])
   \<and> map snd (matching EqualityComparer_equals Number fst
        [(String ''0'' :: unit js, ''a''), (String [], ''b''), (Number 0, ''c'')] (0 :: int)) =
     [''a'', ''b'', ''c'']"
proof -
  let ?P = "Enumerable_of [0 :: int]"
  let ?ys = "[(String ''0'' :: unit js, ''a''), (String [], ''b''), (Number 0, ''c'')]"
  let ?rs = "\<lambda>(o2 :: int) s. (o2, case s of Element i \<Rightarrow> snd i | Group g \<Rightarrow> [])"
  let ?eq = "EqualityComparer_equals :: unit js \<Rightarrow> unit js \<Rightarrow> bool"
  from join_seq_yields_buckets(1)[where P = ?P and xs = "[0]" and Q = "Enumerable_of ?ys"
      and ys = ?ys and ok = Number and ik = fst and rs = ?rs and eq = ?eq,
      OF Enumerable_of_yields Enumerable_of_yields]
  obtain v' where "yields (join_seq False ?P (Enumerable_of ?ys) Number fst ?rs ?eq)
      (getEnumerator (join_seq False ?P (Enumerable_of ?ys) Number fst ?rs ?eq))
      [(0, ''a''), (0, ''c'')] v'"
    unfolding mixed_buckets
    by (auto simp: EqualityComparer_equals_def StringToNumber_examples)
  then have "toArray (join_seq False ?P (Enumerable_of ?ys) Number fst ?rs ?eq) =
      Some (Inr [(0, ''a''), (0, ''c'')])"
    by (rule toArray_yields)
  then show ?thesis
    by (simp add: join_def matching_def EqualityComparer_equals_def StringToNumber_examples)
qed

text \<open>
  Claim C2, amended. For an outer sequence that yields \<open>xs\<close> and an inner sequence that yields
  \<open>ys\<close>, \<^verbatim>\<open>join\<close> produces one result for every pair of an outer element and an
  inner element with matching keys: the outer elements in their order, for each of them
  the matching inner elements in their order, and nothing for an outer element that
  no inner element matches, provided the comparer is symmetric and transitive on the
  keys that occur, as the default comparer is on keys of one primitive type. The
  witness is the example of the claim: the outer objects \<^verbatim>\<open>{id:1}\<close>, \<^verbatim>\<open>{id:2}\<close> (given
  by their \<^verbatim>\<open>id\<close>), the inner objects with \<^verbatim>\<open>oid\<close> 1, 1, 3 and \<^verbatim>\<open>val\<close> a, b, c.
\<close>

theorem join_yields_matching_pairs:
  assumes "yields P (getEnumerator P) xs s1" and "yields Q (getEnumerator Q) ys s2"
    and "equivalence_on (case comparer of None \<Rightarrow> EqualityComparer_equals | Some equals \<Rightarrow> equals)
           (map outerKeySelector xs @ map innerKeySelector ys)"
  shows "toArray (join P Q outerKeySelector innerKeySelector resultSelector comparer) =
     Some (Inr (concat (map
        (\<lambda>x. map (\<lambda>y. resultSelector x (Element y))
           (matching (case comparer of None \<Rightarrow> EqualityComparer_equals | Some equals \<Rightarrow> equals)
              outerKeySelector innerKeySelector ys x)) xs)))"
proof -
  from join_seq_yields(1)[OF assms] obtain v' where
    "yields (join P Q outerKeySelector innerKeySelector resultSelector comparer)
       (getEnumerator (join P Q outerKeySelector innerKeySelector resultSelector comparer))
       (concat (map
        (\<lambda>x. map (\<lambda>y. resultSelector x (Element y))
           (matching (case comparer of None \<Rightarrow> EqualityComparer_equals | Some equals \<Rightarrow> equals)
              outerKeySelector innerKeySelector ys x)) xs)) v'"
    unfolding join_def by blast
  then show ?thesis by (rule toArray_yields)
qed

theorem join_yields_matching_pairs_witness:
  "toArray (join (Enumerable_of [1, 2 :: int])
      (Enumerable_of [(1 :: int, ''a''), (1, ''b''), (3, ''c'')])
      Number (\<lambda>i. Number (fst i) :: unit js)
      (\<lambda>o2 s. (o2, case s of Element i \<Rightarrow> snd i | Group g \<Rightarrow> [])) None) =
   Some (Inr [(1, ''a''), (1, ''b'')])"
proof -
  have eq: "equivalence_on (case None of None \<Rightarrow> EqualityComparer_equals | Some equals \<Rightarrow> equals)
      (map Number [1, 2 :: int] @
       map (\<lambda>i. Number (fst i) :: unit js) [(1 :: int, ''a''), (1, ''b''), (3, ''c'')])"
    by (simp add: equivalence_on_def EqualityComparer_equals_def)
  from join_yields_matching_pairs[OF Enumerable_of_yields Enumerable_of_yields eq,
      where resultSelector = "\<lambda>o2 s. (o2, case s of Element i \<Rightarrow> snd i | Group g \<Rightarrow> [])"]
  show ?thesis by (simp add: matching_def EqualityComparer_equals_def)
qed

text \<open>
  Claim C6, as stated: for every pair of sequences, \<^verbatim>\<open>groupJoin\<close> pairs each outer
  element with the sequence of all inner elements whose key matches. On the keys
  above it does not: the group of the outer element with key \<^verbatim>\<open>0\<close> holds \<^verbatim>\<open>a\<close> and
  \<^verbatim>\<open>c\<close>, and not \<^verbatim>\<open>b\<close>, whose key \<^verbatim>\<open>''\<close> equals \<^verbatim>\<open>0\<close> too.
\<close>

theorem groupJoin_group_misses_a_matching_key:
  "toArray (groupJoin (Enumerable_of [0 :: int])
      (Enumerable_of [(String ''0'' :: unit js, ''a''), (String [], ''b''), (Number 0, ''c'')])
      Number fst (\<lambda>o2 s. (o2, case s of Element i \<Rightarrow> [] | Group g \<Rightarrow> map snd g)) None) =
     Some (Inr [(0, [''a'', ''c''])])
   \<and> map snd (matching EqualityComparer_equals Number fst
        [(String ''0'' :: unit js, ''a''), (String [], ''b''), (Number 0, ''c'')] (0 :: int)) =
     [''a'', ''b'', ''c'']"
proof -
  let ?P = "Enumerable_of [0 :: int]"
  let ?ys = "[(String ''0'' :: unit js, ''a''), (String [], ''b''), (Number 0, ''c'')]"
  let ?rs = "\<lambda>(o2 :: int) s. (o2, case s of Element i \<Rightarrow> [] | Group g \<Rightarrow> map snd g)"
  let ?eq = "EqualityComparer_equals :: unit js \<Rightarrow> unit js \<Rightarrow> bool"
  from join_seq_yields_buckets(2)[where P = ?P and xs = "[0]" and Q = "Enumerable_of ?ys"
      and ys = ?ys and ok = Number and ik = fst and rs = ?rs and eq = ?eq,
      OF Enumerable_of_yields Enumerable_of_yields]
  obtain v' where "yields (join_seq True ?P (Enumerable_of ?ys) Number fst ?rs ?eq)
      (getEnumerator (join_seq True ?P (Enumerable_of ?ys) Number fst ?rs ?eq))
      [(0, [''a'', ''c''])] v'"
    unfolding mixed_buckets
    by (auto simp: EqualityComparer_equals_def StringToNumber_examples)
  then have "toArray (join_seq True ?P (Enumerable_of ?ys) Number fst ?rs ?eq) =
      Some (Inr [(0, [''a'', ''c''])])"
    by (rule toArray_yields)
  then show ?thesis
    by (simp add: groupJoin_def matching_def EqualityComparer_equals_def StringToNumber_examples)
qed

text \<open>
  Claim C6, amended. For an outer sequence that yields \<open>xs\<close> and an inner sequence that yields
  \<open>ys\<close>, \<^verbatim>\<open>groupJoin\<close> produces one result for every outer element, in the order of
  the outer sequence: the result selector applied to the element and to the sequence of
  the inner elements with a matching key, in their order, which is the empty sequence
  when there is none, provided the comparer is symmetric and transitive on the keys that
  occur.
  The witness is the example of the claim, with a result selector that lists the
  \<^verbatim>\<open>val\<close> of the group.
\<close>

theorem groupJoin_yields_one_group_per_outer:
  assumes "yields P (getEnumerator P) xs s1" and "yields Q (getEnumerator Q) ys s2"
    and "equivalence_on (case comparer of None \<Rightarrow> EqualityComparer_equals | Some equals \<Rightarrow> equals)
           (map outerKeySelector xs @ map innerKeySelector ys)"
  shows "toArray (groupJoin P Q outerKeySelector innerKeySelector resultSelector comparer) =
     Some (Inr (map
        (\<lambda>x. resultSelector x (Group
           (matching (case comparer of None \<Rightarrow> EqualityComparer_equals | Some equals \<Rightarrow> equals)
              outerKeySelector innerKeySelector ys x))) xs))"
proof -
  from join_seq_yields(2)[OF assms] obtain v' where
    "yields (groupJoin P Q outerKeySelector innerKeySelector resultSelector comparer)
       (getEnumerator (groupJoin P Q outerKeySelector innerKeySelector resultSelector comparer))
       (map
        (\<lambda>x. resultSelector x (Group
           (matching (case comparer of None \<Rightarrow> EqualityComparer_equals | Some equals \<Rightarrow> equals)
              outerKeySelector innerKeySelector ys x))) xs) v'"
    unfolding groupJoin_def by blast
  then show ?thesis by (rule toArray_yields)
qed

theorem groupJoin_yields_one_group_per_outer_witness:
  "toArray (groupJoin (Enumerable_of [1, 2 :: int])
      (Enumerable_of [(1 :: int, ''a''), (1, ''b''), (3, ''c'')])
      Number (\<lambda>i. Number (fst i) :: unit js)
      (\<lambda>o2 s. (o2, case s of Element i \<Rightarrow> [] | Group g \<Rightarrow> map snd g)) None) =
   Some (Inr [(1, [''a'', ''b'']), (2, [])])"
proof -
  have eq: "equivalence_on (case None of None \<Rightarrow> EqualityComparer_equals | Some equals \<Rightarrow> equals)
      (map Number [1, 2 :: int] @
       map (\<lambda>i. Number (fst i) :: unit js) [(1 :: int, ''a''), (1, ''b''), (3, ''c'')])"
    by (simp add: equivalence_on_def EqualityComparer_equals_def)
  from groupJoin_yields_one_group_per_outer[OF Enumerable_of_yields Enumerable_of_yields eq,
      where resultSelector = "\<lambda>o2 s. (o2, case s of Element i \<Rightarrow> [] | Group g \<Rightarrow> map snd g)"]
  show ?thesis by (simp add: matching_def EqualityComparer_equals_def)
qed


section \<open>Rewinding: what a cursor yields after \<^verbatim>\<open>reset\<close>\<close>

text \<open>
  The states in \<open>reachable\<close> are the states that a consumer brings a fresh cursor into
  by a run of calls.
\<close>

lemma after_append:
  "after E s (cs @ ds) = (case after E s cs of None \<Rightarrow> None | Some s' \<Rightarrow> after E s' ds)"
proof (induction cs arbitrary: s)
  case Nil
  show ?case by simp
next
  case (Cons c cs)
  then show ?case
    by (cases c) (auto split: option.splits sum.splits)
qed

lemma after_reachable:
  "after E s cs = Some s' \<Longrightarrow> reachable E s \<Longrightarrow> reachable E s'"
proof (induction cs arbitrary: s)
  case Nil
  then show ?case by simp
next
  case (Cons c cs)
  show ?case
  proof (cases c)
    case MoveNext
    with Cons.prems(1) obtain b s1 where mv: "moveNext E s = Some (Inr (b, s1))"
      and rest: "after E s1 cs = Some s'"
      by (auto split: option.splits sum.splits)
    from Cons.IH[OF rest reachable.reachable_moveNext[OF Cons.prems(2) mv]] show ?thesis .
  next
    case Current
    with Cons show ?thesis by simp
  next
    case Reset
    with Cons.prems(1) have "after E (reset E s) cs = Some s'" by simp
    from Cons.IH[OF this reachable.reachable_reset[OF Cons.prems(2)]] show ?thesis .
  qed
qed

lemma reachable_iff_after:
  "reachable E s \<longleftrightarrow> (\<exists>cs. after E (getEnumerator E) cs = Some s)"
proof
  assume "reachable E s"
  then show "\<exists>cs. after E (getEnumerator E) cs = Some s"
  proof (induction rule: reachable.induct)
    case reachable_fresh
    have "after E (getEnumerator E) [] = Some (getEnumerator E)" by simp
    then show ?case by blast
  next
    case (reachable_moveNext s b s')
    then obtain cs where "after E (getEnumerator E) cs = Some s" by blast
    with reachable_moveNext.hyps(2) have "after E (getEnumerator E) (cs @ [MoveNext]) = Some s'"
      by (simp add: after_append)
    then show ?case by blast
  next
    case (reachable_reset s)
    then obtain cs where "after E (getEnumerator E) cs = Some s" by blast
    then have "after E (getEnumerator E) (cs @ [Reset]) = Some (reset E s)"
      by (simp add: after_append)
    then show ?case by blast
  qed
next
  assume "\<exists>cs. after E (getEnumerator E) cs = Some s"
  then obtain cs where "after E (getEnumerator E) cs = Some s" by (elim exE)
  from after_reachable[OF this reachable.reachable_fresh] show "reachable E s" .
qed

subsection \<open>The source adapter, \<^verbatim>\<open>range\<close> and \<^verbatim>\<open>repeat\<close>\<close>

lemma Enumerable_of_replays: "replays (Enumerable_of xs) xs"
  unfolding replays_def
  using Enumerable_of_yields[of xs]
  by (auto simp: Enumerable_of_def Enumerable_reset_def)

lemma counter_yields_from:
  assumes cur: "\<And>i. 0 \<le> i \<Longrightarrow> i < cnt \<Longrightarrow> current E (Counter i True) = Inr (f i)"
    and mv: "moveNext E = counter_moveNext cnt"
  shows "k \<le> nat cnt \<Longrightarrow>
     \<exists>c'. yields E (Counter (int k - 1) hn) (map (\<lambda>i. f (int i)) [k..<nat cnt]) c'"
proof (induction "nat cnt - k" arbitrary: k hn)
  case 0
  then have "k = nat cnt" by simp
  then have "moveNext E (Counter (int k - 1) hn) = Some (Inr (False, Counter (int k - 1) False))"
    by (auto simp: mv counter_moveNext_def)
  from yields.yields_Nil[OF this] \<open>k = nat cnt\<close> show ?case by auto
next
  case (Suc n)
  then have k: "k < nat cnt" by simp
  then have d: "[k..<nat cnt] = k # [Suc k..<nat cnt]"
    by (simp add: upt_conv_Cons)
  have m: "moveNext E (Counter (int k - 1) hn) = Some (Inr (True, Counter (int k) True))"
    using k by (auto simp: mv counter_moveNext_def)
  have c: "current E (Counter (int k) True) = Inr (f (int k))"
    using k by (intro cur) auto
  have "\<exists>c'. yields E (Counter (int (Suc k) - 1) True) (map (\<lambda>i. f (int i)) [Suc k..<nat cnt]) c'"
    using Suc by (intro Suc.hyps(1)) auto
  then obtain c' where
    "yields E (Counter (int k) True) (map (\<lambda>i. f (int i)) [Suc k..<nat cnt]) c'"
    by auto
  from yields.yields_Cons[OF m c this] show ?case unfolding d by auto
qed

lemma range_replays:
  assumes "Enumerable_range start cnt = Inr E"
  shows "replays E (map (\<lambda>i. start + int i) [0..<nat cnt])"
proof -
  from assms have E: "E = \<lparr> getEnumerator = Counter (-1) False,
                 moveNext = counter_moveNext cnt,
                 current = range_current start,
                 reset = range_reset \<rparr>"
    by (auto simp: Enumerable_range_def split: if_splits)
  have fromstart: "\<exists>c'. yields E (Counter (-1) hn) (map (\<lambda>i. start + int i) [0..<nat cnt]) c'" for hn
    using counter_yields_from[of cnt E "\<lambda>i. start + i" 0 hn]
    by (simp add: E range_current_def)
  show ?thesis unfolding replays_def
  proof (intro conjI allI impI)
    show "\<exists>s'. yields E (getEnumerator E) (map (\<lambda>i. start + int i) [0..<nat cnt]) s'"
      using fromstart[of False] by (simp add: E)
  next
    fix s
    show "\<exists>s'. yields E (reset E s) (map (\<lambda>i. start + int i) [0..<nat cnt]) s'"
      using fromstart[of "cnt_hasNext s"] by (simp add: E range_reset_def)
  qed
qed

lemma repeat_replays:
  assumes "Enumerable_repeat element cnt = Inr E"
  shows "replays E (replicate (nat cnt) element)"
proof -
  from assms have E: "E = \<lparr> getEnumerator = Counter (-1) False,
                 moveNext = counter_moveNext cnt,
                 current = repeat_current element,
                 reset = repeat_reset \<rparr>"
    by (auto simp: Enumerable_repeat_def split: if_splits)
  have "\<exists>c'. yields E (Counter (-1) False) (map (\<lambda>i. element) [0..<nat cnt]) c'"
    using counter_yields_from[of cnt E "\<lambda>i. element" 0 False]
    by (simp add: E repeat_current_def)
  then have fromstart: "\<exists>c'. yields E (Counter (-1) False) (replicate (nat cnt) element) c'"
    by (simp add: map_replicate_const)
  show ?thesis unfolding replays_def
    using fromstart by (auto simp: E repeat_reset_def)
qed

lemma where_seq_sel [simp]:
  "getEnumerator (where_seq p P) = Where_vars (getEnumerator P) None False"
  "moveNext (where_seq p P) = where_moveNext P p"
  "current (where_seq p P) = where_current"
  "reset (where_seq p P) = where_reset P"
  by (simp_all add: where_seq_def)

lemma skipWhile_seq_sel [simp]:
  "getEnumerator (skipWhile_seq p P) = SkipWhile_vars (getEnumerator P) False 0"
  "moveNext (skipWhile_seq p P) = skipWhile_moveNext P p"
  "current (skipWhile_seq p P) = skipWhile_current P"
  "reset (skipWhile_seq p P) = skipWhile_reset P"
  by (simp_all add: skipWhile_seq_def)

lemma distinct_seq_sel [simp]:
  "getEnumerator (distinct_seq c P) = Distinct_vars (getEnumerator P) (Hash_new c)"
  "moveNext (distinct_seq c P) = distinct_moveNext P"
  "current (distinct_seq c P) = distinct_current P"
  "reset (distinct_seq c P) = distinct_reset P"
  by (simp_all add: distinct_seq_def)

lemma reverse_sel [simp]:
  "getEnumerator (reverse P) = None"
  "moveNext (reverse P) = reverse_moveNext P"
  "current (reverse P) = buffered_current"
  "reset (reverse P) = buffered_reset"
  by (simp_all add: reverse_def)

lemma groupBy_sel [simp]:
  "getEnumerator (groupBy P ks es rs c) = GroupBy_vars None (-1)"
  "moveNext (groupBy P ks es rs c) = groupBy_moveNext P ks es c"
  "current (groupBy P ks es rs c) = groupBy_current rs"
  "reset (groupBy P ks es rs c) = groupBy_reset"
  by (simp_all add: groupBy_def)

subsection \<open>select\<close>

lemma select_yields_from:
  "yields P s xs s' \<Longrightarrow>
   \<exists>v'. yields (select (returning f) P) (Select_vars s i) (map_index f (i + 1) xs) v'"
proof (induction arbitrary: i rule: yields.induct)
  case (yields_Nil P s s')
  then have "moveNext (select (returning f) P) (Select_vars s i) =
             Some (Inr (False, Select_vars s' (i + 1)))"
    by (simp add: select_moveNext_def Let_def)
  from yields.yields_Nil[OF this] show ?case by auto
next
  case (yields_Cons P s s1 x xs s')
  have mv: "moveNext (select (returning f) P) (Select_vars s i) =
            Some (Inr (True, Select_vars s1 (i + 1)))"
    using yields_Cons.hyps(1) by (simp add: select_moveNext_def Let_def)
  have cur: "current (select (returning f) P) (Select_vars s1 (i + 1)) = Inr (f x (i + 1))"
    using yields_Cons.hyps(2) by (simp add: select_current_def returning_def)
  from yields_Cons.IH[of "i + 1"] obtain v' where
    "yields (select (returning f) P) (Select_vars s1 (i + 1)) (map_index f (i + 1 + 1) xs) v'"
    by auto
  from yields.yields_Cons[OF mv cur this]
  show ?case by auto
qed

lemma select_reachable:
  "reachable (select g P) v \<Longrightarrow> reachable P (sel_itemEnumerator v)"
proof (induction rule: reachable.induct)
  case reachable_fresh
  then show ?case by (simp add: reachable.reachable_fresh)
next
  case (reachable_moveNext v b v')
  then show ?case
    by (auto simp: select_moveNext_def Let_def split: option.splits sum.splits)
       (blast intro: reachable.reachable_moveNext)+
next
  case (reachable_reset v)
  then show ?case by (simp add: select_reset_def reachable.reachable_reset)
qed

lemma select_replays:
  assumes "replays P xs"
  shows "replays (select (returning f) P) (map_index f 0 xs)"
  unfolding replays_def
proof (intro conjI allI impI)
  from assms obtain s' where "yields P (getEnumerator P) xs s'"
    by (auto simp: replays_def)
  from select_yields_from[OF this, of f "-1"]
  show "\<exists>s'. yields (select (returning f) P) (getEnumerator (select (returning f) P))
      (map_index f 0 xs) s'" by auto
next
  fix v assume "reachable (select (returning f) P) v"
  then have "reachable P (sel_itemEnumerator v)" by (rule select_reachable)
  with assms obtain s' where "yields P (reset P (sel_itemEnumerator v)) xs s'"
    by (auto simp: replays_def)
  from select_yields_from[OF this, of f "-1"]
  show "\<exists>s'. yields (select (returning f) P) (reset (select (returning f) P) v)
      (map_index f 0 xs) s'" by (auto simp: select_reset_def)
qed

subsection \<open>takeWhile\<close>

lemma takeWhile_yields_from:
  "yields P s xs s' \<Longrightarrow>
   \<exists>v'. yields (takeWhile_seq p P) (TakeWhile_vars s True i) (takeWhile_index p i xs) v'"
proof (induction arbitrary: i rule: yields.induct)
  case (yields_Nil P s s')
  then have "moveNext (takeWhile_seq p P) (TakeWhile_vars s True i) =
             Some (Inr (False, TakeWhile_vars s' False i))"
    by (simp add: takeWhile_moveNext_def)
  from yields.yields_Nil[OF this] show ?case by auto
next
  case (yields_Cons P s s1 x xs s')
  show ?case
  proof (cases "p x i")
    case True
    have mv: "moveNext (takeWhile_seq p P) (TakeWhile_vars s True i) =
              Some (Inr (True, TakeWhile_vars s1 True (i + 1)))"
      using yields_Cons.hyps(1,2) True by (simp add: takeWhile_moveNext_def)
    have cur: "current (takeWhile_seq p P) (TakeWhile_vars s1 True (i + 1)) = Inr x"
      using yields_Cons.hyps(2) by (simp add: takeWhile_current_def)
    from yields_Cons.IH[of "i + 1"] obtain v' where
      "yields (takeWhile_seq p P) (TakeWhile_vars s1 True (i + 1)) (takeWhile_index p (i + 1) xs) v'"
      by auto
    from yields.yields_Cons[OF mv cur this] True show ?thesis by auto
  next
    case False
    have "moveNext (takeWhile_seq p P) (TakeWhile_vars s True i) =
              Some (Inr (False, TakeWhile_vars s1 False (i + 1)))"
      using yields_Cons.hyps(1,2) False by (simp add: takeWhile_moveNext_def)
    from yields.yields_Nil[OF this] False show ?thesis by auto
  qed
qed

lemma takeWhile_reachable:
  "reachable (takeWhile_seq p P) v \<Longrightarrow> reachable P (tw_enumerator v)"
proof (induction rule: reachable.induct)
  case reachable_fresh
  then show ?case by (simp add: reachable.reachable_fresh)
next
  case (reachable_moveNext v b v')
  then show ?case
    by (auto simp: takeWhile_moveNext_def Let_def split: option.splits sum.splits if_splits)
       (blast intro: reachable.reachable_moveNext)+
next
  case (reachable_reset v)
  then show ?case by (simp add: takeWhile_reset_def reachable.reachable_reset)
qed

lemma takeWhile_replays:
  assumes "replays P xs"
  shows "replays (takeWhile_seq p P) (takeWhile_index p 0 xs)"
  unfolding replays_def
proof (intro conjI allI impI)
  from assms obtain s' where "yields P (getEnumerator P) xs s'"
    by (auto simp: replays_def)
  from takeWhile_yields_from[OF this, of p 0]
  show "\<exists>s'. yields (takeWhile_seq p P) (getEnumerator (takeWhile_seq p P))
      (takeWhile_index p 0 xs) s'" by simp
next
  fix v assume "reachable (takeWhile_seq p P) v"
  then have "reachable P (tw_enumerator v)" by (rule takeWhile_reachable)
  with assms obtain s' where "yields P (reset P (tw_enumerator v)) xs s'"
    by (auto simp: replays_def)
  from takeWhile_yields_from[OF this, of p 0]
  show "\<exists>s'. yields (takeWhile_seq p P) (reset (takeWhile_seq p P) v)
      (takeWhile_index p 0 xs) s'" by (simp add: takeWhile_reset_def)
qed

subsection \<open>where\<close>

lemma where_yields_from:
  "yields P s xs s' \<Longrightarrow>
   \<exists>v'. yields (where_seq p P) (Where_vars s c h) (filter p xs) v'"
proof (induction arbitrary: c h rule: yields.induct)
  case (yields_Nil P s s')
  then have "moveNext (where_seq p P) (Where_vars s c h) =
             Some (Inr (False, Where_vars s' c False))"
    by (simp add: where_moveNext_def) (subst where_loop.simps, simp)
  from yields.yields_Nil[OF this] show ?case by auto
next
  case (yields_Cons P s s1 x xs s')
  show ?case
  proof (cases "p x")
    case True
    have mv: "moveNext (where_seq p P) (Where_vars s c h) =
              Some (Inr (True, Where_vars s1 (Some x) True))"
      using yields_Cons.hyps(1,2) True
      by (simp add: where_moveNext_def) (subst where_loop.simps, simp)
    have cur: "current (where_seq p P) (Where_vars s1 (Some x) True) = Inr x"
      by (simp add: where_current_def)
    from yields_Cons.IH[of "Some x" True] obtain v' where
      "yields (where_seq p P) (Where_vars s1 (Some x) True) (filter p xs) v'"
      by auto
    from yields.yields_Cons[OF mv cur this] True show ?thesis by auto
  next
    case False
    have mv: "moveNext (where_seq p P) (Where_vars s c h) =
              moveNext (where_seq p P) (Where_vars s1 (Some x) h)"
      using yields_Cons.hyps(1,2) False
      by (simp add: where_moveNext_def) (subst where_loop.simps, simp)
    from yields_Cons.IH[of "Some x" h] obtain v' where
      "yields (where_seq p P) (Where_vars s1 (Some x) h) (filter p xs) v'"
      by auto
    from yields_same_moveNext[OF this mv] False show ?thesis by auto
  qed
qed

lemma where_loop_reachable:
  assumes "where_loop P p s c = Some (Inr (b, v'))" and "reachable P s"
  shows "reachable P (wh_itemEnumerator v')"
proof -
  let ?Q = "\<lambda>(((E, p), s), c) r.
      reachable E s \<longrightarrow> (\<forall>b v'. r = Inr (b, v') \<longrightarrow> reachable E (wh_itemEnumerator v'))"
  have "?Q (((E, p), s), c) r" if "where_loop E p s c = Some r" for E p s c r
    using that
  proof (induct rule: where_loop.raw_induct[rotated 1, consumes 1, where Pa = ?Q, case_names step])
    case (step loop E p s c r)
    have "reachable E (wh_itemEnumerator v')" if re: "reachable E s" and r: "r = Inr (b, v')"
      for b v'
    proof (cases "moveNext E s")
      case None
      then show ?thesis using step(2) by simp
    next
      case (Some o1)
      show ?thesis
      proof (cases o1)
        case (Inl e)
        then show ?thesis using step(2) Some r by simp
      next
        case (Inr bs)
        obtain b1 s1 where bs: "bs = (b1, s1)" by (cases bs)
        have re1: "reachable E s1"
          using reachable.reachable_moveNext[OF re] Some Inr bs by simp
        show ?thesis
        proof (cases b1)
          case False
          then show ?thesis using step(2) Some Inr bs r re1 by auto
        next
          case True
          show ?thesis
          proof (cases "current E s1")
            case (Inl e)
            then show ?thesis using step(2) Some Inr bs r True by simp
          next
            case cur: (Inr x)
            show ?thesis
            proof (cases "p x")
              case True
              then show ?thesis using step(2) Some Inr bs r \<open>b1\<close> cur re1 by auto
            next
              case False
              then have "loop E p s1 (Some x) = Some r"
                using step(2) Some Inr bs \<open>b1\<close> cur by simp
              from step(1)[OF this] re1 r show ?thesis by simp
            qed
          qed
        qed
      qed
    qed
    then show ?case by simp
  qed
  from this[OF assms(1)] assms(2) show ?thesis by simp
qed

lemma where_reachable:
  "reachable (where_seq p P) v \<Longrightarrow> reachable P (wh_itemEnumerator v)"
proof (induction rule: reachable.induct)
  case reachable_fresh
  then show ?case by (simp add: reachable.reachable_fresh)
next
  case (reachable_moveNext v b v')
  then show ?case
    by (auto simp: where_moveNext_def intro: where_loop_reachable)
next
  case (reachable_reset v)
  then show ?case by (simp add: where_reset_def reachable.reachable_reset)
qed

lemma where_replays:
  assumes "replays P xs"
  shows "replays (where_seq p P) (filter p xs)"
  unfolding replays_def
proof (intro conjI allI impI)
  from assms obtain s' where "yields P (getEnumerator P) xs s'"
    by (auto simp: replays_def)
  from where_yields_from[OF this, of p None False]
  show "\<exists>s'. yields (where_seq p P) (getEnumerator (where_seq p P)) (filter p xs) s'"
    by simp
next
  fix v assume "reachable (where_seq p P) v"
  then have "reachable P (wh_itemEnumerator v)" by (rule where_reachable)
  with assms obtain s' where "yields P (reset P (wh_itemEnumerator v)) xs s'"
    by (auto simp: replays_def)
  from where_yields_from[OF this, of p "wh_current v" False]
  show "\<exists>s'. yields (where_seq p P) (reset (where_seq p P) v) (filter p xs) s'"
    by (simp add: where_reset_def)
qed

subsection \<open>skipWhile\<close>

lemma skipWhile_yields_through:
  "yields P s xs s' \<Longrightarrow> \<exists>v'. yields (skipWhile_seq p P) (SkipWhile_vars s True j) xs v'"
proof (induction rule: yields.induct)
  case (yields_Nil P s s')
  then have "moveNext (skipWhile_seq p P) (SkipWhile_vars s True j) =
             Some (Inr (False, SkipWhile_vars s' True j))"
    by (simp add: skipWhile_moveNext_def)
  from yields.yields_Nil[OF this] show ?case by auto
next
  case (yields_Cons P s s1 x xs s')
  have mv: "moveNext (skipWhile_seq p P) (SkipWhile_vars s True j) =
            Some (Inr (True, SkipWhile_vars s1 True j))"
    using yields_Cons.hyps(1) by (simp add: skipWhile_moveNext_def)
  have cur: "current (skipWhile_seq p P) (SkipWhile_vars s1 True j) = Inr x"
    using yields_Cons.hyps(2) by (simp add: skipWhile_current_def)
  from yields_Cons.IH obtain v' where
    "yields (skipWhile_seq p P) (SkipWhile_vars s1 True j) xs v'" by auto
  from yields.yields_Cons[OF mv cur this] show ?case by auto
qed

lemma skipWhile_yields_from:
  "yields P s xs s' \<Longrightarrow>
   \<exists>v'. yields (skipWhile_seq p P) (SkipWhile_vars s False i) (dropWhile_index p i xs) v'"
proof (induction arbitrary: i rule: yields.induct)
  case (yields_Nil P s s')
  then have "moveNext (skipWhile_seq p P) (SkipWhile_vars s False i) =
             Some (Inr (False, SkipWhile_vars s' True i))"
    by (simp add: skipWhile_moveNext_def) (subst skipWhile_loop.simps, simp)
  from yields.yields_Nil[OF this] show ?case by auto
next
  case (yields_Cons P s s1 x xs s')
  show ?case
  proof (cases "p x i")
    case True
    have "skipWhile_loop P p s i = skipWhile_loop P p s1 (i + 1)"
      using yields_Cons.hyps(1,2) True by (subst skipWhile_loop.simps) simp
    then have mv: "moveNext (skipWhile_seq p P) (SkipWhile_vars s False i) =
              moveNext (skipWhile_seq p P) (SkipWhile_vars s1 False (i + 1))"
      by (simp add: skipWhile_moveNext_def)
    from yields_Cons.IH[of "i + 1"] obtain v' where
      "yields (skipWhile_seq p P) (SkipWhile_vars s1 False (i + 1))
         (dropWhile_index p (i + 1) xs) v'"
      by auto
    from yields_same_moveNext[OF this mv] True show ?thesis by auto
  next
    case False
    have "skipWhile_loop P p s i = Some (Inr (True, s1, i + 1))"
      using yields_Cons.hyps(1,2) False by (subst skipWhile_loop.simps) simp
    then have mv: "moveNext (skipWhile_seq p P) (SkipWhile_vars s False i) =
              Some (Inr (True, SkipWhile_vars s1 True (i + 1)))"
      by (simp add: skipWhile_moveNext_def)
    have cur: "current (skipWhile_seq p P) (SkipWhile_vars s1 True (i + 1)) = Inr x"
      using yields_Cons.hyps(2) by (simp add: skipWhile_current_def)
    from skipWhile_yields_through[OF yields_Cons.hyps(3), of p "i + 1"] obtain v' where
      "yields (skipWhile_seq p P) (SkipWhile_vars s1 True (i + 1)) xs v'" by auto
    from yields.yields_Cons[OF mv cur this] False show ?thesis by auto
  qed
qed

lemma skipWhile_loop_reachable:
  assumes "skipWhile_loop P p s i = Some (Inr (b, s', i'))" and "reachable P s"
  shows "reachable P s'"
proof -
  let ?Q = "\<lambda>(((E, p), s), i) r.
      reachable E s \<longrightarrow> (\<forall>b s' i'. r = Inr (b, s', i') \<longrightarrow> reachable E s')"
  have "?Q (((E, p), s), i) r" if "skipWhile_loop E p s i = Some r" for E p s i r
    using that
  proof (induct rule: skipWhile_loop.raw_induct[rotated 1, consumes 1, where Pa = ?Q,
      case_names step])
    case (step loop E p s i r)
    have "reachable E s'" if re: "reachable E s" and r: "r = Inr (b, s', i')"
      for b s' i'
    proof (cases "moveNext E s")
      case None
      then show ?thesis using step(2) by simp
    next
      case (Some o1)
      show ?thesis
      proof (cases o1)
        case (Inl e)
        then show ?thesis using step(2) Some r by simp
      next
        case (Inr bs)
        obtain b1 s1 where bs: "bs = (b1, s1)" by (cases bs)
        have re1: "reachable E s1"
          using reachable.reachable_moveNext[OF re] Some Inr bs by simp
        show ?thesis
        proof (cases b1)
          case False
          then show ?thesis using step(2) Some Inr bs r re1 by auto
        next
          case True
          show ?thesis
          proof (cases "current E s1")
            case (Inl e)
            then show ?thesis using step(2) Some Inr bs r True by simp
          next
            case cur: (Inr x)
            show ?thesis
            proof (cases "p x i")
              case False
              then show ?thesis using step(2) Some Inr bs r \<open>b1\<close> cur re1 by auto
            next
              case True
              then have "loop E p s1 (i + 1) = Some r"
                using step(2) Some Inr bs \<open>b1\<close> cur by simp
              from step(1)[OF this] re1 r show ?thesis by simp
            qed
          qed
        qed
      qed
    qed
    then show ?case by auto
  qed
  from this[OF assms(1)] assms(2) show ?thesis by simp
qed

lemma skipWhile_reachable:
  "reachable (skipWhile_seq p P) v \<Longrightarrow> reachable P (sk_enumerator v)"
proof (induction rule: reachable.induct)
  case reachable_fresh
  then show ?case by (simp add: reachable.reachable_fresh)
next
  case (reachable_moveNext v b v')
  then show ?case
    by (auto simp: skipWhile_moveNext_def split: if_splits option.splits sum.splits
             intro: skipWhile_loop_reachable reachable.reachable_moveNext)
next
  case (reachable_reset v)
  then show ?case by (simp add: skipWhile_reset_def reachable.reachable_reset)
qed

lemma skipWhile_replays:
  assumes "replays P xs"
  shows "replays (skipWhile_seq p P) (dropWhile_index p 0 xs)"
  unfolding replays_def
proof (intro conjI allI impI)
  from assms obtain s' where "yields P (getEnumerator P) xs s'"
    by (auto simp: replays_def)
  from skipWhile_yields_from[OF this, of p 0]
  show "\<exists>s'. yields (skipWhile_seq p P) (getEnumerator (skipWhile_seq p P))
          (dropWhile_index p 0 xs) s'"
    by simp
next
  fix v assume "reachable (skipWhile_seq p P) v"
  then have "reachable P (sk_enumerator v)" by (rule skipWhile_reachable)
  with assms obtain s' where "yields P (reset P (sk_enumerator v)) xs s'"
    by (auto simp: replays_def)
  from skipWhile_yields_from[OF this, of p 0]
  show "\<exists>s'. yields (skipWhile_seq p P) (reset (skipWhile_seq p P) v)
          (dropWhile_index p 0 xs) s'"
    by (simp add: skipWhile_reset_def)
qed

subsection \<open>distinct\<close>

lemma lookUp_complex_returns:
  assumes "\<And>v. \<exists>r n. func v = Inr (r, n)"
  shows "\<exists>r items'. lookUp_complex m key func items = Inr (r, items')"
proof (induction items)
  case Nil
  from assms[of None] show ?case by auto
next
  case (Cons item items)
  from assms[of "Some (snd item)"] Cons show ?case by auto
qed

lemma lookUp_returns:
  assumes "\<And>v. \<exists>r n. func v = Inr (r, n)"
  shows "\<exists>r h'. lookUp h key func = Inr (r, h') \<and> hash_comparer h' = hash_comparer h"
proof (cases "hash_comparer h = None \<and> primitive_key key")
  case True
  let ?v = "getProperty (primitiveItems h) (propertyName key)"
  from assms[of "Some ?v"] assms[of None] True show ?thesis
    by (auto simp: lookUp_def Let_def split: option.splits)
next
  case False
  have "\<exists>r items'. lookUp_complex m key func items = Inr (r, items')" for m items
    by (rule lookUp_complex_returns) (rule assms)
  then obtain r items' where
    "lookUp_complex (case hash_comparer h of Some equals \<Rightarrow> equals | None \<Rightarrow> loose_equals)
       key func (complexItems h) = Inr (r, items')" by blast
  with False show ?thesis by (auto simp: lookUp_def)
qed

lemma put_returns:
  "\<exists>w h'. put h key v ow = Inr (w, h') \<and> hash_comparer h' = hash_comparer h"
  unfolding put_def by (rule lookUp_returns) auto

lemma distinct_yields_from:
  "yields P s xs s' \<Longrightarrow>
   \<exists>v'. yields (distinct_seq c P) (Distinct_vars s h) (distinct_list h xs) v'"
proof (induction arbitrary: h rule: yields.induct)
  case (yields_Nil P s s')
  then have "moveNext (distinct_seq c P) (Distinct_vars s h) =
             Some (Inr (False, Distinct_vars s' h))"
    by (simp add: distinct_moveNext_def) (subst distinct_loop.simps, simp)
  from yields.yields_Nil[OF this] show ?case by auto
next
  case (yields_Cons P s s1 x xs s')
  from put_returns[of h x "Boolean True" False] obtain w h' where
    put: "put h x (Boolean True) False = Inr (w, h')" by blast
  show ?case
  proof (cases w)
    case True
    have mv: "moveNext (distinct_seq c P) (Distinct_vars s h) =
              Some (Inr (True, Distinct_vars s1 h'))"
      using yields_Cons.hyps(1,2) True put
      by (simp add: distinct_moveNext_def) (subst distinct_loop.simps, simp)
    have cur: "current (distinct_seq c P) (Distinct_vars s1 h') = Inr x"
      using yields_Cons.hyps(2) by (simp add: distinct_current_def)
    from yields_Cons.IH[of h'] obtain v' where
      "yields (distinct_seq c P) (Distinct_vars s1 h') (distinct_list h' xs) v'"
      by auto
    from yields.yields_Cons[OF mv cur this] True put show ?thesis by auto
  next
    case False
    have mv: "moveNext (distinct_seq c P) (Distinct_vars s h) =
              moveNext (distinct_seq c P) (Distinct_vars s1 h')"
      using yields_Cons.hyps(1,2) False put
      by (simp add: distinct_moveNext_def) (subst distinct_loop.simps, simp)
    from yields_Cons.IH[of h'] obtain v' where
      "yields (distinct_seq c P) (Distinct_vars s1 h') (distinct_list h' xs) v'"
      by auto
    from yields_same_moveNext[OF this mv] False put show ?thesis by auto
  qed
qed

lemma distinct_loop_reachable:
  assumes "distinct_loop P s h = Some (Inr (b, v'))" and "reachable P s"
  shows "reachable P (ds_enumerator v') \<and> hash_comparer (ds_hash v') = hash_comparer h"
proof -
  let ?Q = "\<lambda>((E, s), h) r. reachable E s \<longrightarrow> (\<forall>b v'. r = Inr (b, v') \<longrightarrow>
          reachable E (ds_enumerator v') \<and> hash_comparer (ds_hash v') = hash_comparer h)"
  have "?Q ((E, s), h) r" if "distinct_loop E s h = Some r" for E s h r
    using that
  proof (induct rule: distinct_loop.raw_induct[rotated 1, consumes 1, where Pa = ?Q,
      case_names 1])
    case (1 loop E s h r)
    have "reachable E (ds_enumerator v') \<and> hash_comparer (ds_hash v') = hash_comparer h"
      if re: "reachable E s" and r: "r = Inr (b, v')" for b v'
    proof (cases "moveNext E s")
      case None
      then show ?thesis using 1(2) by simp
    next
      case (Some o1)
      show ?thesis
      proof (cases o1)
        case (Inl e)
        then show ?thesis using 1(2) Some r by simp
      next
        case (Inr bs)
        obtain b1 s1 where bs: "bs = (b1, s1)" by (cases bs)
        have re1: "reachable E s1"
          using reachable.reachable_moveNext[OF re] Some Inr bs by simp
        show ?thesis
        proof (cases b1)
          case False
          then show ?thesis using 1(2) Some Inr bs r re1 by auto
        next
          case True
          show ?thesis
          proof (cases "current E s1")
            case (Inl e)
            then show ?thesis using 1(2) Some Inr bs r True by simp
          next
            case cur: (Inr x)
            from put_returns[of h x "Boolean True" False] obtain w h' where
              put: "put h x (Boolean True) False = Inr (w, h')"
              and cmp: "hash_comparer h' = hash_comparer h" by blast
            show ?thesis
            proof (cases w)
              case True
              then show ?thesis using 1(2) Some Inr bs r \<open>b1\<close> cur re1 put cmp by auto
            next
              case False
              then have "loop E s1 h' = Some r"
                using 1(2) Some Inr bs \<open>b1\<close> cur put by simp
              from 1(1)[OF this] re1 r cmp show ?thesis by simp
            qed
          qed
        qed
      qed
    qed
    then show ?case by auto
  qed
  from this[OF assms(1)] assms(2) show ?thesis by simp
qed

lemma distinct_reachable:
  "reachable (distinct_seq c P) v \<Longrightarrow>
   reachable P (ds_enumerator v) \<and> hash_comparer (ds_hash v) = c"
proof (induction rule: reachable.induct)
  case reachable_fresh
  then show ?case by (simp add: reachable.reachable_fresh Hash_new_def)
next
  case (reachable_moveNext v b v')
  then show ?case
    using distinct_loop_reachable[of P "ds_enumerator v" "ds_hash v" b v']
    by (simp add: distinct_moveNext_def)
next
  case (reachable_reset v)
  then show ?case
    by (simp add: distinct_reset_def reachable.reachable_reset Hash_empty_def)
qed

lemma distinct_reset_empties:
  "reachable (distinct_seq c P) v \<Longrightarrow> ds_hash (reset (distinct_seq c P) v) = Hash_new c"
  using distinct_reachable[of c P v]
  by (simp add: distinct_reset_def Hash_empty_def Hash_new_def)

lemma distinct_replays:
  assumes "replays P xs"
  shows "replays (distinct_seq c P) (distinct_list (Hash_new c) xs)"
  unfolding replays_def
proof (intro conjI allI impI)
  from assms obtain s' where "yields P (getEnumerator P) xs s'"
    by (auto simp: replays_def)
  from distinct_yields_from[OF this, of c "Hash_new c"]
  show "\<exists>s'. yields (distinct_seq c P) (getEnumerator (distinct_seq c P))
          (distinct_list (Hash_new c) xs) s'"
    by simp
next
  fix v assume re: "reachable (distinct_seq c P) v"
  then have "reachable P (ds_enumerator v)" using distinct_reachable by blast
  with assms obtain s' where "yields P (reset P (ds_enumerator v)) xs s'"
    by (auto simp: replays_def)
  from distinct_yields_from[OF this, of c "Hash_new c"] distinct_reset_empties[OF re]
  show "\<exists>s'. yields (distinct_seq c P) (reset (distinct_seq c P) v)
          (distinct_list (Hash_new c) xs) s'"
    by (simp add: distinct_reset_def)
qed

subsection \<open>Cursors over a stored array\<close>

lemma buffered_yields_from:
  assumes mv: "\<And>j. moveNext E (Some (arr, j)) = buffered_moveNext arr j"
    and cur: "current E = buffered_current"
  shows "yields E0 i xs i' \<Longrightarrow> E0 = Enumerable_of arr \<Longrightarrow>
         yields E (Some (arr, i)) xs (Some (arr, i'))"
proof (induction rule: yields.induct)
  case (yields_Nil E0 s s')
  then show ?case
    by (intro yields.yields_Nil) (simp add: mv buffered_moveNext_def)
next
  case (yields_Cons E0 s s1 x xs s')
  then show ?case
    by (intro yields.yields_Cons[where ?s1.0 = "Some (arr, s1)"])
       (simp_all add: mv cur buffered_moveNext_def buffered_current_def)
qed

lemma buffered_yields:
  assumes mv: "\<And>j. moveNext E (Some (arr, j)) = buffered_moveNext arr j"
    and cur: "current E = buffered_current"
  shows "yields E (Some (arr, -1)) arr (Some (arr, int (length arr)))"
  using buffered_yields_from[OF mv cur Enumerable_of_yields[of arr, simplified] refl] .

lemma buffered_reachable:
  assumes fresh: "getEnumerator E = None"
    and init: "moveNext E None = buffered_moveNext arr (-1)"
    and mv: "\<And>j. moveNext E (Some (arr, j)) = buffered_moveNext arr j"
    and rs: "reset E = buffered_reset"
  shows "reachable E s \<Longrightarrow> s = None \<or> (\<exists>i. s = Some (arr, i))"
proof (induction rule: reachable.induct)
  case reachable_fresh
  then show ?case by (simp add: fresh)
next
  case (reachable_moveNext s b s')
  then show ?case
    by (auto simp: init mv buffered_moveNext_def Enumerable_moveNext_def Let_def)
next
  case (reachable_reset s)
  then show ?case by (auto simp: rs buffered_reset_def)
qed

lemma buffered_replays:
  assumes fresh: "getEnumerator E = None"
    and init: "moveNext E None = buffered_moveNext arr (-1)"
    and mv: "\<And>j. moveNext E (Some (arr, j)) = buffered_moveNext arr j"
    and cur: "current E = buffered_current"
    and rs: "reset E = buffered_reset"
  shows "replays E arr"
proof -
  have buf: "yields E (Some (arr, -1)) arr (Some (arr, int (length arr)))"
    by (rule buffered_yields[OF mv cur])
  have "moveNext E None = moveNext E (Some (arr, -1))" by (simp add: init mv)
  from yields_same_moveNext[OF buf this]
  have none: "yields E None arr (Some (arr, int (length arr)))" .
  show ?thesis unfolding replays_def
  proof (intro conjI allI impI)
    show "\<exists>s'. yields E (getEnumerator E) arr s'" using none fresh by auto
  next
    fix s assume "reachable E s"
    from buffered_reachable[OF fresh init mv rs this]
    have "reset E s = None \<or> reset E s = Some (arr, -1)"
      by (auto simp: rs buffered_reset_def Enumerable_reset_def)
    then show "\<exists>s'. yields E (reset E s) arr s'" using none buf by auto
  qed
qed

subsection \<open>orderBy and reverse\<close>

lemma ordered_seq_replays:
  assumes "toArray (ord_this ordered) = Some (Inr xs)"
  shows "replays (ordered_seq ordered) (Array_sort (compare_selectors (ord_selectors ordered)) xs)"
  using assms
  by (intro buffered_replays)
     (simp_all add: orderBy_moveNext_def orderBy_lazyInitialize_def)

lemma ordered_seq_keeps_array:
  assumes "toArray (ord_this ordered) = Some (Inr xs)"
    and "reachable (ordered_seq ordered) s" and "s \<noteq> None"
  shows "reset (ordered_seq ordered) s =
         Some (Array_sort (compare_selectors (ord_selectors ordered)) xs, -1)"
proof -
  have "s = None \<or> (\<exists>i. s = Some (Array_sort (compare_selectors (ord_selectors ordered)) xs, i))"
    using assms(1)
    by (intro buffered_reachable[OF _ _ _ _ assms(2)])
       (simp_all add: orderBy_moveNext_def orderBy_lazyInitialize_def)
  with assms(3) show ?thesis
    by (auto simp: buffered_reset_def Enumerable_reset_def)
qed

lemma reverse_replays:
  assumes "toArray P = Some (Inr xs)"
  shows "replays (reverse P) (rev xs)"
  using assms
  by (intro buffered_replays) (simp_all add: reverse_moveNext_def)

lemma reverse_keeps_array:
  assumes "toArray P = Some (Inr xs)"
    and "reachable (reverse P) s" and "s \<noteq> None"
  shows "reset (reverse P) s = Some (rev xs, -1)"
proof -
  have "s = None \<or> (\<exists>i. s = Some (rev xs, i))"
    using assms(1)
    by (intro buffered_reachable[OF _ _ _ _ assms(2)])
       (simp_all add: reverse_moveNext_def)
  with assms(3) show ?thesis
    by (auto simp: buffered_reset_def Enumerable_reset_def)
qed

subsection \<open>groupBy\<close>

lemma groupBy_step_items:
  "groupBy_step (Hash (Some equals) p (items_of bs)) key y =
     Inr (Hash (Some equals) p (items_of (bucket_insert equals key y bs)))"
proof (cases "list_ex (\<lambda>(k, ys). equals k key) bs")
  case True
  then show ?thesis
    unfolding groupBy_step_def keyExists_items
    by (simp add: get_items store_items)
next
  case False
  then show ?thesis
    unfolding groupBy_step_def keyExists_items
    by (simp add: put_items bucket_insert_no_match)
qed

lemma groupBy_fill_yields:
  "yields P s xs s' \<Longrightarrow>
   groupBy_fill P ks es s (Hash (Some equals) p (items_of bs)) =
     Some (Inr (Hash (Some equals) p (items_of (group_buckets equals ks es bs xs))))"
proof (induction arbitrary: bs rule: yields.induct)
  case (yields_Nil E s s')
  then show ?case
    by (subst groupBy_fill.simps) (simp add: group_buckets_def)
next
  case (yields_Cons E s s1 x xs s')
  then show ?case
    by (subst groupBy_fill.simps) (simp add: group_buckets_def groupBy_step_items)
qed

lemma groupBy_lazyInitialize_yields:
  "yields P (getEnumerator P) xs s' \<Longrightarrow>
   groupBy_lazyInitialize P ks es equals =
     Some (Inr (items_of (group_buckets equals ks es [] xs)))"
  using groupBy_fill_yields[of P "getEnumerator P" xs s' ks es equals "[]" "[]"]
  by (simp add: groupBy_lazyInitialize_def Hash_new_def items_of_def Hash_toArray_def)

lemma groupBy_yields_from:
  "k \<le> length bs \<Longrightarrow>
   yields (groupBy P ks es rs eq) (GroupBy_vars (Some (items_of bs)) (int k - 1))
     (map (\<lambda>(key, ys). rs key (Group ys)) (drop k bs))
     (GroupBy_vars (Some (items_of bs)) (int (length bs)))"
proof (induction "length bs - k" arbitrary: k)
  case 0
  then have "k = length bs" by simp
  then show ?case
    by (auto intro!: yields_Nil simp: groupBy_moveNext_def items_of_def)
next
  case (Suc n)
  then have k: "k < length bs" by simp
  then have d: "drop k bs = bs ! k # drop (Suc k) bs"
    by (simp add: Cons_nth_drop_Suc)
  obtain key ys where b: "bs ! k = (key, ys)" by (cases "bs ! k")
  let ?E = "groupBy P ks es rs eq"
  have "yields ?E (GroupBy_vars (Some (items_of bs)) (int (Suc k) - 1))
     (map (\<lambda>(key, ys). rs key (Group ys)) (drop (Suc k) bs))
     (GroupBy_vars (Some (items_of bs)) (int (length bs)))"
    using Suc by (intro Suc.hyps(1)) auto
  then have rest: "yields ?E (GroupBy_vars (Some (items_of bs)) (int k))
     (map (\<lambda>(key, ys). rs key (Group ys)) (drop (Suc k) bs))
     (GroupBy_vars (Some (items_of bs)) (int (length bs)))"
    by simp
  have mv: "moveNext ?E (GroupBy_vars (Some (items_of bs)) (int k - 1)) =
            Some (Inr (True, GroupBy_vars (Some (items_of bs)) (int k)))"
    using k by (simp add: groupBy_moveNext_def items_of_def)
  have cur: "current ?E (GroupBy_vars (Some (items_of bs)) (int k)) = Inr (rs key (Group ys))"
    using k b by (simp add: groupBy_current_def items_of_def)
  from yields.yields_Cons[OF mv cur rest] show ?case
    unfolding d by (simp add: b)
qed

lemma groupBy_reachable:
  assumes "yields P (getEnumerator P) xs s'"
  shows "reachable (groupBy P ks es rs eq) v \<Longrightarrow>
     gb_index v \<ge> -1 \<and>
     (resultSet v = None \<and> gb_index v = -1 \<or>
      resultSet v = Some (items_of (group_buckets eq ks es [] xs)))"
proof (induction rule: reachable.induct)
  case reachable_fresh
  then show ?case by simp
next
  case (reachable_moveNext v b v')
  then show ?case
    using groupBy_lazyInitialize_yields[OF assms, of ks es eq]
    by (auto simp: groupBy_moveNext_def Let_def)
next
  case (reachable_reset v)
  then show ?case by (auto simp: groupBy_reset_def)
qed

lemma groupBy_replays:
  assumes "yields P (getEnumerator P) xs s'"
  shows "replays (groupBy P ks es rs eq)
           (map (\<lambda>(key, ys). rs key (Group ys)) (group_buckets eq ks es [] xs))"
proof -
  let ?bs = "group_buckets eq ks es [] xs"
  let ?E = "groupBy P ks es rs eq"
  have buf: "yields ?E (GroupBy_vars (Some (items_of ?bs)) (-1))
      (map (\<lambda>(key, ys). rs key (Group ys)) ?bs) (GroupBy_vars (Some (items_of ?bs)) (int (length ?bs)))"
    using groupBy_yields_from[of 0 ?bs P ks es rs eq] by simp
  have "moveNext ?E (GroupBy_vars None (-1)) = moveNext ?E (GroupBy_vars (Some (items_of ?bs)) (-1))"
    using groupBy_lazyInitialize_yields[OF assms, of ks es eq]
    by (simp add: groupBy_moveNext_def)
  from yields_same_moveNext[OF buf this]
  have none: "yields ?E (GroupBy_vars None (-1))
      (map (\<lambda>(key, ys). rs key (Group ys)) ?bs) (GroupBy_vars (Some (items_of ?bs)) (int (length ?bs)))" .
  show ?thesis unfolding replays_def
  proof (intro conjI allI impI)
    show "\<exists>s'. yields ?E (getEnumerator ?E) (map (\<lambda>(key, ys). rs key (Group ys)) ?bs) s'"
      using none by auto
  next
    fix v assume "reachable ?E v"
    from groupBy_reachable[OF assms this]
    have "reset ?E v = GroupBy_vars None (-1) \<or>
          reset ?E v = GroupBy_vars (Some (items_of ?bs)) (-1)"
      by (auto simp: groupBy_reset_def)
    then show "\<exists>s'. yields ?E (reset ?E v) (map (\<lambda>(key, ys). rs key (Group ys)) ?bs) s'"
      using none buf by auto
  qed
qed

lemma groupBy_keeps_resultSet:
  assumes "yields P (getEnumerator P) xs s'"
    and "reachable (groupBy P ks es rs eq) v" and "resultSet v \<noteq> None"
  shows "reset (groupBy P ks es rs eq) v =
         GroupBy_vars (Some (items_of (group_buckets eq ks es [] xs))) (-1)"
  using groupBy_reachable[OF assms(1,2)] assms(3) by (auto simp: groupBy_reset_def)

subsection \<open>join and groupJoin\<close>

lemma join_scan_reachable:
  assumes "join_scan P ok h s = Some (Inr (r, s'))" and "reachable P s"
  shows "reachable P s'"
proof -
  let ?Q = "\<lambda>(((E, ok), h), s) r.
      reachable E s \<longrightarrow> (\<forall>f s'. r = Inr (f, s') \<longrightarrow> reachable E s')"
  have "?Q (((E, ok), h), s) r" if "join_scan E ok h s = Some r" for E ok h s r
    using that
  proof (induct rule: join_scan.raw_induct[rotated 1, consumes 1, where Pa = ?Q,
      case_names step])
    case (step loop E ok h s r)
    have "reachable E s'" if re: "reachable E s" and r: "r = Inr (f, s')" for f s'
    proof (cases "moveNext E s")
      case None
      then show ?thesis using step(2) by simp
    next
      case (Some o1)
      show ?thesis
      proof (cases o1)
        case (Inl e)
        then show ?thesis using step(2) Some r by simp
      next
        case (Inr bs)
        obtain b1 s1 where bs: "bs = (b1, s1)" by (cases bs)
        have re1: "reachable E s1"
          using reachable.reachable_moveNext[OF re] Some Inr bs by simp
        show ?thesis
        proof (cases b1)
          case False
          then show ?thesis using step(2) Some Inr bs r re1 by auto
        next
          case True
          show ?thesis
          proof (cases "current E s1")
            case (Inl e)
            then show ?thesis using step(2) Some Inr bs r True by simp
          next
            case cur: (Inr x)
            show ?thesis
            proof (cases "keyExists h (ok x)")
              case (Inl e)
              then show ?thesis using step(2) Some Inr bs r True cur by simp
            next
              case ke: (Inr eh)
              obtain ex h1 where eh: "eh = (ex, h1)" by (cases eh)
              show ?thesis
              proof (cases ex)
                case True
                then show ?thesis using step(2) Some Inr bs r \<open>b1\<close> cur re1 ke eh
                  by (auto split: sum.splits prod.splits js.splits)
              next
                case False
                then have "loop E ok h s1 = Some r"
                  using step(2) Some Inr bs \<open>b1\<close> cur ke eh by simp
                from step(1)[OF this] re1 r show ?thesis by simp
              qed
            qed
          qed
        qed
      qed
    qed
    then show ?case by auto
  qed
  from this[OF assms(1)] assms(2) show ?thesis by simp
qed

lemma join_advance_reachable:
  assumes "join_advance P ok h v i = Some (Inr (b, v'))" and "reachable P (jn_enumerator v)"
  shows "reachable P (jn_enumerator v') \<and> jn_hash v' = Some h"
proof (cases "join_scan P ok h (jn_enumerator v)")
  case None
  then show ?thesis using assms(1) by (simp add: join_advance_def)
next
  case (Some o1)
  show ?thesis
  proof (cases o1)
    case (Inl e)
    then show ?thesis using assms(1) Some by (simp add: join_advance_def)
  next
    case (Inr fs)
    obtain f s' where fs: "fs = (f, s')" by (cases fs)
    from join_scan_reachable[OF _ assms(2)] Some Inr fs have "reachable P s'" by simp
    then show ?thesis using assms(1) Some Inr fs
      by (auto simp: join_advance_def split: option.splits)
  qed
qed

lemma join_moveNext_reachable:
  assumes mv: "join_moveNext g P Q ok ik eq v = Some (Inr (b, v'))"
    and init: "join_lazyInitialize Q ik eq = Some (Inr h)"
    and hash: "jn_hash v = None \<or> jn_hash v = Some h"
    and re: "reachable P (jn_enumerator v)"
  shows "reachable P (jn_enumerator v') \<and> jn_hash v' = Some h"
proof -
  have used: "(case jn_hash v of None \<Rightarrow> join_lazyInitialize Q ik eq | Some hash \<Rightarrow> Some (Inr hash))
              = Some (Inr h)"
    using init hash by auto
  show ?thesis
  proof (cases g)
    case True
    show ?thesis
    proof (cases "moveNext P (jn_enumerator v)")
      case None
      then show ?thesis using mv True unfolding join_moveNext_def used by simp
    next
      case (Some o1)
      show ?thesis
      proof (cases o1)
        case (Inl e)
        then show ?thesis using mv True Some unfolding join_moveNext_def used by simp
      next
        case (Inr bs)
        obtain b1 s1 where bs: "bs = (b1, s1)" by (cases bs)
        have re1: "reachable P s1"
          using reachable.reachable_moveNext[OF re] Some Inr bs by simp
        show ?thesis using mv True Some Inr bs re1 unfolding join_moveNext_def used
          by (auto split: sum.splits prod.splits js.splits if_splits)
      qed
    qed
  next
    case False
    show ?thesis
    proof (cases "jn_secondList v")
      case None
      then have "join_advance P ok h v (jn_index v) = Some (Inr (b, v'))"
        using mv False unfolding join_moveNext_def used by simp
      from join_advance_reachable[OF this re] show ?thesis .
    next
      case (Some l)
      show ?thesis
      proof (cases "jn_index v + 1 < int (length l)")
        case True
        then show ?thesis using mv False Some re unfolding join_moveNext_def used
          by (auto simp: Let_def)
      next
        case nlt: False
        then have "join_advance P ok h v (jn_index v + 1) = Some (Inr (b, v'))"
          using mv False Some unfolding join_moveNext_def used by (simp add: Let_def)
        from join_advance_reachable[OF this re] show ?thesis .
      qed
    qed
  qed
qed

lemma join_reachable:
  assumes init: "join_lazyInitialize Q ik eq = Some (Inr h)"
  shows "reachable (join_seq g P Q ok ik rs eq) v \<Longrightarrow>
     reachable P (jn_enumerator v) \<and> (jn_hash v = None \<or> jn_hash v = Some h)"
proof (induction rule: reachable.induct)
  case reachable_fresh
  then show ?case by (simp add: reachable.reachable_fresh)
next
  case (reachable_moveNext v b v')
  then have "join_moveNext g P Q ok ik eq v = Some (Inr (b, v'))" by simp
  from join_moveNext_reachable[OF this init] reachable_moveNext.IH show ?case by blast
next
  case (reachable_reset v)
  then show ?case by (simp add: join_reset_def reachable.reachable_reset)
qed

lemma join_moveNext_any_initial:
  assumes "join_lazyInitialize Q ik eq = Some (Inr h)" and "jn_hash v = None"
  shows "join_moveNext g P Q ok ik eq v =
         join_moveNext g P Q ok ik eq
           (Join_vars (Some h) (jn_enumerator v) (jn_hasNext v) (jn_firstElement v)
              (jn_secondElement v) (jn_secondList v) (jn_index v))"
  using join_moveNext_initial[OF assms(1), of g P ok] assms(2) by (cases v) simp

lemma idle_join_reset [simp]: "idle (join_reset P v) = idle v"
  by (simp add: idle_def join_reset_def split: option.splits)

lemma join_yields_any:
  fixes bs :: "('x js \<times> 'b list) list"
  assumes init: "join_lazyInitialize Q ik eq = Some (Inr h)"
    and ne: "\<forall>b\<in>set bs. snd b \<noteq> []"
    and h_def: "h = Hash (Some eq) [] (items_of bs)"
    and P: "yields P (jn_enumerator v) xs s'"
    and hash: "jn_hash v = None \<or> jn_hash v = Some h"
  shows "\<exists>v'. yields (join_seq True P Q ok ik rs eq) v
           (map (\<lambda>x. rs x (Group (lookup_bucket eq (ok x) bs))) xs) v'"
    and "idle v \<Longrightarrow> \<exists>v'. yields (join_seq False P Q ok ik rs eq) v
           (concat (map (\<lambda>x. map (\<lambda>y. rs x (Element y)) (lookup_bucket eq (ok x) bs)) xs)) v'"
proof -
  let ?w = "Join_vars (Some h) (jn_enumerator v) (jn_hasNext v) (jn_firstElement v)
              (jn_secondElement v) (jn_secondList v) (jn_index v)"
  have mv: "moveNext (join_seq g P Q ok ik rs eq) v = moveNext (join_seq g P Q ok ik rs eq) ?w" for g
  proof (cases "jn_hash v")
    case None
    from join_moveNext_any_initial[OF init this] show ?thesis by simp
  next
    case (Some a)
    with hash have "?w = v" by (cases v) simp
    then show ?thesis by simp
  qed
  from groupJoin_yields_from[OF ne h_def P, of ?w Q ok ik rs]
  obtain v' where "yields (join_seq True P Q ok ik rs eq) ?w
       (map (\<lambda>x. rs x (Group (lookup_bucket eq (ok x) bs))) xs) v'"
    by auto
  from yields_same_moveNext[OF this mv]
  show "\<exists>v'. yields (join_seq True P Q ok ik rs eq) v
           (map (\<lambda>x. rs x (Group (lookup_bucket eq (ok x) bs))) xs) v'" by auto
  assume "idle v"
  then have "idle ?w" by (simp add: idle_def split: option.splits)
  from join_yields_from[OF ne h_def P, of ?w Q ok ik rs] this
  obtain v' where "yields (join_seq False P Q ok ik rs eq) ?w
       (concat (map (\<lambda>x. map (\<lambda>y. rs x (Element y)) (lookup_bucket eq (ok x) bs)) xs)) v'"
    by auto
  from yields_same_moveNext[OF this mv]
  show "\<exists>v'. yields (join_seq False P Q ok ik rs eq) v
           (concat (map (\<lambda>x. map (\<lambda>y. rs x (Element y)) (lookup_bucket eq (ok x) bs)) xs)) v'"
    by auto
qed

lemma join_seq_replays:
  fixes ik :: "'b \<Rightarrow> 'x js" and eq :: "'x js \<Rightarrow> 'x js \<Rightarrow> bool" and ys :: "'b list"
  assumes P: "replays P xs" and Q: "yields Q (getEnumerator Q) ys s2"
  defines "bs \<equiv> buckets_of eq ik [] ys"
  shows "replays (join_seq True P Q ok ik rs eq)
           (map (\<lambda>x. rs x (Group (lookup_bucket eq (ok x) bs))) xs)"
    and "\<exists>v'. yields (join_seq False P Q ok ik rs eq)
           (getEnumerator (join_seq False P Q ok ik rs eq))
           (concat (map (\<lambda>x. map (\<lambda>y. rs x (Element y)) (lookup_bucket eq (ok x) bs)) xs)) v'"
    and "reachable (join_seq False P Q ok ik rs eq) v \<Longrightarrow> idle v \<Longrightarrow>
         \<exists>v'. yields (join_seq False P Q ok ik rs eq)
           (reset (join_seq False P Q ok ik rs eq) v)
           (concat (map (\<lambda>x. map (\<lambda>y. rs x (Element y)) (lookup_bucket eq (ok x) bs)) xs)) v'"
    and "reachable (join_seq g P Q ok ik rs eq) v \<Longrightarrow> jn_hash v \<noteq> None \<Longrightarrow>
         jn_hash (reset (join_seq g P Q ok ik rs eq) v) = Some (Hash (Some eq) [] (items_of bs))"
proof -
  define h where "h = Hash (Some eq) ([] :: (string \<times> 'b list js) list) (items_of bs)"
  have init: "join_lazyInitialize Q ik eq = Some (Inr h)"
    using join_lazyInitialize_yields[OF Q] by (simp add: h_def bs_def)
  have ne: "\<forall>b\<in>set bs. snd b \<noteq> []"
    unfolding bs_def by (rule buckets_of_nonempty) simp
  from P obtain s1 where P0: "yields P (getEnumerator P) xs s1"
    by (auto simp: replays_def)
  have Pr: "\<exists>s'. yields P (reset P (jn_enumerator v)) xs s'"
    if "reachable (join_seq g P Q ok ik rs eq) v" for g v
    using join_reachable[OF init that] P by (auto simp: replays_def)
  show "replays (join_seq True P Q ok ik rs eq)
           (map (\<lambda>x. rs x (Group (lookup_bucket eq (ok x) bs))) xs)"
    unfolding replays_def
  proof (intro conjI allI impI)
    show "\<exists>s'. yields (join_seq True P Q ok ik rs eq) (getEnumerator (join_seq True P Q ok ik rs eq))
       (map (\<lambda>x. rs x (Group (lookup_bucket eq (ok x) bs))) xs) s'"
      by (rule join_yields_any(1)[OF init ne h_def]) (use P0 in simp_all)
  next
    fix v assume re: "reachable (join_seq True P Q ok ik rs eq) v"
    from Pr[OF re] obtain s' where "yields P (reset P (jn_enumerator v)) xs s'" by auto
    then show "\<exists>s'. yields (join_seq True P Q ok ik rs eq) (reset (join_seq True P Q ok ik rs eq) v)
       (map (\<lambda>x. rs x (Group (lookup_bucket eq (ok x) bs))) xs) s'"
      using join_reachable[OF init re]
      by (intro join_yields_any(1)[OF init ne h_def]) (simp_all add: join_reset_def)
  qed
  show "\<exists>v'. yields (join_seq False P Q ok ik rs eq)
           (getEnumerator (join_seq False P Q ok ik rs eq))
           (concat (map (\<lambda>x. map (\<lambda>y. rs x (Element y)) (lookup_bucket eq (ok x) bs)) xs)) v'"
    by (rule join_yields_any(2)[OF init ne h_def]) (use P0 in \<open>simp_all add: idle_def\<close>)
  show "\<exists>v'. yields (join_seq False P Q ok ik rs eq)
           (reset (join_seq False P Q ok ik rs eq) v)
           (concat (map (\<lambda>x. map (\<lambda>y. rs x (Element y)) (lookup_bucket eq (ok x) bs)) xs)) v'"
    if re: "reachable (join_seq False P Q ok ik rs eq) v" and "idle v"
  proof -
    from Pr[OF re] obtain s' where "yields P (reset P (jn_enumerator v)) xs s'" by auto
    then show ?thesis
      using join_reachable[OF init re] \<open>idle v\<close> idle_join_reset[of P v]
      by (intro join_yields_any(2)[OF init ne h_def]) (simp_all add: join_reset_def)
  qed
  show "jn_hash (reset (join_seq g P Q ok ik rs eq) v) = Some (Hash (Some eq) [] (items_of bs))"
    if re: "reachable (join_seq g P Q ok ik rs eq) v" and "jn_hash v \<noteq> None"
    using join_reachable[OF init re] that(2) by (simp add: join_reset_def h_def)
qed

subsection \<open>concat\<close>

lemma concat_seq_sel [simp]:
  "getEnumerator (concat_seq P Q) = Concat_vars (getEnumerator P) (getEnumerator Q) False True"
  "moveNext (concat_seq P Q) = concat_moveNext P Q"
  "current (concat_seq P Q) = concat_current P Q"
  "reset (concat_seq P Q) = concat_reset P Q"
  by (simp_all add: concat_seq_def)

lemma Enumerable_of_stays_exhausted: "stays_exhausted (Enumerable_of xs)"
  by (auto simp: stays_exhausted_def Enumerable_of_def Enumerable_moveNext_def Let_def)

lemma concat_yields_second:
  assumes Q: "stays_exhausted Q"
  shows "yields E t ys t' \<Longrightarrow> E = Q \<Longrightarrow> reachable Q t \<Longrightarrow>
     \<exists>v'. yields (concat_seq P Q) (Concat_vars s t True True) ys v'"
proof (induction rule: yields.induct)
  case (yields_Nil E t t')
  then have mv: "moveNext Q t = Some (Inr (False, t'))" by simp
  with Q yields_Nil.prems(2) obtain t'' where "moveNext Q t' = Some (Inr (False, t''))"
    unfolding stays_exhausted_def by blast
  with mv have "moveNext (concat_seq P Q) (Concat_vars s t True True) =
      Some (Inr (False, Concat_vars s t'' True True))"
    by (simp add: concat_moveNext_def concat_swap_def)
  from yields.yields_Nil[OF this] show ?case by auto
next
  case (yields_Cons E t t1 y ys t')
  then have mv: "moveNext Q t = Some (Inr (True, t1))" and cur: "current Q t1 = Inr y" by simp_all
  have re: "reachable Q t1" by (rule reachable.reachable_moveNext[OF yields_Cons.prems(2) mv])
  from yields_Cons.IH[OF yields_Cons.prems(1) re] obtain v' where
    rest: "yields (concat_seq P Q) (Concat_vars s t1 True True) ys v'" by auto
  have m: "moveNext (concat_seq P Q) (Concat_vars s t True True) =
      Some (Inr (True, Concat_vars s t1 True True))"
    using mv by (simp add: concat_moveNext_def)
  have c: "current (concat_seq P Q) (Concat_vars s t1 True True) = Inr y"
    using cur by (simp add: concat_current_def)
  from yields.yields_Cons[OF m c rest] show ?case by auto
qed

lemma concat_yields_from:
  assumes Q: "stays_exhausted Q" and ys: "yields Q t ys t'" and re: "reachable Q t"
  shows "yields P s xs s' \<Longrightarrow>
     \<exists>v'. yields (concat_seq P Q) (Concat_vars s t False True) (xs @ ys) v'"
proof (induction rule: yields.induct)
  case (yields_Nil P s s')
  from ys show ?case
  proof (cases rule: yields.cases)
    case yields_Nil2: yields_Nil
    with yields_Nil have "moveNext (concat_seq P Q) (Concat_vars s t False True) =
      Some (Inr (False, Concat_vars s' t' True True))"
      by (simp add: concat_moveNext_def concat_swap_def)
    from yields.yields_Nil[OF this] yields_Nil2 show ?thesis by auto
  next
    case (yields_Cons t1 y ys')
    have re1: "reachable Q t1" by (rule reachable.reachable_moveNext[OF re yields_Cons(2)])
    from concat_yields_second[OF Q yields_Cons(4) refl re1, of P s'] obtain v' where
      rest: "yields (concat_seq P Q) (Concat_vars s' t1 True True) ys' v'" by auto
    have m: "moveNext (concat_seq P Q) (Concat_vars s t False True) =
      Some (Inr (True, Concat_vars s' t1 True True))"
      using yields_Nil yields_Cons(2) by (simp add: concat_moveNext_def concat_swap_def)
    have c: "current (concat_seq P Q) (Concat_vars s' t1 True True) = Inr y"
      using yields_Cons(3) by (simp add: concat_current_def)
    from yields.yields_Cons[OF m c rest] yields_Cons(1) show ?thesis by auto
  qed
next
  case (yields_Cons P s s1 x xs s')
  from yields_Cons.IH obtain v' where
    rest: "yields (concat_seq P Q) (Concat_vars s1 t False True) (xs @ ys) v'" by auto
  have m: "moveNext (concat_seq P Q) (Concat_vars s t False True) =
      Some (Inr (True, Concat_vars s1 t False True))"
    using yields_Cons.hyps(1) by (simp add: concat_moveNext_def)
  have c: "current (concat_seq P Q) (Concat_vars s1 t False True) = Inr x"
    using yields_Cons.hyps(2) by (simp add: concat_current_def)
  from yields.yields_Cons[OF m c rest] show ?case by auto
qed

lemma concat_reachable:
  "reachable (concat_seq P Q) v \<Longrightarrow>
   reachable P (firstEnumerator v) \<and> reachable Q (secondEnumerator v) \<and> canSwap v"
proof (induction rule: reachable.induct)
  case reachable_fresh
  then show ?case by (simp add: reachable.reachable_fresh)
next
  case (reachable_moveNext v b v')
  then show ?case
    by (auto simp: concat_moveNext_def concat_swap_def
          split: if_splits option.splits sum.splits)
       (blast intro: reachable.reachable_moveNext)+
next
  case (reachable_reset v)
  then show ?case by (simp add: concat_reset_def reachable.reachable_reset)
qed

lemma concat_replays:
  assumes P: "replays P xs" and Q: "replays Q ys" and ex: "stays_exhausted Q"
  shows "replays (concat_seq P Q) (xs @ ys)"
  unfolding replays_def
proof (intro conjI allI impI)
  from P obtain s' where p: "yields P (getEnumerator P) xs s'" by (auto simp: replays_def)
  from Q obtain t' where q: "yields Q (getEnumerator Q) ys t'" by (auto simp: replays_def)
  from concat_yields_from[OF ex q reachable.reachable_fresh p]
  show "\<exists>s'. yields (concat_seq P Q) (getEnumerator (concat_seq P Q)) (xs @ ys) s'" by simp
next
  fix v assume "reachable (concat_seq P Q) v"
  then have re: "reachable P (firstEnumerator v)" "reachable Q (secondEnumerator v)"
    using concat_reachable by blast+
  from P re(1) obtain s' where p: "yields P (reset P (firstEnumerator v)) xs s'"
    by (auto simp: replays_def)
  from Q re(2) obtain t' where q: "yields Q (reset Q (secondEnumerator v)) ys t'"
    by (auto simp: replays_def)
  from concat_yields_from[OF ex q reachable.reachable_reset[OF re(2)] p]
  show "\<exists>s'. yields (concat_seq P Q) (reset (concat_seq P Q) v) (xs @ ys) s'"
    by (simp add: concat_reset_def)
qed

subsection \<open>selectMany\<close>

lemma selectMany_sel [simp]:
  "getEnumerator (selectMany P cs rs) = SelectMany_vars (getEnumerator P) None None False 0"
  "moveNext (selectMany P cs rs) = selectMany_moveNext P cs"
  "current (selectMany P cs rs) = selectMany_current rs"
  "reset (selectMany P cs rs) = selectMany_reset P"
  "getEnumerator (selectMany_plain P cs) = SelectMany_vars (getEnumerator P) None None False 0"
  "moveNext (selectMany_plain P cs) = selectMany_moveNext P cs"
  "current (selectMany_plain P cs) = selectMany_current_plain"
  "reset (selectMany_plain P cs) = selectMany_reset P"
  by (simp_all add: selectMany_def selectMany_plain_def)

lemma selectMany_loop_exhausted:
  "spent sub \<Longrightarrow> moveNext P s = Some (Inr (False, s1)) \<Longrightarrow>
   \<exists>v'. selectMany_loop P cs s item sub i nm = Some (Inr (False, v'))"
  by (subst selectMany_loop.simps)
     (auto simp: spent_def split: option.splits sum.splits prod.splits)

lemma selectMany_loop_enter:
  "spent sub \<Longrightarrow> moveNext P s = Some (Inr (True, s1)) \<Longrightarrow> current P s1 = Inr x \<Longrightarrow>
   moveNext (cs x i) (getEnumerator (cs x i)) = Some (Inr (True, t1)) \<Longrightarrow>
   selectMany_loop P cs s item sub i nm =
     Some (Inr (True, SelectMany_vars s1 (Some x) (Some (cs x i, t1)) True (i + 1)))"
  by (subst selectMany_loop.simps)
     (auto simp: spent_def split: option.splits sum.splits prod.splits)

lemma selectMany_loop_skip:
  "spent sub \<Longrightarrow> moveNext P s = Some (Inr (True, s1)) \<Longrightarrow> current P s1 = Inr x \<Longrightarrow>
   moveNext (cs x i) (getEnumerator (cs x i)) = Some (Inr (False, t1)) \<Longrightarrow>
   selectMany_loop P cs s item sub i nm =
     selectMany_loop P cs s1 (Some x) (Some (cs x i, t1)) (i + 1) False"
  by (subst selectMany_loop.simps)
     (auto simp: spent_def split: option.splits sum.splits prod.splits)

lemma selectMany_loop_inner:
  "moveNext S t = Some (Inr (True, t2)) \<Longrightarrow>
   selectMany_loop P cs s item (Some (S, t)) i True =
     Some (Inr (True, SelectMany_vars s item (Some (S, t2)) True i))"
  by (subst selectMany_loop.simps) simp


lemma selectMany_yields_inner:
  assumes mvE: "moveNext E = selectMany_moveNext P cs"
    and curE: "\<And>s x S t i. current E (SelectMany_vars s (Some x) (Some (S, t)) True i) =
         (case current S t of Inl e \<Rightarrow> Inl e | Inr y \<Rightarrow> Inr (rs x y))"
    and R: "\<And>item sub nm. spent sub \<Longrightarrow>
         \<exists>r. selectMany_loop P cs s item sub i nm = Some (Inr r) \<and>
             (\<forall>v. moveNext E v = Some (Inr r) \<longrightarrow> (\<exists>v'. yields E v rest v'))"
  shows "yields S t l t' \<Longrightarrow>
     \<exists>v'. yields E (SelectMany_vars s (Some x) (Some (S, t)) h i) (map (rs x) l @ rest) v'"
proof (induction arbitrary: h rule: yields.induct)
  case (yields_Nil S t t')
  then have "spent (Some (S, t))" by (simp add: spent_def)
  from R[OF this, of "Some x" True] obtain r where
    "selectMany_loop P cs s (Some x) (Some (S, t)) i True = Some (Inr r)"
    and "\<forall>v. moveNext E v = Some (Inr r) \<longrightarrow> (\<exists>v'. yields E v rest v')"
    by blast
  then show ?case by (simp add: mvE selectMany_moveNext_def)
next
  case (yields_Cons S t t2 y l t')
  have m: "moveNext E (SelectMany_vars s (Some x) (Some (S, t)) h i) =
      Some (Inr (True, SelectMany_vars s (Some x) (Some (S, t2)) True i))"
    using yields_Cons.hyps(1)
    by (simp add: mvE selectMany_moveNext_def selectMany_loop_inner)
  have c: "current E (SelectMany_vars s (Some x) (Some (S, t2)) True i) = Inr (rs x y)"
    using yields_Cons.hyps(2) by (simp add: curE)
  from yields_Cons.IH[of True] obtain v' where
    "yields E (SelectMany_vars s (Some x) (Some (S, t2)) True i) (map (rs x) l @ rest) v'"
    by auto
  from yields.yields_Cons[OF m c this] show ?case by auto
qed

lemma selectMany_yields_outer:
  assumes mvE: "moveNext E = selectMany_moveNext P cs"
    and curE: "\<And>s x S t i. current E (SelectMany_vars s (Some x) (Some (S, t)) True i) =
         (case current S t of Inl e \<Rightarrow> Inl e | Inr y \<Rightarrow> Inr (rs x y))"
    and subs: "\<And>x i. \<exists>t'. yields (cs x i) (getEnumerator (cs x i)) (sub x i) t'"
    and ex: "\<And>x i. stays_exhausted (cs x i)"
  shows "yields E0 s xs s' \<Longrightarrow> E0 = P \<Longrightarrow> spent sb \<Longrightarrow>
     \<exists>r. selectMany_loop P cs s item sb i nm = Some (Inr r) \<and>
         (\<forall>v. moveNext E v = Some (Inr r) \<longrightarrow>
            (\<exists>v'. yields E v (flat_index sub rs i xs) v'))"
proof (induction arbitrary: item sb i nm rule: yields.induct)
  case (yields_Nil E0 s s')
  then have "moveNext P s = Some (Inr (False, s'))" by simp
  from selectMany_loop_exhausted[OF yields_Nil.prems(2) this, of cs item i nm]
  obtain v' where l: "selectMany_loop P cs s item sb i nm = Some (Inr (False, v'))" by blast
  have "\<exists>w. yields E v [] w" if "moveNext E v = Some (Inr (False, v'))" for v
    using yields.yields_Nil[OF that] by blast
  with l show ?case by simp
next
  case (yields_Cons E0 s s1 x xs s')
  then have mv: "moveNext P s = Some (Inr (True, s1))" and cur: "current P s1 = Inr x"
    by simp_all
  note IH = yields_Cons.IH[OF yields_Cons.prems(1)]
  let ?S = "cs x i"
  from subs[of x i] obtain t' where sy: "yields ?S (getEnumerator ?S) (sub x i) t'" by blast
  from sy show ?case
  proof (cases rule: yields.cases)
    case yields_Nil
    from ex[of x i] reachable.reachable_fresh[of ?S] yields_Nil(2)
    obtain t2 where "moveNext ?S t' = Some (Inr (False, t2))"
      unfolding stays_exhausted_def by blast
    then have sp: "spent (Some (?S, t'))" by (simp add: spent_def)
    have "selectMany_loop P cs s item sb i nm =
          selectMany_loop P cs s1 (Some x) (Some (?S, t')) (i + 1) False"
      by (rule selectMany_loop_skip[where cs = cs and i = i,
            OF yields_Cons.prems(2) mv cur yields_Nil(2)])
    with IH[OF sp, of "Some x" "i + 1" False] yields_Nil(1) show ?thesis by simp
  next
    case (yields_Cons t1 y l)
    let ?v1 = "SelectMany_vars s1 (Some x) (Some (?S, t1)) True (i + 1)"
    have l: "selectMany_loop P cs s item sb i nm = Some (Inr (True, ?v1))"
      by (rule selectMany_loop_enter[where cs = cs and i = i,
            OF \<open>spent sb\<close> mv cur yields_Cons(2)])
    have c: "current E ?v1 = Inr (rs x y)"
      using yields_Cons(3) by (simp add: curE)
    have "\<exists>w. yields E ?v1 (map (rs x) l @ flat_index sub rs (i + 1) xs) w"
      by (rule selectMany_yields_inner[OF mvE curE _ yields_Cons(4)]) (rule IH)
    then obtain w where
      rest: "yields E ?v1 (map (rs x) l @ flat_index sub rs (i + 1) xs) w" by blast
    have "\<exists>w. yields E v (flat_index sub rs i (x # xs)) w"
      if "moveNext E v = Some (Inr (True, ?v1))" for v
      using yields.yields_Cons[OF that c rest] yields_Cons(1) by auto
    with l show ?thesis by simp
  qed
qed

lemma selectMany_loop_reachable:
  assumes "selectMany_loop P cs s item sub i nm = Some (Inr (b, v'))" and "reachable P s"
  shows "reachable P (sm_itemEnumerator v')"
proof -
  let ?Q = "\<lambda>((((((E, cs), s), item), sub), i), nm) r.
      reachable E s \<longrightarrow> (\<forall>b v'. r = Inr (b, v') \<longrightarrow> reachable E (sm_itemEnumerator v'))"
  have "?Q ((((((E, cs), s), item), sub), i), nm) r"
    if "selectMany_loop E cs s item sub i nm = Some r" for E cs s item sub i nm r
    using that
  proof (induct rule: selectMany_loop.raw_induct[rotated 1, consumes 1, where Pa = ?Q,
      case_names step])
    case (step loop E cs s item sub i nm r)
    have "reachable E (sm_itemEnumerator v')" if re: "reachable E s" and r: "r = Inr (b, v')"
      for b v'
    proof -
      have nxt: "reachable E s1" if "moveNext E s = Some (Inr (b1, s1))" for b1 s1
        using reachable.reachable_moveNext[OF re that] .
      have ih: "reachable E (sm_itemEnumerator v')"
        if "loop E cs s2 item2 sub2 i2 nm2 = Some (Inr (b, v'))" and "reachable E s2"
        for s2 item2 sub2 i2 nm2
        using step(1)[OF that(1)] that(2) by simp
      show ?thesis
        using step(2) r re
        by (auto split: option.splits sum.splits prod.splits if_splits
              dest: nxt intro: ih)
    qed
    then show ?case by auto
  qed
  from this[OF assms(1)] assms(2) show ?thesis by simp
qed

lemma selectMany_reachable:
  assumes fresh: "getEnumerator E = SelectMany_vars (getEnumerator P) None None False 0"
    and mvE: "moveNext E = selectMany_moveNext P cs"
    and rsE: "reset E = selectMany_reset P"
  shows "reachable E v \<Longrightarrow> reachable P (sm_itemEnumerator v)"
proof (induction rule: reachable.induct)
  case reachable_fresh
  then show ?case by (simp add: fresh reachable.reachable_fresh)
next
  case (reachable_moveNext v b v')
  then show ?case
    using selectMany_loop_reachable[of P cs "sm_itemEnumerator v" "sm_item v"
        "subItemEnumerator v" "sm_index v" True b v']
    by (simp add: mvE selectMany_moveNext_def)
next
  case (reachable_reset v)
  then show ?case by (simp add: rsE selectMany_reset_def reachable.reachable_reset)
qed

lemma selectMany_replays_generic:
  assumes fresh: "getEnumerator E = SelectMany_vars (getEnumerator P) None None False 0"
    and mvE: "moveNext E = selectMany_moveNext P cs"
    and rsE: "reset E = selectMany_reset P"
    and curE: "\<And>s x S t i. current E (SelectMany_vars s (Some x) (Some (S, t)) True i) =
         (case current S t of Inl e \<Rightarrow> Inl e | Inr y \<Rightarrow> Inr (rs x y))"
    and subs: "\<And>x i. \<exists>t'. yields (cs x i) (getEnumerator (cs x i)) (sub x i) t'"
    and ex: "\<And>x i. stays_exhausted (cs x i)"
    and P: "replays P xs"
  shows "replays E (flat_index sub rs 0 xs)"
proof -
  have start: "\<exists>v'. yields E (SelectMany_vars s None None False 0) (flat_index sub rs 0 xs) v'"
    if "yields P s xs s'" for s s'
  proof -
    have "spent None" by (simp add: spent_def)
    from selectMany_yields_outer[OF mvE curE subs ex that refl this, of None 0 True]
    obtain r where l: "selectMany_loop P cs s None None 0 True = Some (Inr r)"
      and y: "\<forall>v. moveNext E v = Some (Inr r) \<longrightarrow>
            (\<exists>v'. yields E v (flat_index sub rs 0 xs) v')"
      by blast
    have "moveNext E (SelectMany_vars s None None False 0) = Some (Inr r)"
      using l by (simp add: mvE selectMany_moveNext_def)
    with y show ?thesis by blast
  qed
  show ?thesis unfolding replays_def
  proof (intro conjI allI impI)
    from P obtain s' where "yields P (getEnumerator P) xs s'" by (auto simp: replays_def)
    from start[OF this] show "\<exists>s'. yields E (getEnumerator E) (flat_index sub rs 0 xs) s'"
      by (simp add: fresh)
  next
    fix v assume "reachable E v"
    then have "reachable P (sm_itemEnumerator v)"
      by (rule selectMany_reachable[OF fresh mvE rsE])
    with P obtain s' where "yields P (reset P (sm_itemEnumerator v)) xs s'"
      by (auto simp: replays_def)
    from start[OF this] show "\<exists>s'. yields E (reset E v) (flat_index sub rs 0 xs) s'"
      by (simp add: rsE selectMany_reset_def)
  qed
qed

lemma selectMany_replays:
  assumes subs: "\<And>x i. \<exists>t'. yields (cs x i) (getEnumerator (cs x i)) (sub x i) t'"
    and ex: "\<And>x i. stays_exhausted (cs x i)"
    and P: "replays P xs"
  shows "replays (selectMany P cs rs) (flat_index sub rs 0 xs)"
    and "replays (selectMany_plain P cs) (flat_index sub (\<lambda>x y. y) 0 xs)"
proof -
  show "replays (selectMany P cs rs) (flat_index sub rs 0 xs)"
    by (rule selectMany_replays_generic[OF _ _ _ _ subs ex P])
       (simp_all add: selectMany_current_def split: sum.splits)
  show "replays (selectMany_plain P cs) (flat_index sub (\<lambda>x y. y) 0 xs)"
    by (rule selectMany_replays_generic[OF _ _ _ _ subs ex P])
       (simp_all add: selectMany_current_plain_def split: sum.splits)
qed

subsection \<open>What a cursor has stored\<close>

lemma ordered_seq_rewound:
  assumes "toArray (ord_this ordered) = Some (Inr xs)"
  shows "rewound (ordered_seq ordered) (\<lambda>s. s \<noteq> None) (ordered_seq ordered')
           (Array_sort (compare_selectors (ord_selectors ordered)) xs)"
  unfolding rewound_def
proof (intro allI impI)
  fix s assume "reachable (ordered_seq ordered) s \<and> s \<noteq> None"
  then have "reset (ordered_seq ordered) s =
         Some (Array_sort (compare_selectors (ord_selectors ordered)) xs, -1)"
    using ordered_seq_keeps_array[OF assms] by blast
  moreover have "yields (ordered_seq ordered')
      (Some (Array_sort (compare_selectors (ord_selectors ordered)) xs, -1))
      (Array_sort (compare_selectors (ord_selectors ordered)) xs)
      (Some (Array_sort (compare_selectors (ord_selectors ordered)) xs,
             int (length (Array_sort (compare_selectors (ord_selectors ordered)) xs))))"
    by (rule buffered_yields) (simp_all add: orderBy_moveNext_def)
  ultimately show "\<exists>s'. yields (ordered_seq ordered') (reset (ordered_seq ordered) s)
      (Array_sort (compare_selectors (ord_selectors ordered)) xs) s'" by auto
qed

lemma reverse_rewound:
  assumes "toArray P = Some (Inr xs)"
  shows "rewound (reverse P) (\<lambda>s. s \<noteq> None) (reverse P') (rev xs)"
  unfolding rewound_def
proof (intro allI impI)
  fix s assume "reachable (reverse P) s \<and> s \<noteq> None"
  then have "reset (reverse P) s = Some (rev xs, -1)"
    using reverse_keeps_array[OF assms] by blast
  moreover have "yields (reverse P') (Some (rev xs, -1)) (rev xs)
      (Some (rev xs, int (length (rev xs))))"
    by (rule buffered_yields) (simp_all add: reverse_moveNext_def)
  ultimately show "\<exists>s'. yields (reverse P') (reset (reverse P) s) (rev xs) s'" by auto
qed

lemma groupBy_rewound:
  assumes "yields P (getEnumerator P) xs s'"
  shows "rewound (groupBy P ks es rs eq) (\<lambda>v. resultSet v \<noteq> None) (groupBy P' ks' es' rs eq')
           (grouped_results rs (group_buckets eq ks es [] xs))"
  unfolding rewound_def
proof (intro allI impI)
  let ?bs = "group_buckets eq ks es [] xs"
  fix v assume "reachable (groupBy P ks es rs eq) v \<and> resultSet v \<noteq> None"
  then have "reset (groupBy P ks es rs eq) v = GroupBy_vars (Some (items_of ?bs)) (-1)"
    using groupBy_keeps_resultSet[OF assms] by blast
  moreover have "yields (groupBy P' ks' es' rs eq') (GroupBy_vars (Some (items_of ?bs)) (-1))
      (grouped_results rs ?bs) (GroupBy_vars (Some (items_of ?bs)) (int (length ?bs)))"
    using groupBy_yields_from[of 0 ?bs P' ks' es' rs eq'] by (simp add: grouped_results_def)
  ultimately show "\<exists>s'. yields (groupBy P' ks' es' rs eq') (reset (groupBy P ks es rs eq) v)
      (grouped_results rs ?bs) s'" by auto
qed

lemma join_seq_rewound:
  fixes ik :: "'b \<Rightarrow> 'x js" and eq :: "'x js \<Rightarrow> 'x js \<Rightarrow> bool" and ys :: "'b list"
  assumes P: "replays P xs" and Q: "yields Q (getEnumerator Q) ys s2"
  defines "bs \<equiv> buckets_of eq ik [] ys"
  shows "rewound (join_seq True P Q ok ik rs eq) (\<lambda>v. jn_hash v \<noteq> None)
           (join_seq True P Q' ok ik' rs eq) (joined_groups rs eq ok bs xs)"
    and "rewound (join_seq False P Q ok ik rs eq) (\<lambda>v. jn_hash v \<noteq> None \<and> idle v)
           (join_seq False P Q' ok ik' rs eq) (joined_pairs rs eq ok bs xs)"
proof -
  define h where "h = Hash (Some eq) ([] :: (string \<times> 'b list js) list) (items_of bs)"
  have init: "join_lazyInitialize Q ik eq = Some (Inr h)"
    using join_lazyInitialize_yields[OF Q] by (simp add: h_def bs_def)
  have ne: "\<forall>b\<in>set bs. snd b \<noteq> []"
    unfolding bs_def by (rule buckets_of_nonempty) simp
  have st: "\<exists>s'. yields P (jn_enumerator (join_reset P v)) xs s'"
      "jn_hash (join_reset P v) = Some h"
    if "reachable (join_seq g P Q ok ik rs eq) v" and "jn_hash v \<noteq> None" for g v
    using join_reachable[OF init that(1)] that(2) P
    by (auto simp: replays_def join_reset_def)
  show "rewound (join_seq True P Q ok ik rs eq) (\<lambda>v. jn_hash v \<noteq> None)
           (join_seq True P Q' ok ik' rs eq) (joined_groups rs eq ok bs xs)"
    unfolding rewound_def joined_groups_def
  proof (intro allI impI)
    fix v assume v: "reachable (join_seq True P Q ok ik rs eq) v \<and> jn_hash v \<noteq> None"
    from st[of True v] v obtain s' where
      "yields P (jn_enumerator (join_reset P v)) xs s'" "jn_hash (join_reset P v) = Some h"
      by auto
    from groupJoin_yields_from[OF ne h_def this(1) this(2) refl, of Q' ok ik' rs]
    show "\<exists>s'. yields (join_seq True P Q' ok ik' rs eq)
            (reset (join_seq True P Q ok ik rs eq) v)
            (map (\<lambda>x. rs x (Group (lookup_bucket eq (ok x) bs))) xs) s'"
      by simp
  qed
  show "rewound (join_seq False P Q ok ik rs eq) (\<lambda>v. jn_hash v \<noteq> None \<and> idle v)
           (join_seq False P Q' ok ik' rs eq) (joined_pairs rs eq ok bs xs)"
    unfolding rewound_def joined_pairs_def
  proof (intro allI impI)
    fix v assume v: "reachable (join_seq False P Q ok ik rs eq) v \<and> jn_hash v \<noteq> None \<and> idle v"
    from st[of False v] v obtain s' where
      "yields P (jn_enumerator (join_reset P v)) xs s'" "jn_hash (join_reset P v) = Some h"
      by auto
    from join_yields_from[OF ne h_def this(1) this(2) refl, of Q' ok ik' rs] v
    show "\<exists>s'. yields (join_seq False P Q' ok ik' rs eq)
            (reset (join_seq False P Q ok ik rs eq) v)
            (concat (map (\<lambda>x. map (\<lambda>y. rs x (Element y)) (lookup_bucket eq (ok x) bs)) xs)) s'"
      by simp
  qed
qed

lemma join_as_join_seq: "join P Q ok ik rs comparer = join_seq False P Q ok ik rs (equals_of comparer)"
  "groupJoin P Q ok ik rs comparer = join_seq True P Q ok ik rs (equals_of comparer)"
  by (simp_all add: join_def groupJoin_def equals_of_def)

lemma join_first_moveNext:
  fixes ik :: "'b \<Rightarrow> 'x js" and eq :: "'x js \<Rightarrow> 'x js \<Rightarrow> bool" and ys :: "'b list"
  assumes Q: "yields Q (getEnumerator Q) ys s2"
    and mv: "moveNext P (getEnumerator P) = Some (Inr (True, s1))"
    and cur: "current P s1 = Inr x"
    and bucket: "lookup_bucket eq (ok x) (buckets_of eq ik [] ys) = y # l"
  shows "moveNext (join_seq False P Q ok ik rs eq)
           (getEnumerator (join_seq False P Q ok ik rs eq)) =
         Some (Inr (True, Join_vars (Some (Hash (Some eq) [] (items_of (buckets_of eq ik [] ys))))
            s1 True (Some x) (Some (Element y)) (Some (y # l)) 0))"
proof -
  define bs where "bs = buckets_of eq ik [] ys"
  define h where "h = Hash (Some eq) ([] :: (string \<times> 'b list js) list) (items_of bs)"
  have init: "join_lazyInitialize Q ik eq = Some (Inr h)"
    using join_lazyInitialize_yields[OF Q] by (simp add: h_def bs_def)
  have ne: "\<forall>b\<in>set bs. snd b \<noteq> []"
    unfolding bs_def by (rule buckets_of_nonempty) simp
  have b: "lookup_bucket eq (ok x) bs = y # l" "lookup_bucket eq (ok x) bs \<noteq> []"
    using bucket by (simp_all add: bs_def)
  let ?v0 = "Join_vars (Some h) (getEnumerator P) False None None None (-1)"
  have scan: "join_scan P ok h (getEnumerator P) = Some (Inr (Some (x, y # l), s1))"
    using join_scan_found[where ok = ok and eq = eq and p = "[]", OF mv cur ne b(2)]
    by (simp add: h_def b(1))
  have "moveNext (join_seq False P Q ok ik rs eq)
           (getEnumerator (join_seq False P Q ok ik rs eq)) =
        join_moveNext False P Q ok ik eq ?v0"
    by (simp add: join_moveNext_initial[OF init])
  also have "\<dots> = join_advance P ok h ?v0 (-1)"
    by (subst join_moveNext_idle[of ?v0 h]) (simp_all add: idle_def)
  also have "\<dots> = Some (Inr (True, Join_vars (Some h) s1 True (Some x) (Some (Element y))
      (Some (y # l)) 0))"
    by (simp add: join_advance_def scan)
  finally show ?thesis by (simp add: h_def bs_def)
qed

section \<open>Claim C5: \<^verbatim>\<open>reset\<close> and a second traversal\<close>

text \<open>
  Claim C5, as stated: for every operator, \<^verbatim>\<open>reset\<close> and a full traversal yield the
  elements of the first traversal, and what the cursor has stored is used again and not
  computed again. For \<^verbatim>\<open>distinct\<close> it is not: the cursor stores the set of the elements
  it has seen, and \<^verbatim>\<open>reset\<close> empties the set (\<^verbatim>\<open>hash.empty()\<close>). After one
  \<^verbatim>\<open>moveNext\<close> over \<^verbatim>\<open>[1]\<close> the set holds \<^verbatim>\<open>1\<close>; after \<^verbatim>\<open>reset\<close> the cursor is in the
  state of a fresh cursor, with an empty set, which the second traversal fills again.
\<close>

theorem distinct_reset_empties_container:
  "moveNext (distinct_seq None (Enumerable_of [Number 1 :: unit js]))
     (getEnumerator (distinct_seq None (Enumerable_of [Number 1 :: unit js]))) =
     Some (Inr (True, Distinct_vars 0 (Hash None [(''1'', Boolean True)] [])))
   \<and> reset (distinct_seq None (Enumerable_of [Number 1 :: unit js]))
       (Distinct_vars 0 (Hash None [(''1'', Boolean True)] [])) =
     Distinct_vars (- 1) (Hash None [] [])
   \<and> getEnumerator (distinct_seq None (Enumerable_of [Number 1 :: unit js])) =
     Distinct_vars (- 1) (Hash None [] [])"
proof -
  have one: "propertyName (Number 1 :: unit js) = ''1''" by code_simp
  show ?thesis
    by (simp add: distinct_moveNext_def distinct_reset_def Hash_empty_def Hash_new_def
        Enumerable_reset_def)
       (subst distinct_loop.simps,
        simp add: Enumerable_moveNext_def Enumerable_current_def put_def lookUp_def
          primitive_key_def getProperty_def Object_prototype_def Let_def one
          del: propertyName.simps)
qed

text \<open>
  \<^verbatim>\<open>reset\<close> of \<^verbatim>\<open>join\<close> calls \<^verbatim>\<open>reset\<close> of the outer cursor and leaves
  \<^verbatim>\<open>secondList\<close> and \<^verbatim>\<open>index\<close> as they are. A cursor that is rewound between two
  matches of one outer element first yields the remaining matches of that element
  and then the whole sequence: over the outer sequence \<^verbatim>\<open>[1]\<close> and two inner elements
  with key \<^verbatim>\<open>1\<close>, one \<^verbatim>\<open>moveNext\<close>, \<^verbatim>\<open>reset\<close> and a full traversal yield three pairs.
\<close>

lemma join_reset_inside_bucket_repeats:
  "moveNext (join (Enumerable_of [1 :: int]) (Enumerable_of [(1 :: int, ''a''), (1, ''b'')])
        Number (\<lambda>i. Number (fst i) :: unit js)
        (\<lambda>o2 s. (o2, case s of Element i \<Rightarrow> snd i | Group g \<Rightarrow> [])) None)
     (getEnumerator (join (Enumerable_of [1 :: int]) (Enumerable_of [(1 :: int, ''a''), (1, ''b'')])
        Number (\<lambda>i. Number (fst i) :: unit js)
        (\<lambda>o2 s. (o2, case s of Element i \<Rightarrow> snd i | Group g \<Rightarrow> [])) None)) =
     Some (Inr (True, Join_vars
       (Some (Hash (Some EqualityComparer_equals) [] [(Number 1, Object [(1, ''a''), (1, ''b'')])]))
       0 True (Some 1) (Some (Element (1, ''a''))) (Some [(1, ''a''), (1, ''b'')]) 0))
   \<and> (\<exists>v'. yields (join (Enumerable_of [1 :: int]) (Enumerable_of [(1 :: int, ''a''), (1, ''b'')])
        Number (\<lambda>i. Number (fst i) :: unit js)
        (\<lambda>o2 s. (o2, case s of Element i \<Rightarrow> snd i | Group g \<Rightarrow> [])) None)
      (getEnumerator (join (Enumerable_of [1 :: int]) (Enumerable_of [(1 :: int, ''a''), (1, ''b'')])
        Number (\<lambda>i. Number (fst i) :: unit js)
        (\<lambda>o2 s. (o2, case s of Element i \<Rightarrow> snd i | Group g \<Rightarrow> [])) None))
      [(1, ''a''), (1, ''b'')] v')
   \<and> (\<exists>v'. yields (join (Enumerable_of [1 :: int]) (Enumerable_of [(1 :: int, ''a''), (1, ''b'')])
        Number (\<lambda>i. Number (fst i) :: unit js)
        (\<lambda>o2 s. (o2, case s of Element i \<Rightarrow> snd i | Group g \<Rightarrow> [])) None)
      (reset (join (Enumerable_of [1 :: int]) (Enumerable_of [(1 :: int, ''a''), (1, ''b'')])
        Number (\<lambda>i. Number (fst i) :: unit js)
        (\<lambda>o2 s. (o2, case s of Element i \<Rightarrow> snd i | Group g \<Rightarrow> [])) None)
        (Join_vars
          (Some (Hash (Some EqualityComparer_equals) [] [(Number 1, Object [(1, ''a''), (1, ''b'')])]))
          0 True (Some 1) (Some (Element (1, ''a''))) (Some [(1, ''a''), (1, ''b'')]) 0))
      [(1, ''b''), (1, ''a''), (1, ''b'')] v')"
proof -
  let ?P = "Enumerable_of [1 :: int]"
  let ?Q = "Enumerable_of [(1 :: int, ''a''), (1, ''b'')]"
  let ?ik = "\<lambda>i :: int \<times> string. Number (fst i) :: unit js"
  let ?rs = "\<lambda>(o2 :: int) s. (o2, case s of Element i \<Rightarrow> snd i | Group g \<Rightarrow> [])"
  let ?eq = "EqualityComparer_equals :: unit js \<Rightarrow> unit js \<Rightarrow> bool"
  let ?J = "join_seq False ?P ?Q Number ?ik ?rs ?eq"
  let ?bs = "[(Number 1 :: unit js, [(1 :: int, ''a''), (1, ''b'')])]"
  let ?h = "Hash (Some ?eq) ([] :: (string \<times> (int \<times> string) list js) list) (items_of ?bs)"
  have J: "join ?P ?Q Number ?ik ?rs None = ?J" by (simp add: join_def)
  have bs: "buckets_of ?eq ?ik [] [(1 :: int, ''a''), (1, ''b'')] = ?bs"
    by (simp add: buckets_of_def EqualityComparer_equals_def)
  have ne: "\<forall>b\<in>set ?bs. snd b \<noteq> []" by simp
  let ?v1 = "Join_vars (Some ?h) 0 True (Some (1 :: int)) (Some (Element (1 :: int, ''a'')))
      (Some [(1 :: int, ''a''), (1, ''b'')]) 0"
  let ?w = "Join_vars (Some ?h) (-1) True (Some (1 :: int)) (Some (Element (1 :: int, ''b'')))
      (Some [(1 :: int, ''a''), (1, ''b'')]) 1"
  have first: "moveNext ?J (getEnumerator ?J) = Some (Inr (True, ?v1))"
    using join_first_moveNext[where P = ?P and Q = ?Q and ys = "[(1, ''a''), (1, ''b'')]"
        and ?s1.0 = 0 and x = 1 and eq = ?eq and ok = Number and ik = ?ik
        and y = "(1, ''a'')" and l = "[(1, ''b'')]" and rs = ?rs, OF Enumerable_of_yields]
    by (simp add: bs Enumerable_moveNext_def Enumerable_current_def EqualityComparer_equals_def)
  have fresh: "\<exists>v'. yields ?J (getEnumerator ?J) [(1, ''a''), (1, ''b'')] v'"
    using join_seq_replays(2)[where P = ?P and xs = "[1]" and Q = ?Q
        and ys = "[(1, ''a''), (1, ''b'')]" and ok = Number and ik = ?ik and rs = ?rs
        and eq = ?eq, OF Enumerable_of_replays Enumerable_of_yields]
    by (simp add: bs EqualityComparer_equals_def)
  have step: "moveNext ?J (reset ?J ?v1) = Some (Inr (True, ?w))"
    by (simp add: join_reset_def Enumerable_reset_def join_moveNext_def Let_def)
  have cur: "current ?J ?w = Inr (1, ''b'')" by (simp add: join_current_def)
  have "\<exists>v'. yields ?J ?w
      (concat (map (\<lambda>x. map (\<lambda>y. ?rs x (Element y)) (lookup_bucket ?eq (Number x) ?bs)) [1])) v'"
    by (rule join_yields_from[OF ne refl Enumerable_of_yields[of "[1 :: int]"]])
       (simp_all add: idle_def)
  then obtain v' where "yields ?J ?w [(1, ''a''), (1, ''b'')] v'"
    by (auto simp: EqualityComparer_equals_def)
  from yields.yields_Cons[OF step cur this]
  have again: "\<exists>v'. yields ?J (reset ?J ?v1) [(1, ''b''), (1, ''a''), (1, ''b'')] v'" by blast
  show ?thesis
    unfolding J using first fresh again by (simp add: items_of_def)
qed

text \<open>
  The lists of the example below.
\<close>

lemma example_select: "map_index (\<lambda>x i. x + i) 0 [3, 1, 2 :: int] = [3, 2, 4]" by simp
lemma example_takeWhile: "takeWhile_index (\<lambda>x i. 1 < x) 0 [3, 1, 2 :: int] = [3]" by simp
lemma example_skipWhile: "dropWhile_index (\<lambda>x i. 1 < x) 0 [3, 1, 2 :: int] = [1, 2]" by simp
lemma example_distinct: "distinct_list (Hash_new None) [Number 1, Number 1, Number 2 :: unit js] = [Number 1, Number 2]"
  by (simp add: Hash_new_def put_def lookUp_def primitive_key_def getProperty_def
      Object_prototype_def Let_def)
lemma example_orderBy: "Array_sort (compare_selectors (ord_selectors
     (thenBy (orderBy ASCENDING (Enumerable_of [3, 1, 2 :: int]) (\<lambda>x. Number (x mod 2) :: unit js)
        Comparer_compare []) Number Comparer_compare))) [3, 1, 2] = [2, 1, 3]"
  by (simp add: Array_sort_def compare_selectors_def thenBy_def orderBy_def ASCENDING_def
      Comparer_compare_def Let_def)
lemma example_groupBy: "grouped_results (\<lambda>k g. (k, case g of Group l \<Rightarrow> l | Element e \<Rightarrow> []))
     (group_buckets EqualityComparer_equals (\<lambda>x. Number (x mod 2) :: unit js) (\<lambda>x. x) [] [3, 1, 2 :: int])
   = [(Number 1, [3, 1]), (Number 0, [2])]"
  by (simp add: grouped_results_def group_buckets_def EqualityComparer_equals_def)
lemma example_groupJoin: "joined_groups (\<lambda>o2 s. (o2, case s of Element i \<Rightarrow> [snd i] | Group g \<Rightarrow> map snd g))
     (equals_of None) Number
     (buckets_of (equals_of None) (\<lambda>i. Number (fst i) :: unit js) []
        [(1 :: int, ''a''), (1, ''b''), (3, ''c'')]) [3, 1, 2 :: int]
   = [(3, [''c'']), (1, [''a'', ''b'']), (2, [])]"
  by (simp add: joined_groups_def buckets_of_def equals_of_def EqualityComparer_equals_def)
lemma example_join: "joined_pairs (\<lambda>o2 s. (o2, case s of Element i \<Rightarrow> [snd i] | Group g \<Rightarrow> map snd g))
     (equals_of None) Number
     (buckets_of (equals_of None) (\<lambda>i. Number (fst i) :: unit js) []
        [(1 :: int, ''a''), (1, ''b''), (3, ''c'')]) [3, 1, 2 :: int]
   = [(3, [''c'']), (1, [''a'']), (1, [''b''])]"
  by (simp add: joined_pairs_def buckets_of_def equals_of_def EqualityComparer_equals_def)

text \<open>
  Claim C5, amended. Let the cursor of the parent sequence \<open>P\<close> yield the list \<open>xs\<close>
  when it is fresh and again after every \<^verbatim>\<open>reset\<close> (\<open>replays P xs\<close>; the source
  adapter, \<^verbatim>\<open>range\<close> and \<^verbatim>\<open>repeat\<close> are such sequences). Then a cursor of \<^verbatim>\<open>select\<close>,
  \<^verbatim>\<open>where\<close>, \<^verbatim>\<open>takeWhile\<close>, \<^verbatim>\<open>skipWhile\<close>, \<^verbatim>\<open>concat\<close>, \<^verbatim>\<open>selectMany\<close>, \<^verbatim>\<open>distinct\<close>,
  \<^verbatim>\<open>orderBy\<close> and \<^verbatim>\<open>thenBy\<close>, \<^verbatim>\<open>reverse\<close>, \<^verbatim>\<open>groupBy\<close> and \<^verbatim>\<open>groupJoin\<close> over \<open>P\<close>, in
  whatever state it can be, yields after \<^verbatim>\<open>reset\<close> and a full traversal the list that
  a fresh cursor yields. For \<^verbatim>\<open>join\<close> this holds for a fresh cursor and for a cursor
  that is not between two matches of one outer element (\<open>idle\<close>). \<^verbatim>\<open>concat\<close> and
  \<^verbatim>\<open>selectMany\<close> move an exhausted cursor of the second sequence, and of a sequence
  that \<^verbatim>\<open>collectionSelector\<close> returns, once more: these must stay exhausted.

  The array of \<^verbatim>\<open>orderBy\<close>, \<^verbatim>\<open>thenBy\<close> and \<^verbatim>\<open>reverse\<close>, the result set of \<^verbatim>\<open>groupBy\<close>
  and the container of \<^verbatim>\<open>join\<close> and \<^verbatim>\<open>groupJoin\<close> stay in the cursor: once they are
  built, the traversal after \<^verbatim>\<open>reset\<close> yields the same list also under the methods of
  the operator over another source (for the two joins: over another inner sequence),
  so it reads what is stored and computes nothing again. \<^verbatim>\<open>distinct\<close> empties its set
  in \<^verbatim>\<open>reset\<close> and fills it again.
\<close>

theorem reset_replays_first_traversal:
  fixes ik :: "'b \<Rightarrow> 'x js" and ys :: "'b list"
  assumes P: "replays P xs" and Q: "yields Q (getEnumerator Q) ys t" and D: "replays D ds"
    and O: "ord_this ordered = P"
    and S: "replays S ws" "stays_exhausted S"
    and subs: "\<forall>x i. (\<exists>t'. yields (cs x i) (getEnumerator (cs x i)) (sub x i) t') \<and>
                  stays_exhausted (cs x i)"
  shows
   "replays (Enumerable_of zs) zs \<and>
    (\<forall>R. Enumerable_range start cnt = Inr R \<longrightarrow>
       replays R (map (\<lambda>i. start + int i) [0..<nat cnt])) \<and>
    (\<forall>R. Enumerable_repeat element cnt = Inr R \<longrightarrow> replays R (replicate (nat cnt) element)) \<and>
    replays (select (returning f) P) (map_index f 0 xs) \<and>
    replays (where_seq p P) (filter p xs) \<and>
    replays (takeWhile_seq q P) (takeWhile_index q 0 xs) \<and>
    replays (skipWhile_seq q P) (dropWhile_index q 0 xs) \<and>
    replays (concat_seq P S) (xs @ ws) \<and>
    replays (selectMany P cs ms) (flat_index sub ms 0 xs) \<and>
    replays (selectMany_plain P cs) (flat_index sub (\<lambda>x y. y) 0 xs) \<and>
    replays (distinct_seq c D) (distinct_list (Hash_new c) ds) \<and>
    (\<forall>v. reachable (distinct_seq c D) v \<longrightarrow>
       ds_hash (reset (distinct_seq c D) v) = Hash_new c) \<and>
    replays (ordered_seq ordered) (Array_sort (compare_selectors (ord_selectors ordered)) xs) \<and>
    rewound (ordered_seq ordered) (\<lambda>s. s \<noteq> None) (ordered_seq ordered')
      (Array_sort (compare_selectors (ord_selectors ordered)) xs) \<and>
    replays (reverse P) (rev xs) \<and>
    rewound (reverse P) (\<lambda>s. s \<noteq> None) (reverse P') (rev xs) \<and>
    replays (groupBy P ks es gs eq) (grouped_results gs (group_buckets eq ks es [] xs)) \<and>
    rewound (groupBy P ks es gs eq) (\<lambda>v. resultSet v \<noteq> None) (groupBy P' ks' es' gs eq')
      (grouped_results gs (group_buckets eq ks es [] xs)) \<and>
    replays (groupJoin P Q ok ik rs comparer)
      (joined_groups rs (equals_of comparer) ok (buckets_of (equals_of comparer) ik [] ys) xs) \<and>
    rewound (groupJoin P Q ok ik rs comparer) (\<lambda>v. jn_hash v \<noteq> None)
      (groupJoin P Q' ok ik' rs comparer)
      (joined_groups rs (equals_of comparer) ok (buckets_of (equals_of comparer) ik [] ys) xs) \<and>
    (\<exists>v'. yields (join P Q ok ik rs comparer) (getEnumerator (join P Q ok ik rs comparer))
      (joined_pairs rs (equals_of comparer) ok (buckets_of (equals_of comparer) ik [] ys) xs) v') \<and>
    rewound (join P Q ok ik rs comparer) idle (join P Q ok ik rs comparer)
      (joined_pairs rs (equals_of comparer) ok (buckets_of (equals_of comparer) ik [] ys) xs) \<and>
    rewound (join P Q ok ik rs comparer) (\<lambda>v. jn_hash v \<noteq> None \<and> idle v)
      (join P Q' ok ik' rs comparer)
      (joined_pairs rs (equals_of comparer) ok (buckets_of (equals_of comparer) ik [] ys) xs)"
proof -
  from P obtain s1 where P0: "yields P (getEnumerator P) xs s1"
    by (auto simp: replays_def)
  then have arr: "toArray P = Some (Inr xs)" by (rule toArray_yields)
  then have arrO: "toArray (ord_this ordered) = Some (Inr xs)" by (simp add: O)
  let ?eq = "equals_of comparer"
  let ?bs = "buckets_of ?eq ik [] ys"
  have c1: "replays (Enumerable_of zs) zs" by (rule Enumerable_of_replays)
  have c2: "\<forall>R. Enumerable_range start cnt = Inr R \<longrightarrow>
       replays R (map (\<lambda>i. start + int i) [0..<nat cnt])"
    by (intro allI impI) (rule range_replays)
  have c3: "\<forall>R. Enumerable_repeat element cnt = Inr R \<longrightarrow> replays R (replicate (nat cnt) element)"
    by (intro allI impI) (rule repeat_replays)
  have c4: "replays (select (returning f) P) (map_index f 0 xs)"
    by (rule select_replays[OF P])
  have c5: "replays (where_seq p P) (filter p xs)" by (rule where_replays[OF P])
  have c6: "replays (takeWhile_seq q P) (takeWhile_index q 0 xs)" by (rule takeWhile_replays[OF P])
  have c7: "replays (skipWhile_seq q P) (dropWhile_index q 0 xs)" by (rule skipWhile_replays[OF P])
  have c7a: "replays (concat_seq P S) (xs @ ws)" by (rule concat_replays[OF P S])
  have c7b: "replays (selectMany P cs ms) (flat_index sub ms 0 xs)"
    by (rule selectMany_replays(1)[OF _ _ P]) (use subs in blast)+
  have c7c: "replays (selectMany_plain P cs) (flat_index sub (\<lambda>x y. y) 0 xs)"
    by (rule selectMany_replays(2)[OF _ _ P]) (use subs in blast)+
  have c8: "replays (distinct_seq c D) (distinct_list (Hash_new c) ds)"
    by (rule distinct_replays[OF D])
  have c9: "\<forall>v. reachable (distinct_seq c D) v \<longrightarrow>
       ds_hash (reset (distinct_seq c D) v) = Hash_new c"
    by (intro allI impI) (rule distinct_reset_empties)
  have c10: "replays (ordered_seq ordered) (Array_sort (compare_selectors (ord_selectors ordered)) xs)"
    by (rule ordered_seq_replays[OF arrO])
  have c11: "rewound (ordered_seq ordered) (\<lambda>s. s \<noteq> None) (ordered_seq ordered')
      (Array_sort (compare_selectors (ord_selectors ordered)) xs)"
    by (rule ordered_seq_rewound[OF arrO])
  have c12: "replays (reverse P) (rev xs)" by (rule reverse_replays[OF arr])
  have c13: "rewound (reverse P) (\<lambda>s. s \<noteq> None) (reverse P') (rev xs)"
    by (rule reverse_rewound[OF arr])
  have c14: "replays (groupBy P ks es gs eq) (grouped_results gs (group_buckets eq ks es [] xs))"
    using groupBy_replays[OF P0] by (simp add: grouped_results_def)
  have c15: "rewound (groupBy P ks es gs eq) (\<lambda>v. resultSet v \<noteq> None) (groupBy P' ks' es' gs eq')
      (grouped_results gs (group_buckets eq ks es [] xs))"
    by (rule groupBy_rewound[OF P0])
  have c16: "replays (groupJoin P Q ok ik rs comparer) (joined_groups rs ?eq ok ?bs xs)"
    using join_seq_replays(1)[OF P Q] by (simp add: join_as_join_seq joined_groups_def)
  have c17: "rewound (groupJoin P Q ok ik rs comparer) (\<lambda>v. jn_hash v \<noteq> None)
      (groupJoin P Q' ok ik' rs comparer) (joined_groups rs ?eq ok ?bs xs)"
    unfolding join_as_join_seq by (rule join_seq_rewound(1)[OF P Q])
  have c18: "\<exists>v'. yields (join P Q ok ik rs comparer) (getEnumerator (join P Q ok ik rs comparer))
      (joined_pairs rs ?eq ok ?bs xs) v'"
    using join_seq_replays(2)[OF P Q, of ok ik rs ?eq] by (simp add: join_as_join_seq joined_pairs_def)
  have c19: "rewound (join P Q ok ik rs comparer) idle (join P Q ok ik rs comparer)
      (joined_pairs rs ?eq ok ?bs xs)"
    unfolding join_as_join_seq rewound_def joined_pairs_def
    using join_seq_replays(3)[OF P Q, of ok ik rs ?eq] by blast
  have c20: "rewound (join P Q ok ik rs comparer) (\<lambda>v. jn_hash v \<noteq> None \<and> idle v)
      (join P Q' ok ik' rs comparer) (joined_pairs rs ?eq ok ?bs xs)"
    unfolding join_as_join_seq by (rule join_seq_rewound(2)[OF P Q])
  show ?thesis
    by (intro conjI c1 c2 c3 c4 c5 c6 c7 c7a c7b c7c c8 c9 c10 c11 c12 c13 c14 c15 c16 c17 c18 c19 c20)
qed

text \<open>
  The theorem on the sequence \<^verbatim>\<open>[3, 1, 2]\<close>: the lists that the cursors replay, and a
  cursor of \<^verbatim>\<open>join\<close> after its first \<^verbatim>\<open>moveNext\<close>, rewound and then run by the methods
  of the \<^verbatim>\<open>join\<close> with an empty inner sequence.
\<close>

theorem reset_replays_first_traversal_witness:
  "replays (select (returning (\<lambda>x i. x + i)) (Enumerable_of [3, 1, 2 :: int])) [3, 2, 4]
   \<and> replays (where_seq (\<lambda>x. 1 < x) (Enumerable_of [3, 1, 2 :: int])) [3, 2]
   \<and> replays (takeWhile_seq (\<lambda>x i. 1 < x) (Enumerable_of [3, 1, 2 :: int])) [3]
   \<and> replays (skipWhile_seq (\<lambda>x i. 1 < x) (Enumerable_of [3, 1, 2 :: int])) [1, 2]
   \<and> replays (concat_seq (Enumerable_of [3, 1, 2 :: int]) (Enumerable_of [7, 8])) [3, 1, 2, 7, 8]
   \<and> replays (selectMany (Enumerable_of [3, 1, 2 :: int])
           (\<lambda>x i. Enumerable_of (if x = 1 then [] else [x, i])) (\<lambda>x y. (x, y)))
         [(3, 3), (3, 0), (2, 2), (2, 2)]
   \<and> replays (selectMany_plain (Enumerable_of [3, 1, 2 :: int])
           (\<lambda>x i. Enumerable_of (if x = 1 then [] else [x, i])))
         [3, 0, 2, 2]
   \<and> replays (distinct_seq None (Enumerable_of [Number 1, Number 1, Number 2 :: unit js]))
         [Number 1, Number 2]
   \<and> replays (ordered_seq (thenBy (orderBy ASCENDING (Enumerable_of [3, 1, 2 :: int])
           (\<lambda>x. Number (x mod 2) :: unit js) Comparer_compare []) Number Comparer_compare))
         [2, 1, 3]
   \<and> replays (reverse (Enumerable_of [3, 1, 2 :: int])) [2, 1, 3]
   \<and> replays (groupBy (Enumerable_of [3, 1, 2 :: int]) (\<lambda>x. Number (x mod 2) :: unit js)
           (\<lambda>x. x) (\<lambda>k g. (k, case g of Group l \<Rightarrow> l | Element e \<Rightarrow> []))
           EqualityComparer_equals)
         [(Number 1, [3, 1]), (Number 0, [2])]
   \<and> replays (groupJoin (Enumerable_of [3, 1, 2 :: int])
           (Enumerable_of [(1 :: int, ''a''), (1, ''b''), (3, ''c'')])
           Number (\<lambda>i. Number (fst i) :: unit js)
           (\<lambda>o2 s. (o2, case s of Element i \<Rightarrow> [snd i] | Group g \<Rightarrow> map snd g)) None)
         [(3, [''c'']), (1, [''a'', ''b'']), (2, [])]
   \<and> (\<exists>v'. yields
          (join (Enumerable_of [3, 1, 2 :: int]) (Enumerable_of ([] :: (int \<times> string) list))
             Number (\<lambda>i. Undefined :: unit js)
             (\<lambda>o2 s. (o2, case s of Element i \<Rightarrow> [snd i] | Group g \<Rightarrow> map snd g)) None)
          (reset
             (join (Enumerable_of [3, 1, 2 :: int])
                (Enumerable_of [(1 :: int, ''a''), (1, ''b''), (3, ''c'')])
                Number (\<lambda>i. Number (fst i) :: unit js)
                (\<lambda>o2 s. (o2, case s of Element i \<Rightarrow> [snd i] | Group g \<Rightarrow> map snd g)) None)
             (Join_vars
                (Some (Hash (Some EqualityComparer_equals) []
                   [(Number 1, Object [(1, ''a''), (1, ''b'')]), (Number 3, Object [(3, ''c'')])]))
                0 True (Some 3) (Some (Element (3, ''c''))) (Some [(3, ''c'')]) 0))
          [(3, [''c'']), (1, [''a'']), (1, [''b''])] v')"
proof -
  let ?P = "Enumerable_of [3, 1, 2 :: int]"
  let ?Q = "Enumerable_of [(1 :: int, ''a''), (1, ''b''), (3, ''c'')]"
  let ?Qe = "Enumerable_of ([] :: (int \<times> string) list)"
  let ?D = "Enumerable_of [Number 1, Number 1, Number 2 :: unit js]"
  let ?ord = "thenBy (orderBy ASCENDING ?P (\<lambda>x. Number (x mod 2) :: unit js) Comparer_compare [])
      Number Comparer_compare"
  let ?ik = "\<lambda>i :: int \<times> string. Number (fst i) :: unit js"
  let ?ike = "\<lambda>i :: int \<times> string. Undefined :: unit js"
  let ?rs = "\<lambda>(o2 :: int) s. (o2, case s of Element i \<Rightarrow> [snd i] | Group g \<Rightarrow> map snd g)"
  let ?gs = "\<lambda>(k :: unit js) g. (k, case g of Group l \<Rightarrow> l | Element (e :: int) \<Rightarrow> [])"
  let ?ks = "\<lambda>x :: int. Number (x mod 2) :: unit js"
  let ?eq = "EqualityComparer_equals :: unit js \<Rightarrow> unit js \<Rightarrow> bool"
  let ?J = "join ?P ?Q Number ?ik ?rs None"
  let ?v1 = "Join_vars
      (Some (Hash (Some ?eq) ([] :: (string \<times> (int \<times> string) list js) list)
         [(Number 1, Object [(1 :: int, ''a''), (1, ''b'')]), (Number 3, Object [(3, ''c'')])]))
      0 True (Some (3 :: int)) (Some (Element (3 :: int, ''c''))) (Some [(3 :: int, ''c'')]) 0"
  have ord: "ord_this ?ord = ?P" by (simp add: thenBy_def orderBy_def)
  let ?sub = "\<lambda>(x :: int) (i :: int). if x = 1 then [] else [x, i]"
  let ?cs = "\<lambda>x i. Enumerable_of (?sub x i)"
  have subs: "\<forall>x i. (\<exists>t'. yields (?cs x i) (getEnumerator (?cs x i)) (?sub x i) t') \<and>
      stays_exhausted (?cs x i)"
    using Enumerable_of_yields Enumerable_of_stays_exhausted by blast
  note T = reset_replays_first_traversal[where P = ?P and xs = "[3, 1, 2]" and Q = ?Q
      and ys = "[(1, ''a''), (1, ''b''), (3, ''c'')]" and D = ?D
      and ds = "[Number 1, Number 1, Number 2]" and ordered = ?ord
      and f = "\<lambda>x i. x + i" and p = "\<lambda>x. 1 < x" and q = "\<lambda>x i. 1 < x" and c = None
      and ks = ?ks and es = "\<lambda>x. x" and gs = ?gs and eq = ?eq
      and ok = Number and ik = ?ik and rs = ?rs and comparer = None
      and Q' = ?Qe and ik' = ?ike and zs = "[] :: int list" and start = 0 and cnt = 0
      and element = "0 :: int" and ordered' = ?ord and P' = ?P and ks' = ?ks
      and es' = "\<lambda>x. x" and eq' = ?eq
      and S = "Enumerable_of [7, 8]" and ws = "[7, 8]" and cs = ?cs and sub = ?sub
      and ms = "\<lambda>x y. (x, y)",
      OF Enumerable_of_replays Enumerable_of_yields Enumerable_of_replays ord
        Enumerable_of_replays Enumerable_of_stays_exhausted subs]
  have first: "moveNext ?J (getEnumerator ?J) = Some (Inr (True, ?v1))"
    unfolding join_def
    using join_first_moveNext[where P = ?P and Q = ?Q
        and ys = "[(1, ''a''), (1, ''b''), (3, ''c'')]"
        and ?s1.0 = 0 and x = 3 and eq = ?eq and ok = Number and ik = ?ik
        and y = "(3, ''c'')" and l = "[]" and rs = ?rs, OF Enumerable_of_yields]
    by (simp add: buckets_of_def items_of_def Enumerable_moveNext_def Enumerable_current_def
        EqualityComparer_equals_def)
  have re: "reachable ?J ?v1"
    by (rule reachable.reachable_moveNext[OF reachable.reachable_fresh first])
  have started: "jn_hash ?v1 \<noteq> None \<and> idle ?v1" by (simp add: idle_def)
  from T have "rewound ?J (\<lambda>v. jn_hash v \<noteq> None \<and> idle v) (join ?P ?Qe Number ?ike ?rs None)
      (joined_pairs ?rs (equals_of None) Number
         (buckets_of (equals_of None) ?ik [] [(1, ''a''), (1, ''b''), (3, ''c'')]) [3, 1, 2])"
    by (elim conjE)
  with re started have j: "\<exists>v'. yields (join ?P ?Qe Number ?ike ?rs None) (reset ?J ?v1)
      [(3, [''c'']), (1, [''a'']), (1, [''b''])] v'"
    unfolding rewound_def example_join by blast
  from T have "replays (select (returning (\<lambda>x i. x + i)) ?P) (map_index (\<lambda>x i. x + i) 0 [3, 1, 2])"
    by (elim conjE)
  then have c1: "replays (select (returning (\<lambda>x i. x + i)) ?P) [3, 2, 4]" by simp
  from T have c2: "replays (where_seq (\<lambda>x. 1 < x) ?P) (filter (\<lambda>x. 1 < x) [3, 1, 2])"
    by (elim conjE)
  from T have "replays (takeWhile_seq (\<lambda>x i. 1 < x) ?P) (takeWhile_index (\<lambda>x i. 1 < x) 0 [3, 1, 2])"
    by (elim conjE)
  then have c3: "replays (takeWhile_seq (\<lambda>x i. 1 < x) ?P) [3]" by simp
  from T have "replays (skipWhile_seq (\<lambda>x i. 1 < x) ?P) (dropWhile_index (\<lambda>x i. 1 < x) 0 [3, 1, 2])"
    by (elim conjE)
  then have c4: "replays (skipWhile_seq (\<lambda>x i. 1 < x) ?P) [1, 2]" by simp
  from T have "replays (distinct_seq None ?D)
      (distinct_list (Hash_new None) [Number 1, Number 1, Number 2])"
    by (elim conjE)
  then have c5: "replays (distinct_seq None ?D) [Number 1, Number 2]" unfolding example_distinct .
  from T have "replays (ordered_seq ?ord)
      (Array_sort (compare_selectors (ord_selectors ?ord)) [3, 1, 2])"
    by (elim conjE)
  then have c6: "replays (ordered_seq ?ord) [2, 1, 3]" unfolding example_orderBy .
  from T have "replays (reverse ?P) (rev [3, 1, 2])" by (elim conjE)
  then have c7: "replays (reverse ?P) [2, 1, 3]" by simp
  from T have "replays (groupBy ?P ?ks (\<lambda>x. x) ?gs ?eq)
      (grouped_results ?gs (group_buckets ?eq ?ks (\<lambda>x. x) [] [3, 1, 2]))"
    by (elim conjE)
  then have c8: "replays (groupBy ?P ?ks (\<lambda>x. x) ?gs ?eq) [(Number 1, [3, 1]), (Number 0, [2])]"
    unfolding example_groupBy .
  from T have "replays (groupJoin ?P ?Q Number ?ik ?rs None)
      (joined_groups ?rs (equals_of None) Number
         (buckets_of (equals_of None) ?ik [] [(1, ''a''), (1, ''b''), (3, ''c'')]) [3, 1, 2])"
    by (elim conjE)
  then have c9: "replays (groupJoin ?P ?Q Number ?ik ?rs None)
      [(3, [''c'']), (1, [''a'', ''b'']), (2, [])]"
    unfolding example_groupJoin .
  from c2 have c2': "replays (where_seq (\<lambda>x. 1 < x) ?P) [3, 2]" by simp
  from T have "replays (concat_seq ?P (Enumerable_of [7, 8])) ([3, 1, 2] @ [7, 8])"
    by (elim conjE)
  then have d1: "replays (concat_seq ?P (Enumerable_of [7, 8])) [3, 1, 2, 7, 8]" by simp
  from T have "replays (selectMany ?P ?cs (\<lambda>x y. (x, y)))
      (flat_index ?sub (\<lambda>x y. (x, y)) 0 [3, 1, 2])"
    by (elim conjE)
  then have d2: "replays (selectMany ?P ?cs (\<lambda>x y. (x, y))) [(3, 3), (3, 0), (2, 2), (2, 2)]"
    by simp
  from T have "replays (selectMany_plain ?P ?cs) (flat_index ?sub (\<lambda>x y. y) 0 [3, 1, 2])"
    by (elim conjE)
  then have d3: "replays (selectMany_plain ?P ?cs) [3, 0, 2, 2]" by simp
  show ?thesis
    by (intro conjI c1 c2' c3 c4 d1 d2 d3 c5 c6 c7 c8 c9 j)
qed

end
